(* ===== verification/Prelude.thy ===== *)
theory Prelude
  imports Main "HOL-Library.Word" "HOL-Library.AList" "HOL-Library.List_Lexorder"
    "HOL-Library.Char_ord" "HOL-Library.Multiset"
begin

text \<open>
  The vocabulary that every component of the development shares: the machine integers of the
  code, the errors an operation can end in, computations that change a state and may throw, and
  the two associative containers of the C++ library the code stores its tables in.
  \<^item> \<open>std::map\<close> iterates in key order, and the code depends on it (the order in which
    subscribers are called); it is an association list kept strictly sorted by key.
  \<^item> \<open>std::unordered_map\<close> iterates in an order the language leaves open; it is an association
    list with distinct keys, and an operation that iterates takes the iteration order as an
    argument.
  The laws of both are one interface, the locale \<open>table\<close>, with two interpretations.
\<close>

named_theorems run \<open>one-step evaluation of computations\<close>
named_theorems keeps \<open>what a computation leaves true of its state\<close>

section \<open>Machine integers\<close>

type_synonym byte = "8 word"
type_synonym u16 = "16 word"
type_synonym u32 = "32 word"
type_synonym u64 = "64 word"
type_synonym Id = u64

text \<open>The object representation of an unsigned integer: \<open>n\<close> bytes, least significant first.\<close>

primrec le_bytes :: "nat \<Rightarrow> nat \<Rightarrow> byte list" where
  "le_bytes 0 v = []"
| "le_bytes (Suc n) v = word_of_nat v # le_bytes n (v div 256)"

primrec le_value :: "byte list \<Rightarrow> nat" where
  "le_value [] = 0"
| "le_value (b # bs) = unat b + 256 * le_value bs"

lemma unat_byte_less: "unat (b :: byte) < 256"
  by (rule order_less_le_trans [OF unsigned_less]) simp

lemma unat_u32: "n < 2 ^ 32 \<Longrightarrow> unat (word_of_nat n :: u32) = n"
  by (simp add: unat_of_nat)

lemma word_less_plus1: "i < - 1 \<Longrightarrow> i < i + (1 :: 'a::len word)"
proof -
  assume "i < - 1"
  then have "1 + i \<noteq> 0" using max_word_wrap [of i] by (auto simp: add.commute)
  then show ?thesis by (simp add: word_less_nat_alt unatSuc add.commute)
qed

lemma length_le_bytes [simp]: "length (le_bytes n v) = n"
  by (induction n arbitrary: v) auto

lemma le_bytes_numeral:
  "le_bytes (numeral k) v = word_of_nat v # le_bytes (pred_numeral k) (v div 256)"
  by (subst numeral_eq_Suc) (rule le_bytes.simps)

lemma le_value_le_bytes: "le_value (le_bytes n v) = v mod 256 ^ n"
proof (induction n arbitrary: v)
  case (Suc n)
  have "v mod 256 + 256 * (v div 256 mod 256 ^ n) = v mod (256 * 256 ^ n)"
    by (simp add: mod_mult2_eq)
  then show ?case by (simp add: Suc unat_of_nat)
qed simp

lemma le_value_less: "le_value bs < 256 ^ length bs"
proof (induction bs)
  case (Cons b bs)
  have "unat b < 256" by (rule unat_byte_less)
  with Cons show ?case by simp
qed simp

lemma le_bytes_le_value: "le_bytes (length bs) (le_value bs) = bs"
proof (induction bs)
  case (Cons b bs)
  have b: "unat b < 256" by (rule unat_byte_less)
  have "(256 :: byte) = 0" by simp
  then have "(256 :: byte) * word_of_nat (le_value bs) = 0" by (simp only: mult_zero_left)
  then have "word_of_nat (unat b + 256 * le_value bs) = b" by simp
  with b Cons show ?case by simp
qed simp

lemma le_value_word [simp]:
  "LENGTH('a::len) \<le> 8 * n \<Longrightarrow> word_of_nat (le_value (le_bytes n (unat w))) = (w :: 'a word)"
proof -
  assume n: "LENGTH('a) \<le> 8 * n"
  have "unat w < 2 ^ LENGTH('a)" by (rule unsigned_less)
  also have "\<dots> \<le> 2 ^ (8 * n)" using n by (rule power_increasing) simp
  also have "\<dots> = 256 ^ n" by (simp add: power_mult)
  finally show ?thesis by (simp add: le_value_le_bytes)
qed

text \<open>The bytes of a \<open>std::string\<close>.\<close>

definition char_byte :: "char \<Rightarrow> byte" where
  "char_byte c = word_of_nat (of_char c)"

definition byte_char :: "byte \<Rightarrow> char" where
  "byte_char b = char_of (unat b)"

lemma byte_char_byte [simp]: "byte_char (char_byte c) = c"
proof -
  have "of_char c < (256 :: nat)" by simp
  then show ?thesis by (simp add: byte_char_def char_byte_def unat_of_nat)
qed

lemma char_byte_char [simp]: "char_byte (byte_char b) = b"
proof -
  have "unat b < 256" by (rule unat_byte_less)
  then show ?thesis by (simp add: byte_char_def char_byte_def)
qed

lemma map_byte_char_byte [simp]: "map (byte_char \<circ> char_byte) s = s"
  by (induction s) auto

section \<open>Errors\<close>

text \<open>
  What an operation can end in instead of a value: an exception of the code
  (\<^verbatim>\<open>THROW_EXCEPTION\<close>, one constructor per message), an exception of a library
  (\<^verbatim>\<open>std::regex_error\<close>, \<^verbatim>\<open>std::out_of_range\<close>, a failure to resolve a host name), or an action C++ gives no meaning to.
\<close>

datatype exn =
    UserNotExists Id
  | ClientNotExists Id
  | QueueIdNotFound int
  | QueueNameNotFound string
  | HandlerReuse
  | UnknownClient Id
  | UnknownQuery u64
  | UnknownKind u16
  | AcceptError
  | RegexError
  | WrongMarkerSize
  | HostNotFound
  | ResolveError
  | OutOfRange

datatype undefined_action =
    BufferOverrun
  | UninitialisedRead
  | SignedOverflow
  | InvalidIterator
  | NullDereference
  | BadCharacter
  | StackOverflow

datatype error = Throw exn | Undef undefined_action

text \<open>Values or errors: the next action sees the value, an error ends the sequence.\<close>

definition bind_res :: "'e + 'a \<Rightarrow> ('a \<Rightarrow> 'e + 'b) \<Rightarrow> 'e + 'b" where
  "bind_res r f = (case r of Inl e \<Rightarrow> Inl e | Inr a \<Rightarrow> f a)"

lemma bind_res_simps [simp]:
  "bind_res (Inl e) f = Inl e"
  "bind_res (Inr a) f = f a"
  by (simp_all add: bind_res_def)

lemma bind_res_eq_Inr [simp]: "bind_res r f = Inr b \<longleftrightarrow> (\<exists>a. r = Inr a \<and> f a = Inr b)"
  by (cases r) auto

section \<open>Computations that change a state and may throw\<close>

text \<open>
  A member function is a \<open>proc\<close>: it maps the state before to its result, an error or a value,
  and the state after; what it changed before throwing stays changed.
\<close>

type_synonym ('s, 'a) proc = "'s \<Rightarrow> (error + 'a) \<times> 's"

definition ret :: "'a \<Rightarrow> ('s, 'a) proc" where
  "ret a s = (Inr a, s)"

definition throw :: "error \<Rightarrow> ('s, 'a) proc" where
  "throw e s = (Inl e, s)"

definition bind :: "('s, 'a) proc \<Rightarrow> ('a \<Rightarrow> ('s, 'b) proc) \<Rightarrow> ('s, 'b) proc" where
  "bind m f s = (case m s of (Inl e, s') \<Rightarrow> (Inl e, s') | (Inr a, s') \<Rightarrow> f a s')"

definition modify :: "('s \<Rightarrow> 's) \<Rightarrow> ('s, unit) proc" where
  "modify f s = (Inr (), f s)"

text \<open>A value computed without a state, as a computation.\<close>

definition lift :: "error + 'a \<Rightarrow> ('s, 'a) proc" where
  "lift r s = (r, s)"

text \<open>The range-based \<open>for\<close>: the body once per element, in order, until one throws.\<close>

primrec for_each :: "'x list \<Rightarrow> ('x \<Rightarrow> ('s, unit) proc) \<Rightarrow> ('s, unit) proc" where
  "for_each [] body = ret ()"
| "for_each (x # xs) body = bind (body x) (\<lambda>_. for_each xs body)"

lemmas proc_defs = ret_def throw_def modify_def lift_def bind_def

lemma bind_run [run]:
  "m s = (Inl e, s') \<Longrightarrow> bind m f s = (Inl e, s')"
  "m s = (Inr a, s') \<Longrightarrow> bind m f s = f a s'"
  by (simp_all add: bind_def)

lemma bind_ret_simps [simp]:
  "bind (ret a) f = f a"
  "bind (throw e) f = throw e"
  "bind m ret = m"
  by (auto simp: proc_defs fun_eq_iff split: prod.splits sum.splits)

lemma snd_bind_ret [simp]: "snd (bind m (\<lambda>a. ret (g a)) s) = snd (m s)"
  by (auto simp: bind_def ret_def split: prod.split sum.split)

lemma bind_lift [simp]: "bind (lift (Inr a)) f = f a" "bind (lift (Inl e)) f = throw e"
  by (simp_all add: proc_defs fun_eq_iff)

lemma bind_lift_lift:
  "bind (lift r) (\<lambda>a. bind (lift (h a)) f) = bind (lift (case r of Inl e \<Rightarrow> Inl e | Inr a \<Rightarrow> h a)) f"
  by (cases r) simp_all

lemma bind_assoc: "bind (bind m f) g = bind m (\<lambda>a. bind (f a) g)"
  by (auto simp: bind_def fun_eq_iff split: prod.splits sum.splits)

lemma for_each_append:
  "for_each (xs @ ys) body = bind (for_each xs body) (\<lambda>_. for_each ys body)"
  by (induction xs) (simp_all add: bind_assoc)

text \<open>
  \<open>preserves P m\<close>: whatever \<open>m\<close> ends in, \<open>P\<close> still holds if it held before. Invariants and
  frame conditions (\<open>P s \<longleftrightarrow> f s = v\<close>) are both of this form, and the rules below carry them
  through the control structures.
\<close>

definition preserves :: "('s \<Rightarrow> bool) \<Rightarrow> ('s, 'a) proc \<Rightarrow> bool" where
  "preserves P m \<longleftrightarrow> (\<forall>s. P s \<longrightarrow> P (snd (m s)))"

lemma preservesI [intro?]: "(\<And>s. P s \<Longrightarrow> P (snd (m s))) \<Longrightarrow> preserves P m"
  by (simp add: preserves_def)

lemma preservesD: "preserves P m \<Longrightarrow> P s \<Longrightarrow> P (snd (m s))"
  by (simp add: preserves_def)

lemma preserves_run: "preserves P m \<Longrightarrow> P s \<Longrightarrow> m s = (r, s') \<Longrightarrow> P s'"
  by (metis preserves_def snd_conv)

lemma preserves_ret [keeps, intro, simp]: "preserves P (ret a)"
  by (simp add: preserves_def ret_def)

lemma preserves_throw [keeps, intro, simp]: "preserves P (throw e)"
  by (simp add: preserves_def throw_def)

lemma preserves_lift [keeps, intro, simp]: "preserves P (lift r)"
  by (simp add: preserves_def lift_def)

lemma preserves_bind [keeps, intro]:
  "preserves P m \<Longrightarrow> (\<And>a. preserves P (f a)) \<Longrightarrow> preserves P (bind m f)"
  by (fastforce simp: preserves_def bind_def split: prod.splits sum.splits)

lemma preserves_for_each [keeps, intro]:
  "(\<And>x. x \<in> set xs \<Longrightarrow> preserves P (body x)) \<Longrightarrow> preserves P (for_each xs body)"
  by (induction xs) auto

section \<open>Selecting with a test that may throw\<close>

text \<open>
  The elements a test accepts, in order, up to the first element whose test throws. Both delivery
  loops of the code (to subscribers and to event consumers) select their targets like this.
\<close>

primrec select :: "('x \<Rightarrow> error + bool) \<Rightarrow> 'x list \<Rightarrow> (error + unit) \<times> 'x list" where
  "select test [] = (Inr (), [])"
| "select test (x # xs) =
     (case test x of
        Inl e \<Rightarrow> (Inl e, [])
      | Inr b \<Rightarrow> (fst (select test xs), if b then x # snd (select test xs) else snd (select test xs)))"

lemma select_total:
  "(\<And>x. x \<in> set xs \<Longrightarrow> test x = Inr (P x)) \<Longrightarrow> select test xs = (Inr (), filter P xs)"
  by (induction xs) auto

lemma select_subset: "set (snd (select test xs)) \<subseteq> {x \<in> set xs. test x = Inr True}"
  by (induction xs) (auto split: sum.splits)

lemma select_ok_iff: "fst (select test xs) = Inr () \<longleftrightarrow> (\<forall>x \<in> set xs. \<exists>b. test x = Inr b)"
  by (induction xs) (auto split: sum.splits)

lemma for_each_select:
  assumes body: "\<And>x s. x \<in> set xs \<Longrightarrow> I s \<Longrightarrow>
      fst (body x s) = (case test x of Inl e \<Rightarrow> Inl e | Inr _ \<Rightarrow> Inr ()) \<and> I (snd (body x s)) \<and>
      obs (snd (body x s)) = obs s @ (if test x = Inr True then [f x] else [])"
    and "I s"
  shows "fst (for_each xs body s) = fst (select test xs) \<and> I (snd (for_each xs body s)) \<and>
         obs (snd (for_each xs body s)) = obs s @ map f (snd (select test xs))"
  using assms
proof (induction xs arbitrary: s)
  case Nil
  then show ?case by (simp add: ret_def)
next
  case (Cons x xs)
  obtain r s' where b: "body x s = (r, s')" by fastforce
  note step = Cons.prems(1) [of x s, simplified, OF Cons.prems(2), unfolded b, simplified]
  show ?case
  proof (cases "test x")
    case (Inl e)
    with step b show ?thesis by (simp add: bind_def)
  next
    case (Inr t)
    with step have r: "r = Inr ()" and "I s'" by auto
    with Cons have "fst (for_each xs body s') = fst (select test xs) \<and> I (snd (for_each xs body s')) \<and>
        obs (snd (for_each xs body s')) = obs s' @ map f (snd (select test xs))"
      by auto
    with Inr step b r show ?thesis by (simp add: bind_def)
  qed
qed

section \<open>Sequences of operations and simulation\<close>

text \<open>Operations one after the other, as callers of different threads interleave them: an operation
  that throws does not stop the next. The results are collected.\<close>

primrec run_seq :: "('c \<Rightarrow> ('s, 'a) proc) \<Rightarrow> 'c list \<Rightarrow> 's \<Rightarrow> (error + 'a) list \<times> 's" where
  "run_seq exec [] s = ([], s)"
| "run_seq exec (c # cs) s =
     (let (r, s') = exec c s; (rs, s'') = run_seq exec cs s' in (r # rs, s''))"

lemma run_seq_Cons [simp]:
  "fst (run_seq exec (c # cs) s) = fst (exec c s) # fst (run_seq exec cs (snd (exec c s)))"
  "snd (run_seq exec (c # cs) s) = snd (run_seq exec cs (snd (exec c s)))"
  by (simp_all add: Let_def case_prod_unfold)

declare run_seq.simps(2) [simp del]

lemma snd_run_seq_append: "snd (run_seq exec (cs @ ds) s) = snd (run_seq exec ds (snd (run_seq exec cs s)))"
  by (induction cs arbitrary: s) simp_all

lemma run_seq_invariant:
  "(\<And>c s. c \<in> set cs \<Longrightarrow> I s \<Longrightarrow> I (snd (exec c s))) \<Longrightarrow> I s \<Longrightarrow> I (snd (run_seq exec cs s))"
  by (induction cs arbitrary: s) auto

text \<open>A detailed component implements a specification: from states that satisfy the invariant, each
  operation gives the specified result and leads to a state that stands for the specified one.\<close>

locale simulation =
  fixes detailed :: "'c \<Rightarrow> ('s, 'a) proc"
    and specified :: "'c \<Rightarrow> ('t, 'a) proc"
    and stands_for :: "'s \<Rightarrow> 't"
    and valid :: "'s \<Rightarrow> bool"
  assumes same_result: "valid s \<Longrightarrow> fst (detailed c s) = fst (specified c (stands_for s))"
    and same_state: "valid s \<Longrightarrow> stands_for (snd (detailed c s)) = snd (specified c (stands_for s))"
    and keeps_valid: "valid s \<Longrightarrow> valid (snd (detailed c s))"
begin

lemma valid_seq: "valid s \<Longrightarrow> valid (snd (run_seq detailed cs s))"
  by (rule run_seq_invariant) (rule keeps_valid)

lemma refines_seq:
  "valid s \<Longrightarrow>
   fst (run_seq detailed cs s) = fst (run_seq specified cs (stands_for s)) \<and>
   stands_for (snd (run_seq detailed cs s)) = snd (run_seq specified cs (stands_for s))"
proof (induction cs arbitrary: s)
  case (Cons c cs)
  then show ?case
    using Cons.IH [OF keeps_valid [OF Cons.prems]] same_result same_state by simp
qed simp

text \<open>So what every run of the specification keeps true, every run of the code keeps true.\<close>

lemma invariant_transfer:
  assumes "\<And>c t. P t \<Longrightarrow> P (snd (specified c t))" and "valid s" and "P (stands_for s)"
  shows "P (stands_for (snd (run_seq detailed cs s)))"
  using refines_seq [OF assms(2)] run_seq_invariant [of cs P specified "stands_for s"] assms(1,3)
  by simp

end

lemma select_stops:
  "(\<And>y. y \<in> set ys \<Longrightarrow> test y = Inr (P y)) \<Longrightarrow> test x = Inl e \<Longrightarrow>
   select test (ys @ x # zs) = (Inl e, filter P ys)"
  by (induction ys) auto

lemma find_None_ball: "find P xs = None \<longleftrightarrow> (\<forall>x \<in> set xs. \<not> P x)"
  by (induction xs) auto

lemma find_append: "find P (xs @ ys) = (case find P xs of None \<Rightarrow> find P ys | Some x \<Rightarrow> Some x)"
  by (induction xs) auto

lemma find_Some_in: "find P xs = Some x \<Longrightarrow> x \<in> set xs \<and> P x"
  by (induction xs) (auto split: if_splits)

lemma map_of_nonempty:
  assumes "m \<noteq> []"
  obtains k v where "map_of m k = Some v"
proof -
  obtain k v m' where "m = (k, v) # m'" using assms by (cases m) auto
  then show thesis using that [of k v] by simp
qed

section \<open>Operations that add to a log\<close>

text \<open>An operation that only appends to a log in the state, and only entries of some kind, whatever it
  returns.\<close>

definition emits :: "('s \<Rightarrow> 'e list) \<Rightarrow> ('e \<Rightarrow> bool) \<Rightarrow> ('s, 'a) proc \<Rightarrow> bool" where
  "emits log ok m \<longleftrightarrow> (\<forall>s. \<exists>entries. log (snd (m s)) = log s @ entries \<and> list_all ok entries)"

lemma emitsD: "emits log ok m \<Longrightarrow> \<exists>entries. log (snd (m s)) = log s @ entries \<and> list_all ok entries"
  by (simp add: emits_def)

lemma emits_silent: "(\<And>s. log (snd (m s)) = log s) \<Longrightarrow> emits log ok m"
  by (simp add: emits_def)

lemma emits_one: "(\<And>s. log (snd (m s)) = log s \<or> (\<exists>e. ok e \<and> log (snd (m s)) = log s @ [e])) \<Longrightarrow> emits log ok m"
proof -
  assume one: "\<And>s. log (snd (m s)) = log s \<or> (\<exists>e. ok e \<and> log (snd (m s)) = log s @ [e])"
  show ?thesis unfolding emits_def
  proof
    fix s
    from one [of s] show "\<exists>entries. log (snd (m s)) = log s @ entries \<and> list_all ok entries"
    proof
      assume "\<exists>e. ok e \<and> log (snd (m s)) = log s @ [e]"
      then obtain e where "ok e" "log (snd (m s)) = log s @ [e]" by blast
      then show ?thesis by (intro exI [of _ "[e]"]) simp
    qed simp
  qed
qed

lemma emits_simple [simp]: "emits log ok (ret a)" "emits log ok (throw e)" "emits log ok (lift r)"
  by (simp_all add: emits_def ret_def throw_def lift_def)

lemma emits_mono: "emits log ok m \<Longrightarrow> (\<And>e. ok e \<Longrightarrow> ok' e) \<Longrightarrow> emits log ok' m"
  unfolding emits_def by (meson list.pred_mono_strong)

lemma emits_bind:
  assumes "emits log ok m" and "\<And>a. emits log ok (f a)"
  shows "emits log ok (bind m f)"
  unfolding emits_def
proof
  fix s
  obtain r s' where m: "m s = (r, s')" by fastforce
  obtain es where es: "log s' = log s @ es" "list_all ok es" using emitsD [OF assms(1), of s] m by auto
  show "\<exists>entries. log (snd (bind m f s)) = log s @ entries \<and> list_all ok entries"
  proof (cases r)
    case (Inl e)
    with m es show ?thesis by (auto simp: bind_def)
  next
    case (Inr a)
    obtain es' where "log (snd (f a s')) = log s' @ es'" "list_all ok es'" using emitsD [OF assms(2)] by blast
    with m es Inr show ?thesis by (intro exI [of _ "es @ es'"]) (simp add: bind_def)
  qed
qed

lemma emits_for_each: "(\<And>x. x \<in> set xs \<Longrightarrow> emits log ok (body x)) \<Longrightarrow> emits log ok (for_each xs body)"
  by (induction xs) (auto intro!: emits_bind)

lemma emits_with: "(\<And>t. emits log ok (f t)) \<Longrightarrow> emits log ok (\<lambda>s. f s s)"
  by (simp add: emits_def)

end
