(* ===== verification/Containers.thy ===== *)
theory Containers
  imports Prelude
begin

text \<open>
  The associative containers. \<open>table\<close> is what the components rely on; \<open>std::map\<close> and
  \<open>std::unordered_map\<close> are its two models. The facts that the components use (sizes, keys,
  entries after an insertion or an erasure) are proved once, from the laws.
\<close>

section \<open>The interface\<close>

locale table =
  fixes lookup :: "'m \<Rightarrow> 'k \<Rightarrow> 'v option"
    and put :: "'k \<Rightarrow> 'v \<Rightarrow> 'm \<Rightarrow> 'm"
    and erase :: "'k \<Rightarrow> 'm \<Rightarrow> 'm"
    and entries :: "'m \<Rightarrow> ('k \<times> 'v) list"
    and ok :: "'m \<Rightarrow> bool"
    and empty :: 'm
  assumes ok_empty: "ok empty"
    and ok_put: "ok m \<Longrightarrow> ok (put k v m)"
    and ok_erase: "ok m \<Longrightarrow> ok (erase k m)"
    and lookup_empty: "lookup empty k = None"
    and lookup_put: "lookup (put k v m) k' = (if k' = k then Some v else lookup m k')"
    and lookup_erase: "lookup (erase k m) k' = (if k' = k then None else lookup m k')"
    and lookup_entries: "lookup m k = map_of (entries m) k"
    and distinct_entries: "ok m \<Longrightarrow> distinct (map fst (entries m))"
begin

lemma in_entries: "ok m \<Longrightarrow> (k, v) \<in> set (entries m) \<longleftrightarrow> lookup m k = Some v"
  by (simp add: lookup_entries distinct_entries map_of_eq_Some_iff)

lemma key_in_entries: "k \<in> fst ` set (entries m) \<longleftrightarrow> lookup m k \<noteq> None"
  by (simp add: lookup_entries map_of_eq_None_iff)

lemma keys_put: "fst ` set (entries (put k v m)) = insert k (fst ` set (entries m))"
  using key_in_entries by (auto simp: set_eq_iff lookup_put simp del: fst_conv)

lemma keys_erase: "fst ` set (entries (erase k m)) = fst ` set (entries m) - {k}"
  using key_in_entries by (auto simp: set_eq_iff lookup_erase simp del: fst_conv)

lemma size_keys: "ok m \<Longrightarrow> length (entries m) = card (fst ` set (entries m))"
  using distinct_card [OF distinct_entries] by fastforce

lemma size_put:
  "ok m \<Longrightarrow> length (entries (put k v m)) =
     (if lookup m k = None then Suc (length (entries m)) else length (entries m))"
  using key_in_entries [of k m]
  by (simp add: size_keys ok_put keys_put card_insert_if insert_absorb)

lemma size_erase:
  "ok m \<Longrightarrow> length (entries (erase k m)) =
     (if lookup m k = None then length (entries m) else length (entries m) - 1)"
  using key_in_entries [of k m]
  by (simp add: size_keys ok_erase keys_erase card_Diff_singleton_if)

lemma erase_put_lookup: "lookup m k = None \<Longrightarrow> lookup (erase k (put k v m)) = lookup m"
  by (auto simp: fun_eq_iff lookup_put lookup_erase)

end

section \<open>\<open>std::map\<close>: sorted by key\<close>

type_synonym ('k, 'v) omap = "('k \<times> 'v) list"

definition omap_ok :: "('k::linorder, 'v) omap \<Rightarrow> bool" where
  "omap_ok m \<longleftrightarrow> sorted_wrt (<) (map fst m)"

primrec omap_put :: "'k::linorder \<Rightarrow> 'v \<Rightarrow> ('k, 'v) omap \<Rightarrow> ('k, 'v) omap" where
  "omap_put k v [] = [(k, v)]"
| "omap_put k v (e # m) =
     (if k = fst e then (k, v) # m
      else if k < fst e then (k, v) # e # m
      else e # omap_put k v m)"

abbreviation omap_erase :: "'k \<Rightarrow> ('k, 'v) omap \<Rightarrow> ('k, 'v) omap" where
  "omap_erase \<equiv> AList.delete"

lemma map_of_omap_put [simp]:
  "map_of (omap_put k v m) k' = (if k' = k then Some v else map_of m k')"
  by (induction m) auto

lemma keys_omap_put: "fst ` set (omap_put k v m) = insert k (fst ` set m)"
  by (induction m) auto

lemma omap_ok_Nil [simp]: "omap_ok []"
  by (simp add: omap_ok_def)

lemma omap_ok_put [intro, simp]: "omap_ok m \<Longrightarrow> omap_ok (omap_put k v m)"
proof (induction m)
  case (Cons e m)
  then have "fst e < k \<Longrightarrow> x \<in> fst ` set (omap_put k v m) \<Longrightarrow> fst e < x" for x
    by (auto simp: omap_ok_def keys_omap_put)
  with Cons show ?case by (auto simp: omap_ok_def)
qed (simp add: omap_ok_def)

lemma omap_ok_filter: "omap_ok m \<Longrightarrow> omap_ok (filter P m)"
  by (induction m) (auto simp: omap_ok_def)

lemma omap_ok_erase [intro, simp]: "omap_ok m \<Longrightarrow> omap_ok (omap_erase k m)"
  by (simp add: AList.delete_eq omap_ok_filter)

lemma omap_ok_distinct: "omap_ok m \<Longrightarrow> distinct (map fst m)"
  by (simp add: omap_ok_def strict_sorted_iff)

interpretation std_map: table map_of omap_put omap_erase "\<lambda>m. m" omap_ok "[]"
  by unfold_locales (auto simp: omap_ok_distinct delete_conv')

section \<open>\<open>std::unordered_map\<close>: distinct keys, no order\<close>

type_synonym ('k, 'v) umap = "('k \<times> 'v) list"

abbreviation umap_ok :: "('k, 'v) umap \<Rightarrow> bool" where
  "umap_ok m \<equiv> distinct (map fst m)"

abbreviation umap_put :: "'k \<Rightarrow> 'v \<Rightarrow> ('k, 'v) umap \<Rightarrow> ('k, 'v) umap" where
  "umap_put \<equiv> AList.update"

abbreviation umap_erase :: "'k \<Rightarrow> ('k, 'v) umap \<Rightarrow> ('k, 'v) umap" where
  "umap_erase \<equiv> AList.delete"

interpretation std_umap: table map_of umap_put umap_erase "\<lambda>m. m" umap_ok "[]"
  by unfold_locales (auto simp: update_conv' delete_conv' distinct_update distinct_delete)

text \<open>
  \<open>insert\<close> and \<open>emplace\<close> leave an existing entry as it is; \<open>operator[]\<close> inserts the default
  value of the mapped type under a missing key.
\<close>

definition umap_insert :: "'k \<Rightarrow> 'v \<Rightarrow> ('k, 'v) umap \<Rightarrow> ('k, 'v) umap" where
  "umap_insert k v m = (case map_of m k of None \<Rightarrow> umap_put k v m | Some _ \<Rightarrow> m)"

definition umap_index :: "'v \<Rightarrow> 'k \<Rightarrow> ('k, 'v) umap \<Rightarrow> ('k, 'v) umap" where
  "umap_index d k m = umap_insert k d m"

definition omap_insert :: "'k::linorder \<Rightarrow> 'v \<Rightarrow> ('k, 'v) omap \<Rightarrow> ('k, 'v) omap" where
  "omap_insert k v m = (case map_of m k of None \<Rightarrow> omap_put k v m | Some _ \<Rightarrow> m)"

definition omap_index :: "'v \<Rightarrow> 'k::linorder \<Rightarrow> ('k, 'v) omap \<Rightarrow> ('k, 'v) omap" where
  "omap_index d k m = omap_insert k d m"

definition get_or :: "'v \<Rightarrow> ('k \<times> 'v) list \<Rightarrow> 'k \<Rightarrow> 'v" where
  "get_or d m k = (case map_of m k of None \<Rightarrow> d | Some v \<Rightarrow> v)"

lemma map_of_insert [simp]:
  "map_of (umap_insert k v m) k' =
     (if k' = k \<and> map_of m k = None then Some v else map_of m k')"
  "map_of (omap_insert k' v m') k'' =
     (if k'' = k' \<and> map_of m' k' = None then Some v else map_of m' k'')"
  by (auto simp: umap_insert_def omap_insert_def update_conv' split: option.splits)

lemma insert_ok [intro, simp]:
  "umap_ok m \<Longrightarrow> umap_ok (umap_insert k v m)"
  "omap_ok m' \<Longrightarrow> omap_ok (omap_insert k' v m')"
  by (auto simp: umap_insert_def omap_insert_def distinct_update split: option.splits)

lemma index_present [simp]:
  "map_of m k = Some v \<Longrightarrow> umap_index d k m = m"
  "map_of m' k' = Some v \<Longrightarrow> omap_index d k' m' = m'"
  by (simp_all add: umap_index_def umap_insert_def omap_index_def omap_insert_def)

text \<open>A loop that changes the mapped values in place keeps the keys and their order.\<close>

definition map_vals :: "('v \<Rightarrow> 'w) \<Rightarrow> ('k \<times> 'v) list \<Rightarrow> ('k \<times> 'w) list" where
  "map_vals f m = map (\<lambda>(k, v). (k, f v)) m"

lemma fst_map_vals [simp]: "map fst (map_vals f m) = map fst m"
  by (simp add: map_vals_def case_prod_unfold comp_def)

lemma map_of_map_vals [simp]: "map_of (map_vals f m) k = map_option f (map_of m k)"
  by (induction m) (auto simp: map_vals_def)

lemma omap_ok_map_vals [simp]: "omap_ok (map_vals f m) \<longleftrightarrow> omap_ok m"
  by (simp add: omap_ok_def)

end
