(* ===== verification/Node_Settings.thy ===== *)
theory Node_Settings
  imports Containers
begin

text \<open>
  The parameter objects of \<^verbatim>\<open>libdqueue/node_settings.h\<close> and \<^verbatim>\<open>libdqueue/q.h\<close>, and the cache of
  compiled tag expressions, \<^verbatim>\<open>libdqueue/re_cache.h\<close>.

  A subscription tag is a regular expression for \<open>std::regex\<close>. The engine behind it is an
  argument of the model: \<open>re_compile\<close> is the constructor of \<open>std::regex\<close> and \<open>re_match\<close> is
  \<open>std::regex_match\<close>; both are deterministic and both may throw \<open>std::regex_error\<close>, which is
  \<open>None\<close>. Nothing else is assumed of it. The cache is a singleton of the process, so it is the
  first component of every process state.
\<close>

record 're engine =
  re_compile :: "string \<Rightarrow> 're option"
  re_match :: "'re \<Rightarrow> string \<Rightarrow> bool option"

record 're process =
  recache :: "(string, 're) umap"

datatype SubscribeActions = Create | Subscribe | Unsubscribe

record SubscriptionParams =
  sub_queueName :: string
  sub_tag :: string

record PublishParams =
  pub_queueName :: string
  pub_tag :: string

record QueueSettings =
  qs_name :: string

record Queue =
  queueId :: int
  q_settings :: QueueSettings

definition mk_sub :: "string \<Rightarrow> string \<Rightarrow> SubscriptionParams" where
  "mk_sub q t = \<lparr>sub_queueName = q, sub_tag = t\<rparr>"

definition mk_pub :: "string \<Rightarrow> string \<Rightarrow> PublishParams" where
  "mk_pub q t = \<lparr>pub_queueName = q, pub_tag = t\<rparr>"

lemma mk_params_sel [simp]:
  "sub_queueName (mk_sub q t) = q" "sub_tag (mk_sub q t) = t"
  "pub_queueName (mk_pub q t) = q" "pub_tag (mk_pub q t) = t"
  by (simp_all add: mk_sub_def mk_pub_def)

section \<open>The cache and the tag check\<close>

definition ReCache_compile :: "'re engine \<Rightarrow> string \<Rightarrow> (('re, 'a) process_scheme, 're) proc" where
  "ReCache_compile eng re s =
     (case map_of (recache s) re of
        None \<Rightarrow>
          (case re_compile eng re of
             None \<Rightarrow> (Inl (Throw RegexError), s)
           | Some cre \<Rightarrow> (Inr cre, s\<lparr>recache := umap_insert re cre (recache s)\<rparr>))
      | Some cre \<Rightarrow> (Inr cre, s))"

definition checkTag ::
  "'re engine \<Rightarrow> SubscriptionParams \<Rightarrow> string \<Rightarrow> (('re, 'a) process_scheme, bool) proc" where
  "checkTag eng p tg =
     (if sub_tag p = [] then ret True
      else bind (ReCache_compile eng (sub_tag p)) (\<lambda>tag_regex.
           case re_match eng tag_regex tg of
             None \<Rightarrow> throw (Throw RegexError)
           | Some b \<Rightarrow> ret b))"

text \<open>What a tag check means, without the cache.\<close>

definition tag_matches :: "'re engine \<Rightarrow> SubscriptionParams \<Rightarrow> string \<Rightarrow> error + bool" where
  "tag_matches eng p tg =
     (if sub_tag p = [] then Inr True
      else case Option.bind (re_compile eng (sub_tag p)) (\<lambda>r. re_match eng r tg) of
             None \<Rightarrow> Inl (Throw RegexError)
           | Some b \<Rightarrow> Inr b)"

text \<open>Every cached expression is what compiling its text gives.\<close>

definition cache_ok :: "'re engine \<Rightarrow> ('re, 'a) process_scheme \<Rightarrow> bool" where
  "cache_ok eng s \<longleftrightarrow>
     umap_ok (recache s) \<and>
     (\<forall>re cre. map_of (recache s) re = Some cre \<longrightarrow> re_compile eng re = Some cre)"

lemma cache_ok_empty: "recache s = [] \<Longrightarrow> cache_ok eng s"
  by (simp add: cache_ok_def)

lemma cache_ok_frame: "recache s' = recache s \<Longrightarrow> cache_ok eng s' = cache_ok eng s"
  by (simp add: cache_ok_def)

lemma cache_ok_insert:
  "cache_ok eng s \<Longrightarrow> re_compile eng re = Some cre \<Longrightarrow>
   cache_ok eng (s\<lparr>recache := umap_insert re cre (recache s)\<rparr>)"
  by (auto simp: cache_ok_def)

lemma ReCache_compile_fst:
  assumes "cache_ok eng s"
  shows "fst (ReCache_compile eng re s) =
           (case re_compile eng re of None \<Rightarrow> Inl (Throw RegexError) | Some r \<Rightarrow> Inr r)"
  using assms by (auto simp: ReCache_compile_def cache_ok_def split: option.split)

lemma cache_ok_compile: "cache_ok eng s \<Longrightarrow> cache_ok eng (snd (ReCache_compile eng re s))"
  by (auto simp: ReCache_compile_def cache_ok_insert split: option.split)

lemma checkTag_state:
  "snd (checkTag eng p t s) =
     (if sub_tag p = [] then s else snd (ReCache_compile eng (sub_tag p) s))"
  by (auto simp: checkTag_def proc_defs split: prod.splits sum.splits option.splits)

lemma cache_ok_checkTag [keeps]: "preserves (cache_ok eng) (checkTag eng p t)"
  by (simp add: preserves_def checkTag_state cache_ok_compile)

lemma checkTag_fst:
  assumes "cache_ok eng s"
  shows "fst (checkTag eng p t s) = tag_matches eng p t"
  using ReCache_compile_fst [OF assms, of "sub_tag p"]
  by (auto simp: checkTag_def tag_matches_def proc_defs split: prod.splits sum.splits option.splits)

lemma checkTag_frame:
  "\<exists>c. snd (checkTag eng p t s) = s\<lparr>recache := c\<rparr>"
  by (auto simp: checkTag_state ReCache_compile_def split: option.splits
        intro: exI [of _ "recache s"])

lemma checkTag_run:
  assumes "cache_ok eng s"
  obtains c where "checkTag eng p t s = (tag_matches eng p t, s\<lparr>recache := c\<rparr>)"
    and "cache_ok eng (s\<lparr>recache := c\<rparr>)"
  using checkTag_fst [OF assms] checkTag_frame preservesD [OF cache_ok_checkTag assms]
  by (metis prod.collapse)

text \<open>Any number of tag checks, one after the other.\<close>

definition tag_history ::
  "'re engine \<Rightarrow> (SubscriptionParams \<times> string) list \<Rightarrow> ('re, 'a) process_scheme \<Rightarrow>
   ('re, 'a) process_scheme" where
  "tag_history eng ps s = fold (\<lambda>(p, t) s. snd (checkTag eng p t s)) ps s"

lemma cache_ok_history: "cache_ok eng s \<Longrightarrow> cache_ok eng (tag_history eng ps s)"
  unfolding tag_history_def
  by (induction ps arbitrary: s) (auto intro: preservesD [OF cache_ok_checkTag])

text \<open>
  An engine to evaluate examples with: an expression without special characters matches exactly
  its own text, and an expression with one is rejected.
\<close>

definition literal_engine :: "string engine" where
  "literal_engine =
     \<lparr>re_compile = (\<lambda>re. if list_all (\<lambda>c. c \<notin> set ''^$.*+?()[]{}|'') re then Some re else None),
      re_match = (\<lambda>re t. Some (re = t))\<rparr>"

text \<open>C32: the expression cache is transparent: starting from an empty cache and after any sequence
  of earlier tag checks, whether they matched, failed or threw, a tag check returns what
  compiling the subscription's expression afresh and matching the tag would return.\<close>

theorem checkTag_transparent:
  assumes "recache s = []"
  shows "fst (checkTag eng p t (tag_history eng ps s)) = tag_matches eng p t"
  using assms by (simp add: checkTag_fst cache_ok_empty cache_ok_history)

theorem checkTag_transparent_witness:
  "fst (checkTag literal_engine (mk_sub ''q'' ''a'') ''a''
     (tag_history literal_engine [(mk_sub ''q'' ''a'', ''b''), (mk_sub ''q'' ''(('', ''b'')]
        \<lparr>recache = []\<rparr>)) = Inr True"
  by (subst checkTag_transparent) (simp_all add: tag_matches_def literal_engine_def)

end
