(* ===== verification/Users.thy ===== *)
theory Users
  imports Containers
begin

text \<open>
  \<^verbatim>\<open>libdqueue/users.h\<close>: the table of connected users, shared by the server and the node through a
  \<open>shared_ptr\<close>. The locale \<open>registry\<close> states what the node relies on (membership after each
  operation); the table is its interpretation.
\<close>

record User =
  user_login :: string
  user_id :: Id

text \<open>\<open>static const int ServerID = std::numeric_limits<int>::max()\<close>, converted to \<open>Id\<close> at each use.\<close>

definition ServerID :: Id where
  "ServerID = 2147483647"

type_synonym UserBase = "(Id, User) umap"

definition ub_create :: UserBase where
  "ub_create = []"

definition ub_append :: "User \<Rightarrow> UserBase \<Rightarrow> UserBase" where
  "ub_append user ub = umap_put (user_id user) user ub"

text \<open>\<open>_users[id].login = login\<close>: an unknown key gets a value-initialised user first.\<close>

definition ub_setLogin :: "Id \<Rightarrow> string \<Rightarrow> UserBase \<Rightarrow> UserBase" where
  "ub_setLogin i login ub =
     umap_put i ((get_or \<lparr>user_login = [], user_id = 0\<rparr> ub i)\<lparr>user_login := login\<rparr>) ub"

definition ub_erase :: "Id \<Rightarrow> UserBase \<Rightarrow> error + UserBase" where
  "ub_erase i ub =
     (case map_of ub i of
        Some u \<Rightarrow> Inr (umap_erase i ub)
      | None \<Rightarrow> Inl (Throw (UserNotExists i)))"

definition ub_exists :: "UserBase \<Rightarrow> Id \<Rightarrow> bool" where
  "ub_exists ub i \<longleftrightarrow> map_of ub i \<noteq> None"

definition ub_byId :: "UserBase \<Rightarrow> Id \<Rightarrow> User option" where
  "ub_byId ub i = map_of ub i"

text \<open>\<open>users()\<close> iterates over an \<open>unordered_map\<close>: \<open>it\<close> is the order of the iteration.\<close>

definition ub_users :: "((Id \<times> User) list \<Rightarrow> (Id \<times> User) list) \<Rightarrow> UserBase \<Rightarrow> User list" where
  "ub_users it ub = map snd (it ub)"

section \<open>The contract\<close>

locale registry =
  fixes member :: "'b \<Rightarrow> Id \<Rightarrow> bool"
    and add :: "User \<Rightarrow> 'b \<Rightarrow> 'b"
    and remove :: "Id \<Rightarrow> 'b \<Rightarrow> error + 'b"
    and fresh :: 'b
    and valid :: "'b \<Rightarrow> bool"
  assumes member_fresh: "\<not> member fresh i"
    and member_add: "member (add u b) i \<longleftrightarrow> i = user_id u \<or> member b i"
    and remove_member: "member b i \<Longrightarrow> \<exists>b'. remove i b = Inr b' \<and> (\<forall>j. member b' j \<longleftrightarrow> j \<noteq> i \<and> member b j)"
    and remove_missing: "\<not> member b i \<Longrightarrow> remove i b = Inl (Throw (UserNotExists i))"
    and valid_fresh: "valid fresh"
    and valid_add: "valid b \<Longrightarrow> valid (add u b)"
    and valid_remove: "valid b \<Longrightarrow> remove i b = Inr b' \<Longrightarrow> valid b'"
begin

lemma remove_iff: "remove i b = Inr b' \<Longrightarrow> member b i \<and> (\<forall>j. member b' j \<longleftrightarrow> j \<noteq> i \<and> member b j)"
  using remove_member [of b i] remove_missing [of b i] by fastforce

lemma remove_twice: "remove i b = Inr b' \<Longrightarrow> remove i b' = Inl (Throw (UserNotExists i))"
  using remove_iff remove_missing by blast

lemma members_added: "member (fold add us b) i \<longleftrightarrow> i \<in> user_id ` set us \<or> member b i"
  by (induction us arbitrary: b) (auto simp: member_add)

end

text \<open>Every user is stored under its own identifier.\<close>

definition ub_ok :: "UserBase \<Rightarrow> bool" where
  "ub_ok ub \<longleftrightarrow> umap_ok ub \<and> (\<forall>i u. map_of ub i = Some u \<longrightarrow> user_id u = i)"

lemma ub_ok_create [simp]: "ub_ok ub_create"
  by (simp add: ub_ok_def ub_create_def)

lemma ub_ok_append [simp]: "ub_ok ub \<Longrightarrow> ub_ok (ub_append u ub)"
  by (auto simp: ub_ok_def ub_append_def update_conv' distinct_update)

lemma ub_ok_erase: "ub_ok ub \<Longrightarrow> ub_erase i ub = Inr ub' \<Longrightarrow> ub_ok ub'"
  by (auto simp: ub_ok_def ub_erase_def delete_conv' distinct_delete split: option.splits if_splits)

lemma ub_ok_setLogin: "ub_ok ub \<Longrightarrow> ub_exists ub i \<Longrightarrow> ub_ok (ub_setLogin i l ub)"
  by (auto simp: ub_ok_def ub_setLogin_def ub_exists_def get_or_def update_conv' distinct_update
      split: option.splits)

lemma ub_exists_simps [simp]:
  "\<not> ub_exists ub_create i"
  "ub_exists (ub_append u ub) i \<longleftrightarrow> i = user_id u \<or> ub_exists ub i"
  "ub_exists (ub_setLogin i' l ub) i \<longleftrightarrow> i = i' \<or> ub_exists ub i"
  by (auto simp: ub_exists_def ub_create_def ub_append_def ub_setLogin_def update_conv')

interpretation users: registry ub_exists ub_append ub_erase ub_create ub_ok
  by unfold_locales
     (auto simp: ub_ok_erase, auto simp: ub_exists_def ub_erase_def delete_conv' split: option.splits)

lemma ub_exists_iff_byId: "ub_exists ub i \<longleftrightarrow> (\<exists>u. ub_byId ub i = Some u)"
  by (simp add: ub_exists_def ub_byId_def)

section \<open>Properties\<close>

text \<open>The user table behaves like a set of identifiers: appending a user makes exactly it a
  member as well, erasing a member removes exactly it, and erasing somebody who is not in the
  table throws and leaves the table as it was.\<close>

theorem user_table_membership:
  "(ub_exists (ub_append u ub) j \<longleftrightarrow> j = user_id u \<or> ub_exists ub j) \<and>
   (case ub_erase i ub of
      Inl e \<Rightarrow> \<not> ub_exists ub i \<and> e = Throw (UserNotExists i)
    | Inr ub' \<Rightarrow> ub_exists ub i \<and> (ub_exists ub' j \<longleftrightarrow> j \<noteq> i \<and> ub_exists ub j))"
proof (cases "ub_erase i ub")
  case (Inl e)
  then have "\<not> ub_exists ub i" using users.remove_member [of ub i] by auto
  with Inl show ?thesis using users.remove_missing [of ub i] by auto
next
  case (Inr ub')
  with users.remove_iff [OF Inr] show ?thesis by simp
qed

text \<open>\<open>users()\<close> lists every user of the table exactly once, whatever order the hash table is
  iterated in.\<close>

theorem users_lists_all:
  assumes "ub_ok ub" and "\<And>es. mset (it es) = mset es"
  shows "set (ub_users it ub) = {u. ub_byId ub (user_id u) = Some u} \<and>
         length (ub_users it ub) = length ub \<and> distinct (map user_id (ub_users it ub))"
proof -
  have it: "mset (it ub) = mset ub" by (rule assms(2))
  then have set_it: "set (it ub) = set ub" by (metis set_mset_mset)
  have own: "(i, u) \<in> set ub \<Longrightarrow> user_id u = i" for i u
    using assms(1) by (auto simp: ub_ok_def)
  then have ids: "map user_id (ub_users it ub) = map fst (it ub)"
    using set_it by (auto simp: ub_users_def comp_def)
  have "distinct (map user_id (ub_users it ub))"
    unfolding ids using it assms(1) by (metis mset_map ub_ok_def mset_eq_imp_distinct_iff)
  moreover have "set (ub_users it ub) = {u. ub_byId ub (user_id u) = Some u}"
    using own assms(1) by (force simp: ub_users_def set_it ub_byId_def ub_ok_def)
  moreover have "length (ub_users it ub) = length ub"
    using it by (metis size_mset length_map ub_users_def)
  ultimately show ?thesis by blast
qed

theorem users_lists_all_witness:
  "set (ub_users rev (ub_append \<lparr>user_login = ''b'', user_id = 2\<rparr>
     (ub_append \<lparr>user_login = ''a'', user_id = 1\<rparr> ub_create))) =
   {u. ub_byId (ub_append \<lparr>user_login = ''b'', user_id = 2\<rparr>
     (ub_append \<lparr>user_login = ''a'', user_id = 1\<rparr> ub_create)) (user_id u) = Some u}"
  using users_lists_all [of "ub_append \<lparr>user_login = ''b'', user_id = 2\<rparr>
     (ub_append \<lparr>user_login = ''a'', user_id = 1\<rparr> ub_create)" rev] by simp

end
