(* ===== verification/Queue_Client.thy ===== *)
theory Queue_Client
  imports Node_Settings Users
begin

text \<open>
  \<^verbatim>\<open>libdqueue/iqueue_client.h\<close>: the base class of \<open>Server\<close> and \<open>Client\<close> that maps queues to event
  consumers. A consumer is known by its address; \<open>_consumerId\<close>, the only field of
  \<open>EventConsumer\<close>, is kept per address. What \<open>consume\<close> does is the application's code: it is an
  argument, a computation on the whole state of the process.
\<close>

type_synonym consumer = nat

definition DefaultId :: Id where
  "DefaultId = - 1"

record 're iqueue = "'re process" +
  consumerId :: "consumer \<Rightarrow> Id"
  nextConsumersId :: Id
  eventHandlers :: "(Id, consumer option \<times> SubscriptionParams) umap"
  queue2handler :: "(string, Id list) umap"

text \<open>The application's \<open>consume\<close>, as a computation over the state it can reach.\<close>

type_synonym ('s) consume = "consumer \<Rightarrow> PublishParams \<Rightarrow> byte list \<Rightarrow> Id \<Rightarrow> ('s, unit) proc"

definition rmHandler :: "consumer \<Rightarrow> (('re, 'a) iqueue_scheme, unit) proc" where
  "rmHandler h = modify (\<lambda>s. s\<lparr>eventHandlers := umap_erase (consumerId s h) (eventHandlers s)\<rparr>)"

text \<open>\<open>_eventHandlers[v]\<close>: a missing key gets a null consumer and empty parameters.\<close>

definition eventHandler_at ::
  "Id \<Rightarrow> (('re, 'a) iqueue_scheme, consumer option \<times> SubscriptionParams) proc" where
  "eventHandler_at v s =
     (Inr (get_or (None, mk_sub [] []) (eventHandlers s) v),
      s\<lparr>eventHandlers := umap_index (None, mk_sub [] []) v (eventHandlers s)\<rparr>)"

definition callConsumer ::
  "'re engine \<Rightarrow> ('re, 'a) iqueue_scheme consume \<Rightarrow> PublishParams \<Rightarrow> byte list \<Rightarrow> Id \<Rightarrow>
   (('re, 'a) iqueue_scheme, unit) proc" where
  "callConsumer eng consume info d i s =
     (case map_of (queue2handler s) (pub_queueName info) of
        None \<Rightarrow> ret () s
      | Some ids \<Rightarrow>
          for_each ids (\<lambda>v.
            bind (eventHandler_at v) (\<lambda>es.
            bind (checkTag eng (snd es) (pub_tag info)) (\<lambda>b.
            if b then
              (case fst es of
                 None \<Rightarrow> throw (Undef NullDereference)
               | Some h \<Rightarrow> consume h info d i)
            else ret ()))) s)"

text \<open>\<open>_queue2handler[queueName].insert(id)\<close>, a \<open>std::set\<close> in increasing order.\<close>

definition link_handler :: "string \<Rightarrow> Id \<Rightarrow> (string, Id list) umap \<Rightarrow> (string, Id list) umap" where
  "link_handler q i m = umap_put q (insort_insert i (get_or [] m q)) m"

definition addHandler ::
  "SubscriptionParams \<Rightarrow> consumer option \<Rightarrow> (('re, 'a) iqueue_scheme, unit) proc" where
  "addHandler settings handler s =
     (case handler of
        None \<Rightarrow> (Inr (), s)
      | Some h \<Rightarrow>
          if consumerId s h \<noteq> DefaultId then
            (case map_of (eventHandlers s) (consumerId s h) of
               None \<Rightarrow> (Inl (Throw HandlerReuse), s)
             | Some e \<Rightarrow>
                 (Inr (), s\<lparr>eventHandlers := umap_put (consumerId s h) (fst e, settings) (eventHandlers s),
                            queue2handler := link_handler (sub_queueName settings) (consumerId s h)
                                               (queue2handler s)\<rparr>))
          else
            let i = nextConsumersId s in
            (Inr (), s\<lparr>consumerId := (consumerId s)(h := i),
                       nextConsumersId := i + 1,
                       eventHandlers := umap_put i (Some h, settings) (eventHandlers s),
                       queue2handler := link_handler (sub_queueName settings) i (queue2handler s)\<rparr>))"

section \<open>Invariant\<close>

text \<open>
  Every identifier linked to a queue names a handler, and every handler is an object that carries
  its identifier; identifiers in use lie below the next one.
\<close>

definition linked :: "(string, Id list) umap \<Rightarrow> Id \<Rightarrow> bool" where
  "linked m i \<longleftrightarrow> (\<exists>q. i \<in> set (get_or [] m q))"

definition sorted_links :: "(string, Id list) umap \<Rightarrow> bool" where
  "sorted_links m \<longleftrightarrow> (\<forall>q ids. map_of m q = Some ids \<longrightarrow> sorted ids \<and> distinct ids)"

definition iq_ok :: "('re, 'a) iqueue_scheme \<Rightarrow> bool" where
  "iq_ok s \<longleftrightarrow>
     (\<forall>i. linked (queue2handler s) i \<longrightarrow> map_of (eventHandlers s) i \<noteq> None) \<and>
     (\<forall>i h p. map_of (eventHandlers s) i = Some (h, p) \<longrightarrow>
        i < nextConsumersId s \<and> (\<exists>c. h = Some c \<and> consumerId s c = i)) \<and>
     (\<forall>c. consumerId s c \<noteq> DefaultId \<longrightarrow> consumerId s c < nextConsumersId s) \<and>
     sorted_links (queue2handler s)"

definition iq_init :: "('re, 'a) iqueue_scheme \<Rightarrow> bool" where
  "iq_init s \<longleftrightarrow> eventHandlers s = [] \<and> queue2handler s = [] \<and> (\<forall>c. consumerId s c = DefaultId)"

lemma iq_ok_init: "iq_init s \<Longrightarrow> iq_ok s"
  by (simp add: iq_ok_def iq_init_def linked_def sorted_links_def get_or_def)

lemma iq_ok_cache [simp]: "iq_ok (s\<lparr>recache := c\<rparr>) = iq_ok s"
  by (simp add: iq_ok_def)

lemma map_of_link:
  "map_of (link_handler q i m) q' =
     (if q' = q then Some (insort_insert i (get_or [] m q)) else map_of m q')"
  by (simp add: link_handler_def update_conv')

lemma linked_link [simp]: "linked (link_handler q i m) j \<longleftrightarrow> j = i \<or> linked m j"
proof -
  have "j \<in> set (get_or [] (link_handler q i m) q') \<longleftrightarrow>
      (q' = q \<and> j = i) \<or> j \<in> set (get_or [] m q')" for q'
    by (auto simp: get_or_def map_of_link set_insort_insert)
  then show ?thesis by (auto simp: linked_def)
qed

lemma sorted_links_link [simp]: "sorted_links m \<Longrightarrow> sorted_links (link_handler q i m)"
  by (auto simp: sorted_links_def map_of_link sorted_insort_insert distinct_insort_insert get_or_def
      split: option.splits)

lemma iq_ok_reuse:
  assumes "iq_ok s" and "map_of (eventHandlers s) i = Some e"
  shows "iq_ok (s\<lparr>eventHandlers := umap_put i (fst e, p) (eventHandlers s),
                  queue2handler := link_handler q i (queue2handler s)\<rparr>)"
  using assms by (cases e) (auto simp: iq_ok_def update_conv' split: if_splits)

lemma iq_ok_new:
  assumes "iq_ok s" and "consumerId s h = DefaultId" and "nextConsumersId s < DefaultId"
  defines "i \<equiv> nextConsumersId s"
  shows "iq_ok (s\<lparr>consumerId := (consumerId s)(h := i), nextConsumersId := i + 1,
                  eventHandlers := umap_put i (Some h, p) (eventHandlers s),
                  queue2handler := link_handler q i (queue2handler s)\<rparr>)"
proof -
  have i: "i < i + 1" using assms(3) unfolding i_def DefaultId_def by (rule word_less_plus1)
  have below: "x < i \<Longrightarrow> x < i + 1 \<and> x \<noteq> DefaultId" for x
    using i assms(3) by (auto simp: i_def)
  show ?thesis
    using assms(1,2) i below
    by (auto simp: iq_ok_def i_def update_conv' split: if_splits) metis
qed

lemma iq_ok_addHandler:
  "iq_ok s \<Longrightarrow> nextConsumersId s < DefaultId \<Longrightarrow> iq_ok (snd (addHandler p h s))"
  using iq_ok_reuse [of s] iq_ok_new [of s]
  by (auto simp: addHandler_def Let_def split: option.splits)

section \<open>Which consumers are called\<close>

definition handler_entry :: "('re, 'a) iqueue_scheme \<Rightarrow> Id \<Rightarrow> consumer option \<times> SubscriptionParams" where
  "handler_entry s v = get_or (None, mk_sub [] []) (eventHandlers s) v"

definition consumer_of :: "('re, 'a) iqueue_scheme \<Rightarrow> Id \<Rightarrow> consumer" where
  "consumer_of s v = (case fst (handler_entry s v) of Some c \<Rightarrow> c | None \<Rightarrow> 0)"

definition queue_handlers :: "('re, 'a) iqueue_scheme \<Rightarrow> string \<Rightarrow> Id list" where
  "queue_handlers s q = get_or [] (queue2handler s) q"

text \<open>A process that records the calls its consumers get.\<close>

record 're observed = "'re iqueue" +
  calls :: "(consumer \<times> PublishParams \<times> byte list \<times> Id) list"

definition record_call :: "('re, 'a) observed_scheme consume" where
  "record_call c info d i = modify (\<lambda>s. s\<lparr>calls := calls s @ [(c, info, d, i)]\<rparr>)"

lemma handler_entry_linked:
  assumes "iq_ok s" and "v \<in> set (queue_handlers s q)"
  shows "fst (handler_entry s v) = Some (consumer_of s v)"
    and "umap_index d v (eventHandlers s) = eventHandlers s"
proof -
  from assms have "map_of (eventHandlers s) v \<noteq> None"
    by (auto simp: iq_ok_def linked_def queue_handlers_def)
  then obtain h p where hp: "map_of (eventHandlers s) v = Some (h, p)" by auto
  with assms(1) obtain c where "h = Some c" unfolding iq_ok_def by blast
  with hp show "fst (handler_entry s v) = Some (consumer_of s v)"
    and "umap_index d v (eventHandlers s) = eventHandlers s"
    by (simp_all add: handler_entry_def consumer_of_def get_or_def)
qed

lemma eventHandler_at_linked:
  assumes "iq_ok s" and "v \<in> set (queue_handlers s q)"
  shows "eventHandler_at v s = (Inr (Some (consumer_of s v), snd (handler_entry s v)), s)"
  using handler_entry_linked [OF assms]
  by (simp add: eventHandler_at_def flip: handler_entry_def) (metis prod.collapse)

lemma callConsumer_unfold:
  "callConsumer eng consume info d i s =
     for_each (queue_handlers s (pub_queueName info)) (\<lambda>v.
       bind (eventHandler_at v) (\<lambda>es. bind (checkTag eng (snd es) (pub_tag info)) (\<lambda>b.
       if b then (case fst es of None \<Rightarrow> throw (Undef NullDereference) | Some h \<Rightarrow> consume h info d i)
       else ret ()))) s"
  by (simp add: callConsumer_def queue_handlers_def get_or_def split: option.split)

definition tag_test ::
  "'re engine \<Rightarrow> ('re, 'a) iqueue_scheme \<Rightarrow> PublishParams \<Rightarrow> Id \<Rightarrow> error + bool" where
  "tag_test eng s info v = tag_matches eng (snd (handler_entry s v)) (pub_tag info)"

text \<open>The part of the state that recording calls and checking tags touches.\<close>

definition only_calls :: "('re, 'a) observed_scheme \<Rightarrow> ('re, 'a) observed_scheme \<Rightarrow> bool" where
  "only_calls s s' \<longleftrightarrow> s' = s\<lparr>recache := recache s', calls := calls s'\<rparr>"

lemma only_calls_refl [simp]: "only_calls s s"
  by (simp add: only_calls_def)

lemma only_calls_step [simp]:
  "only_calls s s' \<Longrightarrow> only_calls s (s'\<lparr>recache := c\<rparr>)"
  "only_calls s s' \<Longrightarrow> only_calls s (s'\<lparr>recache := c, calls := l\<rparr>)"
  by (cases s; cases s'; simp add: only_calls_def)+

lemma only_calls_iq:
  assumes "only_calls s s'"
  shows "iq_ok s' = iq_ok s" "queue_handlers s' = queue_handlers s"
    "handler_entry s' = handler_entry s" "consumer_of s' = consumer_of s"
  by (subst assms [unfolded only_calls_def],
      simp add: iq_ok_def queue_handlers_def handler_entry_def consumer_of_def fun_eq_iff)+

lemma callConsumer_recorded:
  fixes s :: "('re, 'a) observed_scheme" and info :: PublishParams and d :: "byte list" and i :: Id
  assumes "iq_ok s" and "cache_ok eng s"
  defines "sel \<equiv> select (tag_test eng s info) (queue_handlers s (pub_queueName info))"
    and "r \<equiv> callConsumer eng record_call info d i s"
  shows "fst r = fst sel \<and> (only_calls s (snd r) \<and> cache_ok eng (snd r)) \<and>
         calls (snd r) = calls s @ map (\<lambda>v. (consumer_of s v, info, d, i)) (snd sel)"
  unfolding r_def sel_def callConsumer_unfold
proof (rule for_each_select)
  show "only_calls s s \<and> cache_ok eng s" using assms(2) by simp
next
  fix v and s' :: "('re, 'a) observed_scheme"
  assume v: "v \<in> set (queue_handlers s (pub_queueName info))"
    and "only_calls s s' \<and> cache_ok eng s'"
  then have s': "only_calls s s'" and ok: "cache_ok eng s'" by auto
  note same = only_calls_iq [OF s']
  have at: "eventHandler_at v s' = (Inr (Some (consumer_of s v), snd (handler_entry s v)), s')"
    using eventHandler_at_linked [of s' v "pub_queueName info"] v same assms(1) by simp
  obtain c' where ct: "checkTag eng (snd (handler_entry s v)) (pub_tag info) s' =
      (tag_test eng s info v, s'\<lparr>recache := c'\<rparr>)" and ok': "cache_ok eng (s'\<lparr>recache := c'\<rparr>)"
    unfolding tag_test_def by (rule checkTag_run [OF ok])
  let ?b = "bind (eventHandler_at v) (\<lambda>es. bind (checkTag eng (snd es) (pub_tag info)) (\<lambda>b.
       if b then (case fst es of None \<Rightarrow> throw (Undef NullDereference) | Some h \<Rightarrow> record_call h info d i)
       else ret ())) s'"
  have "?b = (case tag_test eng s info v of
        Inl e \<Rightarrow> (Inl e, s'\<lparr>recache := c'\<rparr>)
      | Inr b \<Rightarrow> (Inr (), if b then s'\<lparr>recache := c', calls := calls s' @ [(consumer_of s v, info, d, i)]\<rparr>
                          else s'\<lparr>recache := c'\<rparr>))"
    using at ct by (auto simp: proc_defs record_call_def split: sum.split)
  then show "fst ?b = (case tag_test eng s info v of Inl e \<Rightarrow> Inl e | Inr x \<Rightarrow> Inr ()) \<and>
      (only_calls s (snd ?b) \<and> cache_ok eng (snd ?b)) \<and>
      calls (snd ?b) = calls s' @
        (if tag_test eng s info v = Inr True then [(consumer_of s v, info, d, i)] else [])"
    using ok' s' by (auto simp: cache_ok_def split: sum.split)
qed

section \<open>Properties\<close>

text \<open>A process after some event consumers were added with their parameters, one after the other.\<close>

definition add_all ::
  "(SubscriptionParams \<times> consumer) list \<Rightarrow> ('re, 'a) iqueue_scheme \<Rightarrow> ('re, 'a) iqueue_scheme" where
  "add_all hs s = fold (\<lambda>(p, h) s. snd (addHandler p (Some h) s)) hs s"

text \<open>C21: in every state in which the handler tables agree, a received message goes to exactly the
  consumers linked to its queue whose tag expression matches, once each and in the order of their
  identifiers; if an expression is rejected, delivery stops there and the error is reported.\<close>

theorem callConsumer_delivers:
  assumes "iq_ok s" and "cache_ok eng s"
  shows "fst (callConsumer eng record_call info d i s) =
           fst (select (tag_test eng s info) (queue_handlers s (pub_queueName info))) \<and>
         calls (snd (callConsumer eng record_call info d i s)) =
           calls s @ map (\<lambda>v. (consumer_of s v, info, d, i))
             (snd (select (tag_test eng s info) (queue_handlers s (pub_queueName info))))"
  using callConsumer_recorded [OF assms] by blast

definition fresh_process :: "'re observed" where
  "fresh_process =
     \<lparr>recache = [], consumerId = (\<lambda>_. DefaultId), nextConsumersId = 0, eventHandlers = [],
      queue2handler = [], calls = []\<rparr>"

lemma fresh_process_init [simp]: "iq_init fresh_process" "cache_ok eng fresh_process"
  "nextConsumersId fresh_process = 0" "recache fresh_process = []" "calls fresh_process = []"
  by (simp_all add: fresh_process_def iq_init_def cache_ok_def)

theorem callConsumer_delivers_witness:
  "calls (snd (callConsumer literal_engine record_call (mk_pub ''q'' ''a'') [7] 3
     (add_all [(mk_sub ''q'' ''a'', 10), (mk_sub ''q'' ''b'', 11), (mk_sub ''q'' [], 12)]
        fresh_process))) =
   [(10, mk_pub ''q'' ''a'', [7], 3), (12, mk_pub ''q'' ''a'', [7], 3)]"
proof -
  define s where "s = add_all [(mk_sub ''q'' ''a'', 10), (mk_sub ''q'' ''b'', 11), (mk_sub ''q'' [], 12)]
        (fresh_process :: string observed)"
  have s: "s = \<lparr>recache = [], consumerId = ((\<lambda>_. DefaultId)(10 := 0, 11 := 1, 12 := 2)),
      nextConsumersId = 3, eventHandlers = [(0, Some 10, mk_sub ''q'' ''a''),
        (1, Some 11, mk_sub ''q'' ''b''), (2, Some 12, mk_sub ''q'' [])],
      queue2handler = [(''q'', [0, 1, 2])], calls = []\<rparr>"
    by (simp add: s_def add_all_def fresh_process_def addHandler_def link_handler_def get_or_def
        insort_insert_key_def word_le_nat_alt)
  have "iq_ok s"
    by (auto simp: s iq_ok_def linked_def sorted_links_def get_or_def DefaultId_def split: if_splits)
  moreover have "cache_ok literal_engine s" by (simp add: s cache_ok_def)
  ultimately show ?thesis
    using callConsumer_delivers [of s literal_engine "mk_pub ''q'' ''a''" "[7]" 3]
    by (simp flip: s_def)
       (simp add: s queue_handlers_def get_or_def tag_test_def handler_entry_def tag_matches_def
          literal_engine_def consumer_of_def)
qed

lemma nextConsumersId_add:
  "nextConsumersId (snd (addHandler p h s)) = nextConsumersId s \<or>
   nextConsumersId (snd (addHandler p h s)) = nextConsumersId s + 1"
  by (auto simp: addHandler_def Let_def split: option.splits)

lemma unat_DefaultId: "unat DefaultId = 2 ^ 64 - 1"
  unfolding DefaultId_def by (simp add: unsigned_minus_1_eq_mask mask_eq_exp_minus_1)

lemma zero_less_DefaultId [simp]: "0 < DefaultId"
  by (simp add: word_less_nat_alt unat_DefaultId)

lemma iq_ok_add_all:
  "iq_ok s \<Longrightarrow> unat (nextConsumersId s) + length hs < 2 ^ 64 - 1 \<Longrightarrow> iq_ok (add_all hs s)"
proof (induction hs arbitrary: s)
  case (Cons ph hs)
  obtain p h where ph: "ph = (p, h)" by fastforce
  let ?s = "snd (addHandler p (Some h) s)"
  have below: "nextConsumersId s < DefaultId"
    using Cons.prems(2) by (simp add: word_less_nat_alt unat_DefaultId)
  have "unat (nextConsumersId s + 1) \<le> unat (nextConsumersId s) + 1"
    by (simp add: unat_word_ariths)
  then have "unat (nextConsumersId ?s) + length hs < 2 ^ 64 - 1"
    using Cons.prems(2) nextConsumersId_add [of p "Some h" s] by auto
  then have "iq_ok (add_all hs ?s)"
    using Cons.prems(1) below by (intro Cons.IH iq_ok_addHandler)
  then show ?case by (simp add: add_all_def ph)
qed (simp add: add_all_def)

text \<open>However handlers are added, reused for other queues or rejected, the handler tables stay
  consistent (every linked identifier names a live handler that carries it), as long as fewer
  than \<open>2\<^sup>6\<^sup>4 - 1\<close> handlers were ever added; so delivery never meets a null consumer.\<close>

theorem addHandler_keeps_tables:
  assumes "iq_init s" and "nextConsumersId s = 0" and "length hs < 2 ^ 64 - 1"
  shows "iq_ok (add_all hs s) \<and>
         (\<forall>q. \<forall>v \<in> set (queue_handlers (add_all hs s) q).
            fst (handler_entry (add_all hs s) v) = Some (consumer_of (add_all hs s) v))"
  using iq_ok_add_all [OF iq_ok_init [OF assms(1)], of hs] assms(2,3) handler_entry_linked(1) by auto

theorem addHandler_keeps_tables_witness:
  "iq_ok (add_all [(mk_sub ''q'' ''a'', 10), (mk_sub ''p'' ''b'', 10)] (fresh_process :: string observed))"
  using addHandler_keeps_tables [of "fresh_process :: string observed"
      "[(mk_sub ''q'' ''a'', 10), (mk_sub ''p'' ''b'', 10)]"] by simp

text \<open>\<open>rmHandler\<close> forgets the links: it removes the handler but leaves its identifier in
  \<open>_queue2handler\<close>, so the next message on the queue finds a null consumer with an empty tag,
  which matches everything, and calls it.\<close>

theorem rmHandler_leaves_dangling_link:
  assumes "iq_init s" and "nextConsumersId s < DefaultId"
  shows "fst (callConsumer eng consume (mk_pub q t) d i
           (snd (rmHandler h (snd (addHandler (mk_sub q tag) (Some h) s))))) = Inl (Undef NullDereference)"
proof -
  have "consumerId s h = DefaultId" "eventHandlers s = []" "queue2handler s = []"
    using assms(1) by (simp_all add: iq_init_def)
  then show ?thesis
    by (simp add: addHandler_def Let_def rmHandler_def modify_def callConsumer_def link_handler_def
        get_or_def insort_insert_key_def proc_defs eventHandler_at_def checkTag_def)
qed

theorem rmHandler_leaves_dangling_link_witness:
  "fst (callConsumer literal_engine record_call (mk_pub ''q'' ''x'') [1] 0
     (snd (rmHandler 10 (snd (addHandler (mk_sub ''q'' ''a'') (Some 10) fresh_process))))) =
   Inl (Undef NullDereference)"
  by (rule rmHandler_leaves_dangling_link) simp_all

text \<open>A handler has one set of parameters, not one per queue: adding it again for another queue
  replaces the tag it filters the first queue with.\<close>

theorem addHandler_overwrites_tag:
  assumes "iq_init s" and "nextConsumersId s < DefaultId"
  shows "let s' = add_all [(mk_sub q1 tag1, h), (mk_sub q2 tag2, h)] s in
         queue_handlers s' q1 = [nextConsumersId s] \<and>
         handler_entry s' (nextConsumersId s) = (Some h, mk_sub q2 tag2)"
proof -
  have "consumerId s h = DefaultId" "eventHandlers s = []" "queue2handler s = []"
    using assms(1) by (simp_all add: iq_init_def)
  then show ?thesis
    using assms(2)
    by (auto simp: add_all_def addHandler_def Let_def link_handler_def get_or_def update_conv'
        insort_insert_key_def queue_handlers_def handler_entry_def)
qed

theorem addHandler_overwrites_tag_witness:
  "let s' = add_all [(mk_sub ''news'' ''sport'', 10), (mk_sub ''jobs'' ''it'', 10)]
      (fresh_process :: string observed) in
     queue_handlers s' ''news'' = [0] \<and> handler_entry s' 0 = (Some 10, mk_sub ''jobs'' ''it'')"
  using addHandler_overwrites_tag [of "fresh_process :: string observed" "''news''" "''sport''" 10
      "''jobs''" "''it''"] by simp

end
