(* ===== verification/Node.thy ===== *)
theory Node
  imports Queue_Client
begin

text \<open>
  \<^verbatim>\<open>libdqueue/node.cpp\<close>: the broker. It keeps the queues by name and, per queue, the listeners by
  client identifier; the table of clients belongs to the server and is shared with it. The state
  extends the one of \<open>IQueueClient\<close> because a node lives in the server's process, whose expression
  cache it uses and whose data handler it calls. \<open>ENSURE\<close> is compiled out in the default build.

  The contract is stated on an abstract broker (two functions and a set); every operation of the
  code, loops over sorted maps included, is proved to implement its specification there.
\<close>

record QueueListener =
  isowner :: bool
  issubscribed :: bool
  ql_settings :: SubscriptionParams

type_synonym listeners = "(Id, QueueListener) omap"

record 're node = "'re iqueue" +
  clients :: UserBase
  queues :: "(string, Queue) omap"
  nextQueueId :: int
  subscriptions :: "(string, listeners) omap"

record QueueDescription =
  qd_settings :: QueueSettings
  qd_subscribers :: "Id list"

section \<open>Operations\<close>

definition queueIsExists :: "('re, 'a) node_scheme \<Rightarrow> string \<Rightarrow> bool" where
  "queueIsExists s name \<longleftrightarrow> map_of (queues s) name \<noteq> None"

definition queueByName :: "('re, 'a) node_scheme \<Rightarrow> string \<Rightarrow> error + Queue" where
  "queueByName s name =
     (case map_of (queues s) name of
        None \<Rightarrow> Inl (Throw (QueueNameNotFound name))
      | Some q \<Rightarrow> Inr q)"

definition queueById :: "('re, 'a) node_scheme \<Rightarrow> int \<Rightarrow> error + Queue" where
  "queueById s i =
     (case find (\<lambda>kv. queueId (snd kv) = i) (queues s) of
        None \<Rightarrow> Inl (Throw (QueueIdNotFound i))
      | Some kv \<Rightarrow> Inr (snd kv))"

definition add_listener :: "bool \<Rightarrow> SubscriptionParams \<Rightarrow> Id \<Rightarrow> listeners \<Rightarrow> listeners" where
  "add_listener owner settings clientId ls =
     (case map_of ls clientId of
        Some ql \<Rightarrow>
          if \<not> owner
          then omap_put clientId (ql\<lparr>issubscribed := True, ql_settings := settings\<rparr>) ls
          else ls
      | None \<Rightarrow>
          omap_put clientId \<lparr>isowner = owner, issubscribed = False, ql_settings = settings\<rparr> ls)"

text \<open>\<open>_subscriptions[name]\<close> changed in place; a missing name gets an empty map first.\<close>

definition on_listeners ::
  "string \<Rightarrow> (listeners \<Rightarrow> listeners) \<Rightarrow> ('re, 'a) node_scheme \<Rightarrow> ('re, 'a) node_scheme" where
  "on_listeners name f s =
     s\<lparr>subscriptions := omap_put name (f (get_or [] (subscriptions s) name)) (subscriptions s)\<rparr>"

definition changeSubscription ::
  "SubscribeActions \<Rightarrow> SubscriptionParams \<Rightarrow> Id \<Rightarrow> (('re, 'a) node_scheme, unit) proc" where
  "changeSubscription action settings clientId s =
     (if \<not> queueIsExists s (sub_queueName settings) \<and> action = Unsubscribe then ret () s
      else if \<not> ub_exists (clients s) clientId then throw (Throw (ClientNotExists clientId)) s
      else case action of
             Create \<Rightarrow> modify (on_listeners (sub_queueName settings)
                                 (add_listener True settings clientId)) s
           | Subscribe \<Rightarrow> modify (on_listeners (sub_queueName settings)
                                 (add_listener False settings clientId)) s
           | Unsubscribe \<Rightarrow> modify (on_listeners (sub_queueName settings) (omap_erase clientId)) s)"

text \<open>\<open>nextQueueId++\<close> on an \<open>int\<close>.\<close>

definition take_queueId :: "(('re, 'a) node_scheme, int) proc" where
  "take_queueId s =
     (if nextQueueId s = 2 ^ 31 - 1 then (Inl (Undef SignedOverflow), s)
      else (Inr (nextQueueId s), s\<lparr>nextQueueId := nextQueueId s + 1\<rparr>))"

definition createQueue :: "QueueSettings \<Rightarrow> Id \<Rightarrow> (('re, 'a) node_scheme, unit) proc" where
  "createQueue qsettings ownerId s =
     (if \<not> ub_exists (clients s) ownerId then throw (Throw (ClientNotExists ownerId)) s
      else case map_of (queues s) (qs_name qsettings) of
        None \<Rightarrow>
          bind take_queueId (\<lambda>i.
          bind (modify (\<lambda>s. s\<lparr>queues := omap_insert (qs_name qsettings)
                                  \<lparr>queueId = i, q_settings = qsettings\<rparr> (queues s)\<rparr>)) (\<lambda>_.
          changeSubscription Create (mk_sub (qs_name qsettings) []) ownerId)) s
      | Some q \<Rightarrow>
          modify (\<lambda>s. s\<lparr>queues := omap_put (qs_name qsettings) (q\<lparr>q_settings := qsettings\<rparr>)
                                    (queues s)\<rparr>) s)"

definition getDescription :: "('re, 'a) node_scheme \<Rightarrow> QueueDescription list" where
  "getDescription s =
     map (\<lambda>kv. \<lparr>qd_settings = q_settings (snd kv),
                qd_subscribers = (case map_of (subscriptions s) (fst kv) of
                                    None \<Rightarrow> []
                                  | Some values \<Rightarrow> map fst values)\<rparr>) (queues s)"

text \<open>\<open>eraseClient\<close>: one pass over the subscriptions; an emptied queue is erased, and so is one the
  server listens to without owning it. The (possibly empty) listener map stays.\<close>

definition must_be_removed :: "listeners \<Rightarrow> bool" where
  "must_be_removed ls \<longleftrightarrow>
     ls = [] \<or> (case map_of ls ServerID of None \<Rightarrow> False | Some ql \<Rightarrow> \<not> isowner ql)"

fun erase_pass ::
  "Id \<Rightarrow> (string, listeners) omap \<Rightarrow> (string, Queue) omap \<Rightarrow> (string, listeners) omap \<times> (string, Queue) omap" where
  "erase_pass i [] qs = ([], qs)"
| "erase_pass i ((name, ls) # subs) qs =
     (if map_of ls i = None
      then let (subs', qs') = erase_pass i subs qs in ((name, ls) # subs', qs')
      else
        let ls' = omap_erase i ls;
            (subs', qs') = erase_pass i subs (if must_be_removed ls' then omap_erase name qs else qs)
        in ((name, ls') # subs', qs'))"

definition eraseClient :: "Id \<Rightarrow> (('re, 'a) node_scheme, unit) proc" where
  "eraseClient i =
     modify (\<lambda>s. let (subs, qs) = erase_pass i (subscriptions s) (queues s)
                 in s\<lparr>subscriptions := subs, queues := qs\<rparr>)"

type_synonym 's handler = "PublishParams \<Rightarrow> byte list \<Rightarrow> Id \<Rightarrow> ('s, unit) proc"

text \<open>The body of the delivery loop, for one listener of the local copy.\<close>

definition publish_to ::
  "'re engine \<Rightarrow> ('re, 'a) node_scheme handler \<Rightarrow> PublishParams \<Rightarrow> byte list \<Rightarrow> Id \<times> QueueListener \<Rightarrow>
   (('re, 'a) node_scheme, unit) proc" where
  "publish_to eng handler pubParam rd kv =
     (if \<not> isowner (snd kv) \<or> issubscribed (snd kv) then
        bind (if sub_tag (ql_settings (snd kv)) = [] then ret True
              else checkTag eng (ql_settings (snd kv)) (pub_tag pubParam)) (\<lambda>isTarget.
        if isTarget then handler pubParam rd (fst kv) else ret ())
      else ret ())"

definition publish ::
  "'re engine \<Rightarrow> ('re, 'a) node_scheme handler \<Rightarrow> PublishParams \<Rightarrow> byte list \<Rightarrow> Id \<Rightarrow>
   (('re, 'a) node_scheme, unit) proc" where
  "publish eng handler pubParam rd author s =
     (if \<not> queueIsExists s (pub_queueName pubParam) then ret () s
      else
        for_each (get_or [] (subscriptions s) (pub_queueName pubParam)) (publish_to eng handler pubParam rd)
        (s\<lparr>subscriptions := omap_index [] (pub_queueName pubParam) (subscriptions s)\<rparr>))"

section \<open>The abstract broker\<close>

text \<open>Which queues exist, who listens to what, who is known: no lists, no order.\<close>

record broker =
  b_queues :: "string \<Rightarrow> Queue option"
  b_listeners :: "string \<Rightarrow> Id \<Rightarrow> QueueListener option"
  b_members :: "Id \<Rightarrow> bool"
  b_next :: int

definition broker_of :: "('re, 'a) node_scheme \<Rightarrow> broker" where
  "broker_of s = \<lparr>b_queues = map_of (queues s),
            b_listeners = (\<lambda>q. map_of (get_or [] (subscriptions s) q)),
            b_members = ub_exists (clients s),
            b_next = nextQueueId s\<rparr>"

text \<open>What a listener becomes: the first entry fixes whether it is the owner for good.\<close>

fun spec_listener ::
  "SubscribeActions \<Rightarrow> SubscriptionParams \<Rightarrow> QueueListener option \<Rightarrow> QueueListener option" where
  "spec_listener Create p None = Some \<lparr>isowner = True, issubscribed = False, ql_settings = p\<rparr>"
| "spec_listener Create p (Some l) = Some l"
| "spec_listener Subscribe p None = Some \<lparr>isowner = False, issubscribed = False, ql_settings = p\<rparr>"
| "spec_listener Subscribe p (Some l) = Some (l\<lparr>issubscribed := True, ql_settings := p\<rparr>)"
| "spec_listener Unsubscribe p l = None"

definition spec_change ::
  "SubscribeActions \<Rightarrow> SubscriptionParams \<Rightarrow> Id \<Rightarrow> (broker, unit) proc" where
  "spec_change action p i b =
     (if action = Unsubscribe \<and> b_queues b (sub_queueName p) = None then (Inr (), b)
      else if \<not> b_members b i then (Inl (Throw (ClientNotExists i)), b)
      else (Inr (), b\<lparr>b_listeners := (\<lambda>q j. if q = sub_queueName p \<and> j = i
                                           then spec_listener action p (b_listeners b q j)
                                           else b_listeners b q j)\<rparr>))"

definition spec_create :: "QueueSettings \<Rightarrow> Id \<Rightarrow> (broker, unit) proc" where
  "spec_create qs owner b =
     (if \<not> b_members b owner then (Inl (Throw (ClientNotExists owner)), b)
      else case b_queues b (qs_name qs) of
        Some q \<Rightarrow> (Inr (), b\<lparr>b_queues := (b_queues b)(qs_name qs \<mapsto> q\<lparr>q_settings := qs\<rparr>)\<rparr>)
      | None \<Rightarrow>
          if b_next b = 2 ^ 31 - 1 then (Inl (Undef SignedOverflow), b)
          else spec_change Create (mk_sub (qs_name qs) []) owner
                 (b\<lparr>b_queues := (b_queues b)(qs_name qs \<mapsto> \<lparr>queueId = b_next b, q_settings = qs\<rparr>),
                    b_next := b_next b + 1\<rparr>))"

text \<open>A queue goes with a client who listened to it if nobody is left, or if the server listens
  without owning it.\<close>

definition spec_orphaned :: "broker \<Rightarrow> Id \<Rightarrow> string \<Rightarrow> bool" where
  "spec_orphaned b i q \<longleftrightarrow>
     b_listeners b q i \<noteq> None \<and>
     ((\<forall>j. j \<noteq> i \<longrightarrow> b_listeners b q j = None) \<or>
      i \<noteq> ServerID \<and> (\<exists>l. b_listeners b q ServerID = Some l \<and> \<not> isowner l))"

definition spec_erase :: "Id \<Rightarrow> (broker, unit) proc" where
  "spec_erase i b =
     (Inr (), b\<lparr>b_queues := (\<lambda>q. if spec_orphaned b i q then None else b_queues b q),
                b_listeners := (\<lambda>q j. if j = i then None else b_listeners b q j)\<rparr>)"

section \<open>The code implements the specification\<close>

lemma broker_of_sel [simp]:
  "b_queues (broker_of s) = map_of (queues s)"
  "b_listeners (broker_of s) q = map_of (get_or [] (subscriptions s) q)"
  "b_members (broker_of s) = ub_exists (clients s)"
  "b_next (broker_of s) = nextQueueId s"
  by (simp_all add: broker_of_def)

lemma get_or_put [simp]: "get_or d (omap_put k v m) k' = (if k' = k then v else get_or d m k')"
  by (simp add: get_or_def)

lemma abs_on_listeners:
  assumes "\<And>ls j. map_of (f ls) j = (if j = i then g (map_of ls i) else map_of ls j)"
  shows "broker_of (on_listeners name f s) =
           (broker_of s)\<lparr>b_listeners := (\<lambda>q j. if q = name \<and> j = i then g (b_listeners (broker_of s) q j)
                                        else b_listeners (broker_of s) q j)\<rparr>"
  by (simp add: broker_of_def on_listeners_def assms fun_eq_iff)

lemma map_of_add_listener:
  "map_of (add_listener owner p i ls) j =
     (if j = i then spec_listener (if owner then Create else Subscribe) p (map_of ls i) else map_of ls j)"
  by (auto simp: add_listener_def split: option.split)

lemma changeSubscription_refines:
  "fst (changeSubscription a p i s) = fst (spec_change a p i (broker_of s))"
  "broker_of (snd (changeSubscription a p i s)) = snd (spec_change a p i (broker_of s))"
proof -
  have add: "map_of (add_listener o' p i ls) j = (if j = i then
      spec_listener (if o' then Create else Subscribe) p (map_of ls i) else map_of ls j)" for o' ls j
    by (rule map_of_add_listener)
  have del: "map_of (omap_erase i ls) j = (if j = i then spec_listener Unsubscribe p (map_of ls i) else
      map_of ls j)" for ls :: listeners and j
    by (simp add: delete_conv')
  note abs_add = abs_on_listeners [where f = "add_listener o' p i" for o', OF add]
  show "fst (changeSubscription a p i s) = fst (spec_change a p i (broker_of s))"
    "broker_of (snd (changeSubscription a p i s)) = snd (spec_change a p i (broker_of s))"
    by (auto simp: changeSubscription_def spec_change_def queueIsExists_def proc_defs abs_add
        abs_on_listeners [where f = "omap_erase i", OF del] cong: if_cong split: SubscribeActions.split)
qed

lemma createQueue_refines:
  "fst (createQueue qs i s) = fst (spec_create qs i (broker_of s))"
  "broker_of (snd (createQueue qs i s)) = snd (spec_create qs i (broker_of s))"
proof -
  let ?new = "\<lparr>queueId = nextQueueId s, q_settings = qs\<rparr>"
  have insert_new: "map_of (queues s) (qs_name qs) = None \<Longrightarrow>
      broker_of (s\<lparr>nextQueueId := nextQueueId s + 1, queues := omap_insert (qs_name qs) ?new (queues s)\<rparr>) =
      (broker_of s)\<lparr>b_queues := (map_of (queues s))(qs_name qs \<mapsto> ?new), b_next := nextQueueId s + 1\<rparr>"
    and replace: "broker_of (s\<lparr>queues := omap_put (qs_name qs) q (queues s)\<rparr>) =
      (broker_of s)\<lparr>b_queues := (map_of (queues s))(qs_name qs \<mapsto> q)\<rparr>" for q
    by (auto simp: broker_of_def fun_eq_iff)
  show "fst (createQueue qs i s) = fst (spec_create qs i (broker_of s))"
    "broker_of (snd (createQueue qs i s)) = snd (spec_create qs i (broker_of s))"
    by (cases "map_of (queues s) (qs_name qs)";
        simp add: createQueue_def spec_create_def take_queueId_def proc_defs insert_new replace
          changeSubscription_refines)+
qed

lemma erase_pass_listeners: "fst (erase_pass i subs qs) = map_vals (omap_erase i) subs"
proof (induction subs arbitrary: qs)
  case (Cons e subs)
  obtain name ls where "e = (name, ls)" by fastforce
  moreover have "map_of ls i = None \<Longrightarrow> omap_erase i ls = ls"
    by (metis delete_id domIff dom_map_of_conv_image_fst)
  ultimately show ?case
    using Cons by (simp add: map_vals_def Let_def case_prod_unfold)
qed (simp add: map_vals_def)

definition drops :: "Id \<Rightarrow> listeners \<Rightarrow> bool" where
  "drops i ls \<longleftrightarrow> map_of ls i \<noteq> None \<and> must_be_removed (omap_erase i ls)"

lemma erase_pass_queues:
  "snd (erase_pass i subs qs) = fold (\<lambda>kv qs. if drops i (snd kv) then omap_erase (fst kv) qs else qs) subs qs"
  by (induction i subs qs rule: erase_pass.induct)
     (auto simp: drops_def Let_def split: prod.split if_splits)

lemma map_of_drop_queues:
  assumes "distinct (map fst subs)"
  shows "map_of (fold (\<lambda>kv qs. if drops i (snd kv) then omap_erase (fst kv) qs else qs) subs qs) q =
     (if \<exists>ls. map_of subs q = Some ls \<and> drops i ls then None else map_of qs q)"
  using assms
proof (induction subs arbitrary: qs)
  case (Cons e subs)
  then have "map_of subs (fst e) = None" by (simp add: map_of_eq_None_iff)
  with Cons show ?case by (auto simp: delete_conv')
qed simp

text \<open>Well-formed tables: what the C++ containers guarantee by construction.\<close>

definition sorted_tables :: "('re, 'a) node_scheme \<Rightarrow> bool" where
  "sorted_tables s \<longleftrightarrow> omap_ok (queues s) \<and> omap_ok (subscriptions s) \<and>
     (\<forall>q ls. map_of (subscriptions s) q = Some ls \<longrightarrow> omap_ok ls)"

lemma drops_orphaned:
  "(\<exists>ls. map_of (subscriptions s) q = Some ls \<and> drops i ls) \<longleftrightarrow> spec_orphaned (broker_of s) i q"
proof -
  have empty: "omap_erase i ls = [] \<longleftrightarrow> (\<forall>j. j \<noteq> i \<longrightarrow> map_of ls j = None)" for ls :: listeners
    by (force simp: AList.delete_eq filter_empty_conv map_of_eq_None_iff)
  have "drops i ls \<longleftrightarrow> map_of ls i \<noteq> None \<and> ((\<forall>j. j \<noteq> i \<longrightarrow> map_of ls j = None) \<or>
      i \<noteq> ServerID \<and> (\<exists>l. map_of ls ServerID = Some l \<and> \<not> isowner l))" for ls
    by (auto simp: drops_def must_be_removed_def empty delete_conv' split: option.splits)
  then show ?thesis
    by (cases "map_of (subscriptions s) q") (simp_all add: spec_orphaned_def get_or_def)
qed

lemma eraseClient_refines:
  assumes "sorted_tables s"
  shows "fst (eraseClient i s) = fst (spec_erase i (broker_of s))"
    and "broker_of (snd (eraseClient i s)) = snd (spec_erase i (broker_of s))"
proof -
  have d: "distinct (map fst (subscriptions s))"
    using assms by (simp add: sorted_tables_def omap_ok_distinct)
  have "map_of (get_or [] (map_vals (omap_erase i) (subscriptions s)) q) =
      (\<lambda>j. if j = i then None else map_of (get_or [] (subscriptions s) q) j)" for q
    by (auto simp: get_or_def delete_conv' fun_eq_iff split: option.split)
  then show "broker_of (snd (eraseClient i s)) = snd (spec_erase i (broker_of s))"
    by (simp add: eraseClient_def modify_def spec_erase_def broker_of_def case_prod_unfold Let_def
        erase_pass_listeners erase_pass_queues map_of_drop_queues [OF d] drops_orphaned fun_eq_iff)
qed (simp add: eraseClient_def modify_def spec_erase_def)

section \<open>Invariant\<close>

text \<open>
  Names agree with the keys they are stored under, queue identifiers are distinct and below the
  next one, and every queue has a listener map.
\<close>

definition queues_ok :: "broker \<Rightarrow> bool" where
  "queues_ok b \<longleftrightarrow>
     0 \<le> b_next b \<and> b_next b < 2 ^ 31 \<and>
     (\<forall>n q. b_queues b n = Some q \<longrightarrow>
        qs_name (q_settings q) = n \<and> 0 \<le> queueId q \<and> queueId q < b_next b) \<and>
     (\<forall>n n' q q'. b_queues b n = Some q \<longrightarrow> b_queues b n' = Some q' \<longrightarrow> queueId q = queueId q' \<longrightarrow> n = n')"

definition listeners_ok :: "broker \<Rightarrow> bool" where
  "listeners_ok b \<longleftrightarrow>
     (\<forall>n i l. b_listeners b n i = Some l \<longrightarrow> sub_queueName (ql_settings l) = n)"

definition node_ok :: "('re, 'a) node_scheme \<Rightarrow> bool" where
  "node_ok s \<longleftrightarrow>
     sorted_tables s \<and> queues_ok (broker_of s) \<and> listeners_ok (broker_of s) \<and>
     (\<forall>n. queueIsExists s n \<longrightarrow> map_of (subscriptions s) n \<noteq> None)"

text \<open>Every listener is a client: this needs the server's discipline when a client goes.\<close>

definition subscribers_known :: "broker \<Rightarrow> bool" where
  "subscribers_known b \<longleftrightarrow> (\<forall>n i. b_listeners b n i \<noteq> None \<longrightarrow> b_members b i)"

datatype command =
    DoCreate QueueSettings Id
  | DoChange SubscribeActions SubscriptionParams Id
  | DoErase Id

fun node_exec :: "command \<Rightarrow> (('re, 'a) node_scheme, unit) proc" where
  "node_exec (DoCreate qs i) = createQueue qs i"
| "node_exec (DoChange a p i) = changeSubscription a p i"
| "node_exec (DoErase i) = eraseClient i"

fun spec_exec :: "command \<Rightarrow> (broker, unit) proc" where
  "spec_exec (DoCreate qs i) = spec_create qs i"
| "spec_exec (DoChange a p i) = spec_change a p i"
| "spec_exec (DoErase i) = spec_erase i"

lemma node_exec_refines:
  assumes "sorted_tables s"
  shows "fst (node_exec c s) = fst (spec_exec c (broker_of s))"
    and "broker_of (snd (node_exec c s)) = snd (spec_exec c (broker_of s))"
  by (cases c; simp add: createQueue_refines changeSubscription_refines eraseClient_refines [OF assms])+

lemma spec_listener_name:
  "spec_listener a p l = Some l' \<Longrightarrow>
   sub_queueName (ql_settings l') = sub_queueName p \<or> l = Some l'"
  by (induction a p l rule: spec_listener.induct) auto

lemma spec_change_queues [simp]: "b_queues (snd (spec_change a p i b)) = b_queues b"
  "b_next (snd (spec_change a p i b)) = b_next b"
  "b_members (snd (spec_change a p i b)) = b_members b"
  by (simp_all add: spec_change_def)

lemma queues_ok_cong:
  "b_queues b' = b_queues b \<Longrightarrow> b_next b' = b_next b \<Longrightarrow> queues_ok b' = queues_ok b"
  by (simp add: queues_ok_def)

lemma spec_exec_queues_ok: "queues_ok b \<Longrightarrow> queues_ok (snd (spec_exec c b))"
proof (cases c)
  case (DoCreate qs i)
  assume ok: "queues_ok b"
  let ?b = "b\<lparr>b_queues := (b_queues b)(qs_name qs \<mapsto> \<lparr>queueId = b_next b, q_settings = qs\<rparr>),
                    b_next := b_next b + 1\<rparr>"
  have new: "b_next b \<noteq> 2 ^ 31 - 1 \<Longrightarrow> queues_ok ?b"
    using ok by (fastforce simp: queues_ok_def)
  have old: "b_queues b (qs_name qs) = Some q \<Longrightarrow>
      queues_ok (b\<lparr>b_queues := (b_queues b)(qs_name qs \<mapsto> q\<lparr>q_settings := qs\<rparr>)\<rparr>)" for q
    using ok by (fastforce simp: queues_ok_def)
  show ?thesis
    using ok new old queues_ok_cong [of "snd (spec_change Create (mk_sub (qs_name qs) []) i ?b)" ?b]
    by (simp add: DoCreate spec_create_def split: option.split)
next
  case (DoErase i)
  assume "queues_ok b"
  then show ?thesis
    by (auto simp: DoErase spec_erase_def queues_ok_def)
next
  case (DoChange a p i)
  assume "queues_ok b"
  then show ?thesis
    using queues_ok_cong [of "snd (spec_change a p i b)" b] by (simp add: DoChange)
qed

lemma spec_change_listeners_ok: "listeners_ok b \<Longrightarrow> listeners_ok (snd (spec_change a p i b))"
  by (auto simp: spec_change_def listeners_ok_def dest: spec_listener_name split: if_splits)

lemma spec_exec_listeners_ok: "listeners_ok b \<Longrightarrow> listeners_ok (snd (spec_exec c b))"
proof (cases c)
  case (DoCreate qs i)
  assume ok: "listeners_ok b"
  then have "listeners_ok (b\<lparr>b_queues := x, b_next := y\<rparr>)" "listeners_ok (b\<lparr>b_queues := x\<rparr>)" for x y
    by (simp_all add: listeners_ok_def)
  with ok show ?thesis
    by (simp add: DoCreate spec_create_def spec_change_listeners_ok split: option.split)
next
  case (DoErase i)
  assume "listeners_ok b"
  with DoErase show ?thesis by (auto simp: spec_erase_def listeners_ok_def)
qed (simp add: spec_change_listeners_ok)

lemma spec_listener_None: "spec_listener a p l = None \<longleftrightarrow> a = Unsubscribe"
  by (induction a p l rule: spec_listener.induct) auto

lemma subscribers_known_change:
  "subscribers_known b \<Longrightarrow> subscribers_known (snd (spec_change a p i b))"
  by (auto simp: spec_change_def subscribers_known_def)

lemma subscribers_known_exec: "subscribers_known b \<Longrightarrow> subscribers_known (snd (spec_exec c b))"
proof (cases c)
  case (DoCreate qs i)
  assume ok: "subscribers_known b"
  then have "subscribers_known (b\<lparr>b_queues := x, b_next := y\<rparr>)" "subscribers_known (b\<lparr>b_queues := x\<rparr>)"
    for x y by (simp_all add: subscribers_known_def)
  with ok show ?thesis
    by (simp add: DoCreate spec_create_def subscribers_known_change split: option.split)
next
  case (DoErase i)
  assume "subscribers_known b"
  with DoErase show ?thesis by (simp add: spec_erase_def subscribers_known_def)
qed (simp add: subscribers_known_change)

lemma omap_ok_add_listener [simp]: "omap_ok ls \<Longrightarrow> omap_ok (add_listener owner p i ls)"
  by (simp add: add_listener_def split: option.split)

lemma omap_ok_get_or: "sorted_tables s \<Longrightarrow> omap_ok (get_or [] (subscriptions s) q)"
  by (auto simp: sorted_tables_def get_or_def split: option.split)

text \<open>The tables and their keys.\<close>

definition tables_ok :: "('re, 'a) node_scheme \<Rightarrow> bool" where
  "tables_ok s \<longleftrightarrow> sorted_tables s \<and>
     (\<forall>n. queueIsExists s n \<longrightarrow> map_of (subscriptions s) n \<noteq> None)"

lemma tables_ok_sorted: "tables_ok s \<Longrightarrow> sorted_tables s"
  by (simp add: tables_ok_def)

lemma tables_ok_on_listeners:
  "(\<And>ls. omap_ok ls \<Longrightarrow> omap_ok (f ls)) \<Longrightarrow> tables_ok s \<Longrightarrow> tables_ok (on_listeners q f s)"
  using omap_ok_get_or [of s q]
  by (auto simp: tables_ok_def on_listeners_def sorted_tables_def queueIsExists_def split: if_splits)

lemma tables_ok_change [keeps]: "preserves tables_ok (changeSubscription a p i)"
  by (auto simp: preserves_def changeSubscription_def proc_defs tables_ok_on_listeners
      split: SubscribeActions.split)

lemma tables_ok_create_entry:
  assumes "tables_ok s" and "ub_exists (clients s) i"
  shows "tables_ok (snd (changeSubscription Create (mk_sub n []) i
           (s\<lparr>nextQueueId := k, queues := omap_insert n q (queues s)\<rparr>)))"
  using assms omap_ok_get_or [of s n]
  by (auto simp: changeSubscription_def proc_defs tables_ok_def on_listeners_def sorted_tables_def
      queueIsExists_def split: if_splits)

lemma tables_ok_createQueue [keeps]: "preserves tables_ok (createQueue qs i)"
proof
  fix s :: "('a, 'b) node_scheme"
  assume ok: "tables_ok s"
  show "tables_ok (snd (createQueue qs i s))"
  proof (cases "map_of (queues s) (qs_name qs)")
    case None
    with ok show ?thesis
      using tables_ok_create_entry [OF ok]
      by (simp add: createQueue_def take_queueId_def bind_def modify_def throw_def)
  next
    case (Some q)
    with ok show ?thesis
      by (auto simp: createQueue_def proc_defs tables_ok_def sorted_tables_def queueIsExists_def)
  qed
qed

lemma omap_ok_drop_queues:
  "omap_ok qs \<Longrightarrow>
   omap_ok (fold (\<lambda>kv qs. if drops i (snd kv) then omap_erase (fst kv) qs else qs) subs qs)"
  by (induction subs arbitrary: qs) auto

lemma tables_ok_eraseClient [keeps]: "preserves tables_ok (eraseClient i)"
proof
  fix s :: "('a, 'b) node_scheme"
  assume ok: "tables_ok s"
  then have "distinct (map fst (subscriptions s))"
    by (simp add: tables_ok_def sorted_tables_def omap_ok_distinct)
  with ok show "tables_ok (snd (eraseClient i s))"
    by (auto simp: eraseClient_def modify_def case_prod_unfold Let_def tables_ok_def sorted_tables_def
        queueIsExists_def erase_pass_listeners erase_pass_queues omap_ok_drop_queues map_of_drop_queues
        split: if_splits)
qed

lemma tables_ok_exec: "tables_ok s \<Longrightarrow> tables_ok (snd (node_exec c s))"
  by (cases c) (simp_all add: preservesD [OF tables_ok_change] preservesD [OF tables_ok_createQueue]
      preservesD [OF tables_ok_eraseClient])

interpretation broker_sim: simulation node_exec spec_exec broker_of tables_ok
  by unfold_locales (simp_all add: tables_ok_exec node_exec_refines tables_ok_sorted)

lemma node_ok_alt:
  "node_ok s \<longleftrightarrow> tables_ok s \<and> queues_ok (broker_of s) \<and> listeners_ok (broker_of s)"
  by (auto simp: node_ok_def tables_ok_def)

lemma node_ok_seq: "node_ok s \<Longrightarrow> node_ok (snd (run_seq node_exec cs s))"
  using broker_sim.invariant_transfer [of queues_ok s cs]
    broker_sim.invariant_transfer [of listeners_ok s cs] broker_sim.valid_seq [of s cs]
  by (simp add: node_ok_alt spec_exec_queues_ok spec_exec_listeners_ok)

section \<open>Delivery\<close>

text \<open>Is the listener a target of a message with this tag? The test throws where the tag expression
  does.\<close>

definition target_test :: "'re engine \<Rightarrow> string \<Rightarrow> Id \<times> QueueListener \<Rightarrow> error + bool" where
  "target_test eng tg kv =
     (if \<not> isowner (snd kv) \<or> issubscribed (snd kv) then tag_matches eng (ql_settings (snd kv)) tg
      else Inr False)"

definition queue_listeners :: "('re, 'a) node_scheme \<Rightarrow> string \<Rightarrow> listeners" where
  "queue_listeners s q = get_or [] (subscriptions s) q"

lemma publish_loop:
  assumes "tables_ok s" and "queueIsExists s (pub_queueName p)"
  shows "publish eng handler p d author s = for_each (queue_listeners s (pub_queueName p)) (publish_to eng handler p d) s"
proof -
  from assms obtain ls where "map_of (subscriptions s) (pub_queueName p) = Some ls" by (auto simp: tables_ok_def)
  then have "s\<lparr>subscriptions := omap_index [] (pub_queueName p) (subscriptions s)\<rparr> = s" by simp
  with assms(2) show ?thesis by (simp add: publish_def queue_listeners_def)
qed

text \<open>
  What the node relies on when it calls the \<open>DataHandler\<close> it was built with: a handler can hand a
  message that is not too long over to every reachable client, and reading the expression cache
  does not disturb it.
  What the node gives in return is proved once, for every such handler.
\<close>

locale delivery =
  fixes eng :: "'re engine"
    and handler :: "('re, 'a) node_scheme handler"
    and valid :: "('re, 'a) node_scheme \<Rightarrow> bool"
    and reachable :: "('re, 'a) node_scheme \<Rightarrow> Id \<Rightarrow> bool"
    and sent :: "('re, 'a) node_scheme \<Rightarrow> 'o list"
    and entry :: "PublishParams \<Rightarrow> byte list \<Rightarrow> Id \<Rightarrow> 'o"
    and fits :: "PublishParams \<Rightarrow> byte list \<Rightarrow> bool"
  assumes handler_sends: "valid s \<Longrightarrow> reachable s i \<Longrightarrow> fits p d \<Longrightarrow>
      \<exists>s'. handler p d i s = (Inr (), s') \<and> valid s' \<and> sent s' = sent s @ [entry p d i] \<and>
           reachable s' = reachable s"
    and valid_cache: "valid s \<Longrightarrow> cache_ok eng s"
    and cache_frame: "valid s \<Longrightarrow> cache_ok eng (s\<lparr>recache := c\<rparr>) \<Longrightarrow>
      valid (s\<lparr>recache := c\<rparr>) \<and> sent (s\<lparr>recache := c\<rparr>) = sent s \<and>
      reachable (s\<lparr>recache := c\<rparr>) = reachable s"
begin

lemma publish_to_one:
  fixes p :: PublishParams and d :: "byte list" and kv :: "Id \<times> QueueListener"
  defines "test \<equiv> target_test eng (pub_tag p) kv"
  assumes "valid s" and "test = Inr True \<Longrightarrow> reachable s (fst kv)" and "fits p d"
  shows "fst (publish_to eng handler p d kv s) = (case test of Inl e \<Rightarrow> Inl e | Inr _ \<Rightarrow> Inr ()) \<and>
      (valid (snd (publish_to eng handler p d kv s)) \<and>
       reachable (snd (publish_to eng handler p d kv s)) = reachable s) \<and>
      sent (snd (publish_to eng handler p d kv s)) =
        sent s @ (if test = Inr True then [entry p d (fst kv)] else [])"
proof -
  let ?ql = "ql_settings (snd kv)"
  obtain c where ct: "checkTag eng ?ql (pub_tag p) s = (tag_matches eng ?ql (pub_tag p), s\<lparr>recache := c\<rparr>)"
    and c: "cache_ok eng (s\<lparr>recache := c\<rparr>)"
    using checkTag_run [OF valid_cache [OF assms(2)]] by metis
  note frame = cache_frame [OF assms(2) c]
  have tagless: "sub_tag ?ql = [] \<Longrightarrow> tag_matches eng ?ql (pub_tag p) = Inr True" by (simp add: tag_matches_def)
  show ?thesis
  proof (cases "test = Inr True")
    case True
    from handler_sends [OF assms(2) assms(3) [OF True] assms(4)] obtain s1 where
      s1: "handler p d (fst kv) s = (Inr (), s1)" "valid s1" "sent s1 = sent s @ [entry p d (fst kv)]"
      "reachable s1 = reachable s" by blast
    from handler_sends [of "s\<lparr>recache := c\<rparr>" "fst kv" p d] frame assms(3) [OF True] assms(4) obtain s2 where
      s2: "handler p d (fst kv) (s\<lparr>recache := c\<rparr>) = (Inr (), s2)" "valid s2"
      "sent s2 = sent s @ [entry p d (fst kv)]" "reachable s2 = reachable s" by auto
    from True show ?thesis
      using assms(2) ct frame s1 s2 tagless
      by (auto simp: test_def publish_to_def target_test_def ret_def bind_def split: sum.split if_splits)
  next
    case False
    then show ?thesis
      using assms(2) ct frame tagless
      by (auto simp: test_def publish_to_def target_test_def ret_def bind_def split: sum.split)
  qed
qed

lemma publish_select:
  fixes d :: "byte list" and author :: Id
  assumes "tables_ok s" and "valid s" and "queueIsExists s (pub_queueName p)" and "fits p d"
    and reach: "\<And>kv. kv \<in> set (queue_listeners s (pub_queueName p)) \<Longrightarrow>
      target_test eng (pub_tag p) kv = Inr True \<Longrightarrow> reachable s (fst kv)"
  defines "sel \<equiv> select (target_test eng (pub_tag p)) (queue_listeners s (pub_queueName p))"
    and "r \<equiv> publish eng handler p d author s"
  shows "fst r = fst sel \<and> (valid (snd r) \<and> reachable (snd r) = reachable s) \<and>
         sent (snd r) = sent s @ map (\<lambda>kv. entry p d (fst kv)) (snd sel)"
proof -
  have "r = for_each (queue_listeners s (pub_queueName p)) (publish_to eng handler p d) s"
    unfolding r_def by (rule publish_loop [OF assms(1,3)])
  moreover have "fst (publish_to eng handler p d kv s') =
        (case target_test eng (pub_tag p) kv of Inl e \<Rightarrow> Inl e | Inr _ \<Rightarrow> Inr ()) \<and>
      (valid (snd (publish_to eng handler p d kv s')) \<and>
       reachable (snd (publish_to eng handler p d kv s')) = reachable s) \<and>
      sent (snd (publish_to eng handler p d kv s')) =
        sent s' @ (if target_test eng (pub_tag p) kv = Inr True then [entry p d (fst kv)] else [])"
    if "kv \<in> set (queue_listeners s (pub_queueName p))" "valid s' \<and> reachable s' = reachable s" for kv s'
    using publish_to_one [of s' p kv d] reach that assms(4) by auto
  ultimately show ?thesis
    unfolding sel_def using assms(2) by (simp only:) (rule for_each_select, auto)
qed

end

text \<open>A node whose handler records what it is given.\<close>

record 're observed_node = "'re node" +
  sent_log :: "(PublishParams \<times> byte list \<times> Id) list"

definition record_send :: "('re, 'a) observed_node_scheme handler" where
  "record_send p d i = modify (\<lambda>s. s\<lparr>sent_log := sent_log s @ [(p, d, i)]\<rparr>)"

definition only_sent :: "('re, 'a) observed_node_scheme \<Rightarrow> ('re, 'a) observed_node_scheme \<Rightarrow> bool" where
  "only_sent s s' \<longleftrightarrow> s' = s\<lparr>recache := recache s', sent_log := sent_log s'\<rparr>"

lemma only_sent_step [simp]:
  "only_sent s s' \<Longrightarrow> only_sent s (s'\<lparr>recache := c\<rparr>)"
  "only_sent s s' \<Longrightarrow> only_sent s (s'\<lparr>sent_log := l\<rparr>)"
  "only_sent s s"
  by (cases s; cases s'; simp add: only_sent_def)+

interpretation recorded: delivery eng record_send "\<lambda>s'. cache_ok eng s' \<and> only_sent s s'" "\<lambda>s' i. True"
    sent_log "\<lambda>p d i. (p, d, i)" "\<lambda>p d. True"
  for eng and s :: "('re, 'a) observed_node_scheme"
  by unfold_locales (auto simp: record_send_def modify_def cache_ok_def)

text \<open>Who is to receive a message, in terms of the abstract broker.\<close>

definition spec_receives :: "'re engine \<Rightarrow> broker \<Rightarrow> PublishParams \<Rightarrow> Id \<Rightarrow> bool" where
  "spec_receives eng b p i \<longleftrightarrow>
     (\<exists>l. b_listeners b (pub_queueName p) i = Some l \<and> target_test eng (pub_tag p) (i, l) = Inr True)"

definition spec_rejected :: "'re engine \<Rightarrow> broker \<Rightarrow> PublishParams \<Rightarrow> Id \<Rightarrow> error \<Rightarrow> bool" where
  "spec_rejected eng b p i e \<longleftrightarrow>
     (\<exists>l. b_listeners b (pub_queueName p) i = Some l \<and> target_test eng (pub_tag p) (i, l) = Inl e)"

lemma listener_in:
  assumes "tables_ok s"
  shows "(i, l) \<in> set (queue_listeners s q) \<longleftrightarrow> b_listeners (broker_of s) q i = Some l"
  using std_map.in_entries [OF omap_ok_get_or [OF tables_ok_sorted [OF assms], of q]]
  by (simp add: queue_listeners_def)

lemma sorted_ids_filter: "omap_ok m \<Longrightarrow> sorted_wrt (<) (map fst (filter P m))"
  using omap_ok_filter [of m P] by (simp add: omap_ok_def)

lemma broker_of_only_sent: "only_sent s s' \<Longrightarrow> broker_of s' = broker_of s"
  by (cases s; cases s'; simp add: only_sent_def broker_of_def)

lemma publish_recorded:
  assumes "tables_ok s" and "cache_ok eng s" and "queueIsExists s (pub_queueName p)"
    and "select (target_test eng (pub_tag p)) (queue_listeners s (pub_queueName p)) = (r, kvs)"
  shows "fst (publish eng record_send p d author s) = r \<and>
         sent_log (snd (publish eng record_send p d author s)) = sent_log s @ map (\<lambda>i. (p, d, i)) (map fst kvs) \<and>
         broker_of (snd (publish eng record_send p d author s)) = broker_of s"
proof -
  let ?s = "snd (publish eng record_send p d author s)"
  have sel: "fst (publish eng record_send p d author s) = r \<and> ((cache_ok eng ?s \<and> only_sent s ?s) \<and> True) \<and>
      sent_log ?s = sent_log s @ map (\<lambda>kv. (p, d, fst kv)) kvs"
    using recorded.publish_select [of s eng s p d author] assms by simp
  then have "broker_of ?s = broker_of s" using broker_of_only_sent by blast
  with sel show ?thesis by (simp add: comp_def)
qed

section \<open>Properties\<close>

text \<open>C3: the node implements the abstract broker. Over any sequence of create, subscribe,
  unsubscribe and erase requests, every request returns what the specification says, errors
  included, the tables stand for the specified broker at the end, and the node's invariant
  (sorted maps, names that agree with their keys, distinct queue identifiers) still holds.\<close>

theorem node_refines_broker:
  assumes "node_ok s"
  shows "fst (run_seq node_exec cs s) = fst (run_seq spec_exec cs (broker_of s)) \<and>
         broker_of (snd (run_seq node_exec cs s)) = snd (run_seq spec_exec cs (broker_of s)) \<and>
         node_ok (snd (run_seq node_exec cs s))"
  using broker_sim.refines_seq [of s cs] node_ok_seq [OF assms, of cs] assms
  unfolding node_ok_alt [of s] by blast

definition fresh_node :: "Id list \<Rightarrow> 're observed_node" where
  "fresh_node is =
     \<lparr>recache = [], consumerId = (\<lambda>_. DefaultId), nextConsumersId = 0, eventHandlers = [],
      queue2handler = [], clients = map (\<lambda>i. (i, \<lparr>user_login = [], user_id = i\<rparr>)) is,
      queues = [], nextQueueId = 0, subscriptions = [], sent_log = []\<rparr>"

lemma fresh_node_sel [simp]:
  "recache (fresh_node is) = []" "queues (fresh_node is) = []" "subscriptions (fresh_node is) = []"
  "nextQueueId (fresh_node is) = 0" "sent_log (fresh_node is) = []"
  "ub_exists (clients (fresh_node is)) i \<longleftrightarrow> i \<in> set is"
  by (auto simp: fresh_node_def ub_exists_def map_of_eq_None_iff image_iff)

lemma node_ok_fresh [simp]: "node_ok (fresh_node is)"
  by (simp add: node_ok_def sorted_tables_def queues_ok_def listeners_ok_def queueIsExists_def get_or_def)

lemma tables_ok_fresh: "tables_ok (fresh_node is)"
  using node_ok_fresh unfolding node_ok_alt by blast

lemma cache_ok_fresh [simp]: "cache_ok eng (fresh_node is)"
  by (simp add: cache_ok_def)

theorem node_refines_broker_witness:
  "fst (run_seq node_exec
     [DoCreate \<lparr>qs_name = ''q''\<rparr> 1, DoCreate \<lparr>qs_name = ''p''\<rparr> 9,
      DoChange Unsubscribe (mk_sub ''x'' []) 9] (fresh_node [1, 2] :: string observed_node)) =
   [Inr (), Inl (Throw (ClientNotExists 9)), Inr ()]"
  using node_refines_broker [of "fresh_node [1, 2] :: string observed_node"
     "[DoCreate \<lparr>qs_name = ''q''\<rparr> 1, DoCreate \<lparr>qs_name = ''p''\<rparr> 9,
      DoChange Unsubscribe (mk_sub ''x'' []) 9]"]
  by (simp add: spec_create_def spec_change_def)

lemma listener_tested:
  assumes "tables_ok s" and "\<And>i e. \<not> spec_rejected eng (broker_of s) p i e"
    and "kv \<in> set (queue_listeners s (pub_queueName p))"
  shows "target_test eng (pub_tag p) kv = Inr (target_test eng (pub_tag p) kv = Inr True)"
proof -
  have "target_test eng (pub_tag p) kv \<noteq> Inl e" for e
    using assms(2) [of "fst kv" e] assms(3) listener_in [OF assms(1), of "fst kv" "snd kv"]
    unfolding spec_rejected_def by force
  then show ?thesis by (cases "target_test eng (pub_tag p) kv") auto
qed

lemma select_listeners_total:
  assumes "tables_ok s" and "\<And>i e. \<not> spec_rejected eng (broker_of s) p i e"
  defines "P \<equiv> \<lambda>kv. target_test eng (pub_tag p) kv = Inr True"
  shows "select (target_test eng (pub_tag p)) (queue_listeners s (pub_queueName p)) =
           (Inr (), filter P (queue_listeners s (pub_queueName p)))"
  unfolding P_def by (rule select_total) (rule listener_tested [OF assms(1,2)])

lemma receivers_of:
  assumes "tables_ok s"
  shows "fst ` {kv \<in> set (queue_listeners s (pub_queueName p)). target_test eng (pub_tag p) kv = Inr True} =
         {i. spec_receives eng (broker_of s) p i}"
  using listener_in [OF assms] by (force simp: spec_receives_def)

text \<open>C12: a message published to an existing queue goes to exactly its targets: the listeners of the
  queue, owners only if they also subscribed, whose tag expression matches the message's tag. Each
  gets it once, in increasing order of the identifiers, with the parameters and the bytes it was
  published with, and the broker itself is unchanged. (No expression is rejected here; the next
  property says what happens if one is.)\<close>

theorem publish_delivers:
  assumes "node_ok s" and "cache_ok eng s" and "queueIsExists s (pub_queueName p)"
    and "\<And>i e. \<not> spec_rejected eng (broker_of s) p i e"
  shows "\<exists>ids. sorted_wrt (<) ids \<and> set ids = {i. spec_receives eng (broker_of s) p i} \<and>
           fst (publish eng record_send p d author s) = Inr () \<and>
           sent_log (snd (publish eng record_send p d author s)) = sent_log s @ map (\<lambda>i. (p, d, i)) ids \<and>
           broker_of (snd (publish eng record_send p d author s)) = broker_of s"
proof -
  have ok: "tables_ok s" using assms(1) by (simp add: node_ok_alt)
  let ?kvs = "filter (\<lambda>kv. target_test eng (pub_tag p) kv = Inr True) (queue_listeners s (pub_queueName p))"
  have "sorted_wrt (<) (map fst ?kvs)"
    using sorted_ids_filter [OF omap_ok_get_or [OF tables_ok_sorted [OF ok]]]
    by (simp add: queue_listeners_def)
  moreover have "set (map fst ?kvs) = {i. spec_receives eng (broker_of s) p i}"
    by (simp add: receivers_of [OF ok])
  ultimately show ?thesis
    using publish_recorded [OF ok assms(2,3) select_listeners_total [OF ok assms(4)]] by metis
qed

text \<open>A broker with an owner who only created the queue and two subscribers with tags.\<close>

definition sample_node :: "string \<Rightarrow> string observed_node" where
  "sample_node tg = snd (run_seq node_exec
     [DoCreate \<lparr>qs_name = ''q''\<rparr> 1, DoChange Subscribe (mk_sub ''q'' ''a'') 3,
      DoChange Subscribe (mk_sub ''q'' tg) 2] (fresh_node [1, 2, 3]))"

lemma sample_node_run [simp]:
  "queues (sample_node tg) = [(''q'', \<lparr>queueId = 0, q_settings = \<lparr>qs_name = ''q''\<rparr>\<rparr>)]"
  "subscriptions (sample_node tg) =
     [(''q'', [(1, \<lparr>isowner = True, issubscribed = False, ql_settings = mk_sub ''q'' []\<rparr>),
              (2, \<lparr>isowner = False, issubscribed = False, ql_settings = mk_sub ''q'' tg\<rparr>),
              (3, \<lparr>isowner = False, issubscribed = False, ql_settings = mk_sub ''q'' ''a''\<rparr>)])]"
  "recache (sample_node tg) = []" "sent_log (sample_node tg) = []" "nextQueueId (sample_node tg) = 1"
  by (simp_all add: sample_node_def Let_def case_prod_unfold createQueue_def changeSubscription_def
      take_queueId_def proc_defs on_listeners_def add_listener_def get_or_def omap_insert_def
      queueIsExists_def word_le_nat_alt word_less_nat_alt)

lemma node_ok_sample [simp]: "node_ok (sample_node tg)"
  unfolding sample_node_def by (rule node_ok_seq) simp

theorem publish_delivers_witness:
  "\<exists>ids. sorted_wrt (<) ids \<and> set ids = {3} \<and>
     sent_log (snd (publish literal_engine record_send (mk_pub ''q'' ''a'') [7] 1 (sample_node ''b''))) =
     map (\<lambda>i. (mk_pub ''q'' ''a'', [7], i)) ids"
proof -
  have none: "\<not> spec_rejected literal_engine (broker_of (sample_node ''b'')) (mk_pub ''q'' ''a'') i e" for i e
    by (auto simp: spec_rejected_def get_or_def target_test_def tag_matches_def literal_engine_def
        split: if_splits)
  have "{i. spec_receives literal_engine (broker_of (sample_node ''b'')) (mk_pub ''q'' ''a'') i} = {3}"
    by (auto simp: spec_receives_def get_or_def target_test_def tag_matches_def literal_engine_def
        split: if_splits)
  then show ?thesis
    using publish_delivers [of "sample_node ''b''" literal_engine "mk_pub ''q'' ''a''" "[7]" 1] none
    by (auto simp: queueIsExists_def cache_ok_def)
qed

text \<open>C37: one rejected tag expression stops the delivery: when a listener's expression does not
  compile or match without error, \<open>publish\<close> throws, the targets with smaller identifiers have got
  the message and everybody after the listener gets nothing.\<close>

theorem publish_stops_at_bad_tag:
  assumes "node_ok s" and "cache_ok eng s" and "queueIsExists s (pub_queueName p)"
    and "spec_rejected eng (broker_of s) p bad e"
    and "\<And>i e. i < bad \<Longrightarrow> \<not> spec_rejected eng (broker_of s) p i e"
  shows "\<exists>ids. sorted_wrt (<) ids \<and> set ids = {i. spec_receives eng (broker_of s) p i \<and> i < bad} \<and>
           fst (publish eng record_send p d author s) = Inl e \<and>
           sent_log (snd (publish eng record_send p d author s)) = sent_log s @ map (\<lambda>i. (p, d, i)) ids"
proof -
  let ?test = "target_test eng (pub_tag p)" and ?ls = "queue_listeners s (pub_queueName p)"
  have ok: "tables_ok s" using assms(1) by (simp add: node_ok_alt)
  have sorted: "omap_ok ?ls"
    using omap_ok_get_or [OF tables_ok_sorted [OF ok]] by (simp add: queue_listeners_def)
  obtain l where l: "(bad, l) \<in> set ?ls" and bad: "?test (bad, l) = Inl e"
    using assms(4) by (auto simp: spec_rejected_def listener_in [OF ok] simp del: broker_of_sel)
  from l obtain ys zs where split: "?ls = ys @ (bad, l) # zs" by (auto simp: in_set_conv_decomp)
  have before: "y \<in> set ys \<longleftrightarrow> y \<in> set ?ls \<and> fst y < bad" for y
    using sorted unfolding split omap_ok_def by (auto simp: sorted_wrt_append)
  have "?test y = Inr (?test y = Inr True)" if "y \<in> set ys" for y
  proof (cases "?test y")
    case (Inl e')
    then have "spec_rejected eng (broker_of s) p (fst y) e'"
      using that before listener_in [OF ok, of "fst y" "snd y"] by (auto simp: spec_rejected_def)
    with assms(5) that before show ?thesis by blast
  qed auto
  then have "select ?test ?ls = (Inl e, filter (\<lambda>y. ?test y = Inr True) ys)"
    unfolding split using bad by (intro select_stops)
  note sel = publish_recorded [OF ok assms(2,3) this, of d author]
  have "sorted_wrt (<) (map fst (filter (\<lambda>y. ?test y = Inr True) ys))"
    using sorted sorted_ids_filter unfolding split by (auto simp: omap_ok_def sorted_wrt_append)
  moreover have "set (map fst (filter (\<lambda>y. ?test y = Inr True) ys)) =
      {i. spec_receives eng (broker_of s) p i \<and> i < bad}"
    using receivers_of [OF ok, of p eng] before by force
  ultimately show ?thesis using sel by blast
qed

theorem publish_stops_at_bad_tag_witness:
  "fst (publish literal_engine record_send (mk_pub ''q'' ''a'') [7] 1 (sample_node ''('')) =
     Inl (Throw RegexError) \<and>
   sent_log (snd (publish literal_engine record_send (mk_pub ''q'' ''a'') [7] 1 (sample_node ''(''))) = []"
proof -
  let ?b = "broker_of (sample_node ''('')" and ?p = "mk_pub ''q'' ''a''"
  have bad: "spec_rejected literal_engine ?b ?p 2 (Throw RegexError)"
    by (auto simp: spec_rejected_def get_or_def target_test_def tag_matches_def literal_engine_def)
  have below: "\<not> spec_rejected literal_engine ?b ?p i e \<and> \<not> spec_receives literal_engine ?b ?p i"
    if "i < 2" for i e
    using that by (auto simp: spec_rejected_def spec_receives_def get_or_def target_test_def word_less_nat_alt
        split: if_splits)
  have empty: "{i. spec_receives literal_engine ?b ?p i \<and> i < 2} = {}" using below by blast
  have "queueIsExists (sample_node ''('') (pub_queueName ?p)" "cache_ok literal_engine (sample_node ''('')"
    by (simp_all add: queueIsExists_def cache_ok_def)
  note stops = publish_stops_at_bad_tag [OF node_ok_sample this(2,1) bad, of "[7]" 1, unfolded empty]
  have "i < 2 \<Longrightarrow> \<not> spec_rejected literal_engine ?b ?p i e" for i e using below by blast
  from stops [OF this] show ?thesis by auto
qed

section \<open>Subscriptions over time\<close>

text \<open>The requests that change what a client listens to on a queue.\<close>

fun touches :: "string \<Rightarrow> Id \<Rightarrow> command \<Rightarrow> bool" where
  "touches q i (DoCreate qs j) \<longleftrightarrow> False"
| "touches q i (DoChange a p j) \<longleftrightarrow> j = i \<and> sub_queueName p = q \<and> a \<noteq> Create"
| "touches q i (DoErase j) \<longleftrightarrow> j = i"

text \<open>A request of another client, or of this one for another queue or as creator, gives this one at
  most an owner's entry without subscription.\<close>

definition quiet :: "QueueListener option \<Rightarrow> bool" where
  "quiet l \<longleftrightarrow> (\<forall>x. l = Some x \<longrightarrow> isowner x \<and> \<not> issubscribed x)"

lemma spec_change_other:
  "\<not> (j = i \<and> sub_queueName p = q) \<Longrightarrow> b_listeners (snd (spec_change a p j b)) q i = b_listeners b q i"
  by (auto simp: spec_change_def)

lemma spec_change_create:
  "b_listeners (snd (spec_change Create p j b)) q i = b_listeners b q i \<or>
   b_listeners b q i = None \<and> quiet (b_listeners (snd (spec_change Create p j b)) q i)"
  by (cases "b_listeners b q i") (auto simp: spec_change_def quiet_def)

lemma spec_exec_untouched:
  "\<not> touches q i c \<Longrightarrow> b_listeners (snd (spec_exec c b)) q i = b_listeners b q i \<or>
   b_listeners b q i = None \<and> quiet (b_listeners (snd (spec_exec c b)) q i)"
proof (cases c)
  case (DoCreate qs j)
  then show ?thesis
    using spec_change_create [of "mk_sub (qs_name qs) []" j "b\<lparr>b_queues := x, b_next := y\<rparr>" q i for x y]
    by (auto simp: spec_create_def split: option.split)
next
  case (DoChange a p j)
  assume "\<not> touches q i c"
  with DoChange show ?thesis
    using spec_change_create [of p j b q i] spec_change_other [of j i p q a b] by (cases a) auto
qed (auto simp: spec_erase_def)

lemma untouched_seq:
  assumes "tables_ok s" and "\<And>c. c \<in> set cs \<Longrightarrow> \<not> touches q i c"
  shows "b_listeners (broker_of s) q i = Some l \<Longrightarrow>
      b_listeners (broker_of (snd (run_seq node_exec cs s))) q i = Some l"
    and "quiet (b_listeners (broker_of s) q i) \<Longrightarrow>
      quiet (b_listeners (broker_of (snd (run_seq node_exec cs s))) q i)"
proof -
  have seq: "broker_of (snd (run_seq node_exec cs s)) = snd (run_seq spec_exec cs (broker_of s))"
    using broker_sim.refines_seq [OF assms(1)] by blast
  show "b_listeners (broker_of s) q i = Some l \<Longrightarrow>
      b_listeners (broker_of (snd (run_seq node_exec cs s))) q i = Some l"
    unfolding seq by (rule run_seq_invariant) (metis assms(2) spec_exec_untouched option.distinct(1), assumption)
  show "quiet (b_listeners (broker_of s) q i) \<Longrightarrow>
      quiet (b_listeners (broker_of (snd (run_seq node_exec cs s))) q i)"
    unfolding seq by (rule run_seq_invariant) (metis assms(2) spec_exec_untouched, assumption)
qed

lemma recache_change [simp]: "recache (snd (changeSubscription a p i s)) = recache s"
  by (simp add: changeSubscription_def proc_defs on_listeners_def split: SubscribeActions.split)

lemma recache_exec: "recache (snd (node_exec c s)) = recache s"
  by (cases c)
     (simp_all add: createQueue_def take_queueId_def eraseClient_def proc_defs case_prod_unfold Let_def
        split: option.split)

lemma cache_ok_seq: "cache_ok eng s \<Longrightarrow> cache_ok eng (snd (run_seq node_exec cs s))"
  by (rule run_seq_invariant) (simp_all add: cache_ok_def recache_exec)

lemma publish_received:
  assumes "tables_ok s" and "cache_ok eng s" and "queueIsExists s (pub_queueName p)"
    and "\<And>i e. \<not> spec_rejected eng (broker_of s) p i e" and "spec_receives eng (broker_of s) p i"
  shows "(p, d, i) \<in> set (sent_log (snd (publish eng record_send p d author s)))"
  using publish_recorded [OF assms(1-3) select_listeners_total [OF assms(1,4)], of d author]
    receivers_of [OF assms(1), of p eng] assms(5) by force

lemma publish_new_receivers:
  assumes "tables_ok s" and "cache_ok eng s"
  obtains ids where "sent_log (snd (publish eng record_send p d author s)) = sent_log s @ map (\<lambda>i. (p, d, i)) ids"
    and "set ids \<subseteq> {i. spec_receives eng (broker_of s) p i}"
proof (cases "queueIsExists s (pub_queueName p)")
  case True
  obtain r kvs where sel:
    "select (target_test eng (pub_tag p)) (queue_listeners s (pub_queueName p)) = (r, kvs)" by fastforce
  then have "set kvs \<subseteq> {kv \<in> set (queue_listeners s (pub_queueName p)). target_test eng (pub_tag p) kv = Inr True}"
    using select_subset [of "target_test eng (pub_tag p)" "queue_listeners s (pub_queueName p)"] by simp
  then have "set (map fst kvs) \<subseteq> {i. spec_receives eng (broker_of s) p i}"
    using receivers_of [OF assms(1), of p eng] by auto
  then show thesis using that [of "map fst kvs"] publish_recorded [OF assms True sel, of d author] by simp
next
  case False
  then show thesis using that [of "[]"] by (simp add: publish_def ret_def)
qed

lemma quiet_receives_nothing:
  "quiet (b_listeners b (pub_queueName p) i) \<Longrightarrow> \<not> spec_receives eng b p i"
  by (auto simp: quiet_def spec_receives_def target_test_def)



text \<open>The two ways to stop listening to a queue.\<close>

fun leaves :: "string \<Rightarrow> Id \<Rightarrow> command \<Rightarrow> bool" where
  "leaves q i (DoCreate qs j) \<longleftrightarrow> False"
| "leaves q i (DoChange a p j) \<longleftrightarrow> j = i \<and> sub_queueName p = q \<and> a = Unsubscribe"
| "leaves q i (DoErase j) \<longleftrightarrow> j = i"

lemma leaves_quiet:
  "leaves q i c \<Longrightarrow> b_members b i \<Longrightarrow> b_queues b q \<noteq> None \<Longrightarrow>
   quiet (b_listeners (snd (spec_exec c b)) q i)"
  by (cases c) (auto simp: quiet_def spec_change_def spec_erase_def)

text \<open>C22: who left gets nothing. After a client unsubscribed from an existing queue or was erased,
  and until it subscribes again, no message of that queue is sent to it, whatever the others do
  and even if it creates the queue anew.\<close>

theorem left_is_silent:
  assumes "node_ok s" and "cache_ok eng s" and "ub_exists (clients s) i" and "queueIsExists s q"
    and "leaves q i c" and "\<And>c. c \<in> set cs \<Longrightarrow> \<not> touches q i c"
    and s': "s' = snd (run_seq node_exec (c # cs) s)"
  shows "\<exists>ids. sent_log (snd (publish eng record_send (mk_pub q tg) d author s')) =
           sent_log s' @ map (\<lambda>j. (mk_pub q tg, d, j)) ids \<and> i \<notin> set ids"
proof -
  have ok: "tables_ok s" using assms(1) by (simp add: node_ok_alt)
  have s'_seq: "s' = snd (run_seq node_exec cs (snd (node_exec c s)))" unfolding s' by simp
  have "quiet (b_listeners (broker_of (snd (node_exec c s))) q i)"
    unfolding broker_sim.same_state [OF ok] using leaves_quiet [OF assms(5)] assms(3,4)
    by (simp add: queueIsExists_def)
  then have "quiet (b_listeners (broker_of s') q i)"
    unfolding s'_seq using untouched_seq(2) [OF tables_ok_exec [OF ok] assms(6)] by blast
  then have "\<not> spec_receives eng (broker_of s') (mk_pub q tg) i"
    by (intro quiet_receives_nothing) simp
  moreover have "tables_ok s'" "cache_ok eng s'"
    unfolding s' using broker_sim.valid_seq [OF ok] cache_ok_seq [OF assms(2)] by blast+
  then obtain ids where "sent_log (snd (publish eng record_send (mk_pub q tg) d author s')) =
      sent_log s' @ map (\<lambda>j. (mk_pub q tg, d, j)) ids"
    and "set ids \<subseteq> {j. spec_receives eng (broker_of s') (mk_pub q tg) j}"
    by (rule publish_new_receivers)
  ultimately show ?thesis by blast
qed

theorem left_is_silent_witness:
  "\<exists>ids. sent_log (snd (publish literal_engine record_send (mk_pub ''q'' ''a'') [7] 1
       (snd (run_seq node_exec [DoErase 3, DoCreate \<lparr>qs_name = ''q''\<rparr> 2] (sample_node ''b''))))) =
     map (\<lambda>j. (mk_pub ''q'' ''a'', [7], j)) ids \<and> 3 \<notin> set ids"
proof -
  let ?s = "snd (run_seq node_exec [DoErase 3, DoCreate \<lparr>qs_name = ''q''\<rparr> 2] (sample_node ''b''))"
  have "sent_log ?s = []" "ub_exists (clients (sample_node ''b'')) 3"
    by (simp_all add: sample_node_def createQueue_def changeSubscription_def eraseClient_def take_queueId_def
        proc_defs on_listeners_def case_prod_unfold Let_def split: option.split)
  then show ?thesis
    using left_is_silent [of "sample_node ''b''" literal_engine 3 "''q''" "DoErase 3"
        "[DoCreate \<lparr>qs_name = ''q''\<rparr> 2]" ?s "''a''" "[7]" 1]
    by (simp add: cache_ok_def queueIsExists_def)
qed

text \<open>When the server listens to a queue it does not own, the queue goes as soon as any one of
  its listeners goes: the owner and the other subscribers stay in the listener map of a queue that
  no longer exists, and messages published to it reach nobody.\<close>

theorem erase_drops_shared_queue:
  assumes "node_ok s" and "b_listeners (broker_of s) q ServerID = Some l" and "\<not> isowner l"
    and "b_listeners (broker_of s) q i \<noteq> None" and "i \<noteq> ServerID"
  shows "\<not> queueIsExists (snd (eraseClient i s)) q \<and>
         (\<forall>j. j \<noteq> i \<longrightarrow> b_listeners (broker_of (snd (eraseClient i s))) q j = b_listeners (broker_of s) q j) \<and>
         publish eng handler (mk_pub q tg) d author (snd (eraseClient i s)) = (Inr (), snd (eraseClient i s))"
proof -
  have "sorted_tables s" using assms(1) by (simp add: node_ok_def)
  note after = eraseClient_refines(2) [OF this, of i]
  have "b_queues (broker_of (snd (eraseClient i s))) q = None"
    unfolding after using assms(2-5) by (auto simp: spec_erase_def spec_orphaned_def)
  then have gone: "\<not> queueIsExists (snd (eraseClient i s)) q" by (simp add: queueIsExists_def)
  moreover have "\<forall>j. j \<noteq> i \<longrightarrow> b_listeners (broker_of (snd (eraseClient i s))) q j = b_listeners (broker_of s) q j"
    unfolding after by (simp add: spec_erase_def)
  ultimately show ?thesis by (simp add: publish_def ret_def)
qed

text \<open>An owner, a subscriber, and the server as a listener.\<close>

definition shared_node :: "string observed_node" where
  "shared_node = snd (run_seq node_exec
     [DoCreate \<lparr>qs_name = ''q''\<rparr> 1, DoChange Subscribe (mk_sub ''q'' []) 2,
      DoChange Subscribe (mk_sub ''q'' []) ServerID] (fresh_node [1, 2, 3, ServerID]))"

lemma shared_node_ok [simp]: "node_ok shared_node"
  unfolding shared_node_def by (rule node_ok_seq) simp

lemma shared_node_listeners:
  "b_listeners (broker_of shared_node) ''q'' =
     [1 \<mapsto> \<lparr>isowner = True, issubscribed = False, ql_settings = mk_sub ''q'' []\<rparr>,
      2 \<mapsto> \<lparr>isowner = False, issubscribed = False, ql_settings = mk_sub ''q'' []\<rparr>,
      ServerID \<mapsto> \<lparr>isowner = False, issubscribed = False, ql_settings = mk_sub ''q'' []\<rparr>]"
  unfolding shared_node_def
    conjunct2 [OF broker_sim.refines_seq [OF tables_ok_fresh]]
  by (auto simp: spec_create_def spec_change_def get_or_def fun_eq_iff ServerID_def)

theorem erase_drops_shared_queue_witness:
  "\<not> queueIsExists (snd (eraseClient 2 shared_node)) ''q'' \<and>
   b_listeners (broker_of (snd (eraseClient 2 shared_node))) ''q'' 1 =
     Some \<lparr>isowner = True, issubscribed = False, ql_settings = mk_sub ''q'' []\<rparr>"
  using erase_drops_shared_queue [of shared_node "''q''" _ 2] shared_node_listeners
  by (simp add: ServerID_def del: broker_of_sel)

text \<open>Re-creating such a queue makes a second owner: the listener map of the old queue survives,
  the old owner keeps the flag, and the client that creates the queue again gets it too.\<close>

theorem recreated_queue_has_two_owners:
  assumes "\<not> queueIsExists s q" and "b_listeners (broker_of s) q i = Some l" and "isowner l"
    and "ub_exists (clients s) j" and "b_listeners (broker_of s) q j = None"
    and "nextQueueId s \<noteq> 2 ^ 31 - 1"
  shows "\<exists>l' l''. i \<noteq> j \<and>
           b_listeners (broker_of (snd (createQueue \<lparr>qs_name = q\<rparr> j s))) q i = Some l' \<and> isowner l' \<and>
           b_listeners (broker_of (snd (createQueue \<lparr>qs_name = q\<rparr> j s))) q j = Some l'' \<and> isowner l''"
  unfolding createQueue_refines using assms
  by (auto simp: spec_create_def spec_change_def queueIsExists_def)

theorem recreated_queue_has_two_owners_witness:
  "\<exists>l' l''. b_listeners (broker_of (snd (createQueue \<lparr>qs_name = ''q''\<rparr> 3 (snd (eraseClient 2 shared_node))))) ''q'' 1 =
       Some l' \<and> isowner l' \<and>
     b_listeners (broker_of (snd (createQueue \<lparr>qs_name = ''q''\<rparr> 3 (snd (eraseClient 2 shared_node))))) ''q'' 3 =
       Some l'' \<and> isowner l''"
proof -
  let ?s = "snd (eraseClient 2 shared_node)"
  have "sorted_tables shared_node" using shared_node_ok by (simp add: node_ok_def)
  note after = eraseClient_refines(2) [OF this, of 2]
  have "b_queues (broker_of ?s) ''q'' = None"
    unfolding after by (simp add: spec_erase_def spec_orphaned_def shared_node_listeners ServerID_def del: broker_of_sel)
  then have "\<not> queueIsExists ?s ''q''" by (simp add: queueIsExists_def)
  moreover have "b_listeners (broker_of ?s) ''q'' 1 =
      Some \<lparr>isowner = True, issubscribed = False, ql_settings = mk_sub ''q'' []\<rparr>"
    "b_listeners (broker_of ?s) ''q'' 3 = None"
    unfolding after by (simp_all add: spec_erase_def shared_node_listeners ServerID_def del: broker_of_sel)
  moreover have "ub_exists (clients ?s) 3 \<and> nextQueueId ?s = 1"
    by (simp add: shared_node_def createQueue_def changeSubscription_def eraseClient_def take_queueId_def
        proc_defs on_listeners_def case_prod_unfold Let_def queueIsExists_def split: option.split)
  ultimately show ?thesis
    using recreated_queue_has_two_owners [of ?s "''q''" 1 _ 3] by fastforce
qed

lemma queueByName_iff: "queueByName s n = Inr q \<longleftrightarrow> map_of (queues s) n = Some q"
  by (simp add: queueByName_def split: option.split)

lemma queueById_error:
  "queueById s k = Inl (Throw (QueueIdNotFound k)) \<longleftrightarrow> (\<forall>kv \<in> set (queues s). queueId (snd kv) \<noteq> k)"
proof -
  have "queueById s k = Inl (Throw (QueueIdNotFound k)) \<longleftrightarrow> find (\<lambda>kv. queueId (snd kv) = k) (queues s) = None"
    by (simp add: queueById_def split: option.split)
  then show ?thesis by (simp only: find_None_ball)
qed

lemma queueById_iff:
  assumes "distinct (map fst (queues s))" and "queues_ok (broker_of s)"
  shows "queueById s k = Inr q \<longleftrightarrow> (\<exists>n. map_of (queues s) n = Some q \<and> queueId q = k)"
proof (cases "find (\<lambda>kv. queueId (snd kv) = k) (queues s)")
  case None
  then have "\<forall>kv \<in> set (queues s). queueId (snd kv) \<noteq> k" by (simp only: find_None_ball)
  with None show ?thesis by (force simp: queueById_def dest: map_of_SomeD)
next
  case (Some kv)
  then have kv: "map_of (queues s) (fst kv) = Some (snd kv)" "queueId (snd kv) = k"
    using assms(1) by (auto dest!: find_Some_in)
  then have "map_of (queues s) n = Some q \<Longrightarrow> queueId q = k \<Longrightarrow> q = snd kv" for n
    using assms(2) unfolding queues_ok_def broker_of_sel by (metis option.inject)
  with kv Some show ?thesis by (auto simp: queueById_def)
qed

text \<open>Names and identifiers name the same queues: a queue found by name is the one found by its
  identifier, it carries the name it was found by, and an identifier no queue has is reported.\<close>

theorem queue_lookup_agrees:
  assumes "node_ok s"
  shows "(queueByName s n = Inr q \<longleftrightarrow> queueById s (queueId q) = Inr q \<and> qs_name (q_settings q) = n) \<and>
         (queueById s k = Inl (Throw (QueueIdNotFound k)) \<longleftrightarrow> (\<forall>n q. queueByName s n = Inr q \<longrightarrow> queueId q \<noteq> k))"
proof -
  have d: "distinct (map fst (queues s))" and q: "queues_ok (broker_of s)"
    using assms by (simp_all add: node_ok_def sorted_tables_def omap_ok_distinct)
  have name: "map_of (queues s) n = Some x \<Longrightarrow> qs_name (q_settings x) = n" for n x
    using q by (auto simp: queues_ok_def)
  have all: "(\<forall>kv \<in> set (queues s). queueId (snd kv) \<noteq> k) \<longleftrightarrow>
      (\<forall>n q. map_of (queues s) n = Some q \<longrightarrow> queueId q \<noteq> k)"
    using map_of_eq_Some_iff [OF d] by force
  show ?thesis
    unfolding queueByName_iff queueById_iff [OF d q] queueById_error all using name by auto
qed

theorem queue_lookup_agrees_witness:
  "queueById (sample_node ''b'') 0 = Inr \<lparr>queueId = 0, q_settings = \<lparr>qs_name = ''q''\<rparr>\<rparr>"
  using queue_lookup_agrees [of "sample_node ''b''" "''q''" "\<lparr>queueId = 0, q_settings = \<lparr>qs_name = ''q''\<rparr>\<rparr>"]
  by (simp add: queueByName_def)

text \<open>C33: the description lists every queue exactly once, by name, each with exactly the clients
  that listen to it, in increasing order and without repetition.\<close>

theorem getDescription_complete:
  assumes "node_ok s"
  shows "sorted_wrt (<) (map (qs_name \<circ> qd_settings) (getDescription s)) \<and>
         set (map (qs_name \<circ> qd_settings) (getDescription s)) = {n. queueIsExists s n} \<and>
         (\<forall>qd \<in> set (getDescription s).
            sorted_wrt (<) (qd_subscribers qd) \<and>
            set (qd_subscribers qd) = dom (b_listeners (broker_of s) (qs_name (qd_settings qd))))"
proof -
  have name: "kv \<in> set (queues s) \<Longrightarrow> qs_name (q_settings (snd kv)) = fst kv" for kv
    using assms by (cases kv) (auto simp: node_ok_def sorted_tables_def omap_ok_distinct queues_ok_def)
  then have names: "map (qs_name \<circ> qd_settings) (getDescription s) = map fst (queues s)"
    by (simp add: getDescription_def)
  have subs: "qd_subscribers qd = map fst (queue_listeners s (qs_name (qd_settings qd)))"
    if "qd \<in> set (getDescription s)" for qd
    using that name by (auto simp: getDescription_def queue_listeners_def get_or_def split: option.split)
  have "omap_ok (queues s)" "omap_ok (queue_listeners s n)" for n
    using assms omap_ok_get_or [of s] by (auto simp: node_ok_def sorted_tables_def queue_listeners_def)
  then show ?thesis
    using subs unfolding names
    by (auto simp: omap_ok_def queueIsExists_def queue_listeners_def domIff map_of_eq_None_iff image_iff
        dom_map_of_conv_image_fst)
qed

theorem getDescription_complete_witness:
  "set (map (qs_name \<circ> qd_settings) (getDescription (sample_node ''b''))) = {''q''}"
  using getDescription_complete [of "sample_node ''b''"] by (auto simp: queueIsExists_def)

end
