(* ===== verification/Memory_Block.thy ===== *)
theory Memory_Block
  imports Containers
begin

text \<open>
  Raw memory as the serialisation code uses it: a block from \<open>new uint8_t[n]\<close> is a list of \<open>n\<close>
  cells, \<open>None\<close> while nothing has been stored in the cell. \<open>memcpy\<close> and \<open>memset\<close> outside the
  block, and reads of cells that were never written, have no meaning in C++ and end in an error
  of the model.
\<close>

type_synonym block = "byte option list"

definition new_block :: "nat \<Rightarrow> block" where
  "new_block n = replicate n None"

definition mem_write :: "block \<Rightarrow> nat \<Rightarrow> byte list \<Rightarrow> error + block" where
  "mem_write blk off bs =
     (if off + length bs \<le> length blk
      then Inr (take off blk @ map Some bs @ drop (off + length bs) blk)
      else Inl (Undef BufferOverrun))"

definition mem_set :: "block \<Rightarrow> byte \<Rightarrow> nat \<Rightarrow> error + block" where
  "mem_set blk b n = mem_write blk 0 (replicate n b)"

definition mem_read :: "block \<Rightarrow> nat \<Rightarrow> nat \<Rightarrow> error + byte list" where
  "mem_read blk off n =
     (if off + n \<le> length blk
      then if None \<in> set (take n (drop off blk)) then Inl (Undef UninitialisedRead)
           else Inr (map the (take n (drop off blk)))
      else Inl (Undef BufferOverrun))"

text \<open>\<open>holds_at blk off bs\<close>: the cells from \<open>off\<close> on store the bytes \<open>bs\<close>.\<close>

definition holds_at :: "block \<Rightarrow> nat \<Rightarrow> byte list \<Rightarrow> bool" where
  "holds_at blk off bs \<longleftrightarrow>
     off + length bs \<le> length blk \<and> take (length bs) (drop off blk) = map Some bs"

lemma length_new_block [simp]: "length (new_block n) = n"
  by (simp add: new_block_def)

lemma mem_write_ok:
  "mem_write blk off bs = Inr blk' \<longleftrightarrow>
     off + length bs \<le> length blk \<and>
     blk' = take off blk @ map Some bs @ drop (off + length bs) blk"
  by (auto simp: mem_write_def)

lemma mem_write_length: "mem_write blk off bs = Inr blk' \<Longrightarrow> length blk' = length blk"
  by (auto simp: mem_write_ok)

lemma mem_write_fits [simp]: "(\<exists>blk'. mem_write blk off bs = Inr blk') \<longleftrightarrow> off + length bs \<le> length blk"
  by (simp add: mem_write_def)

lemma mem_write_error: "mem_write blk off bs = Inl e \<longleftrightarrow> length blk < off + length bs \<and> e = Undef BufferOverrun"
  by (auto simp: mem_write_def)

lemma mem_write_holds: "mem_write blk off bs = Inr blk' \<Longrightarrow> holds_at blk' off bs"
  by (auto simp: mem_write_ok holds_at_def)

text \<open>Two adjacent copies are one copy of the joined bytes, errors included.\<close>

lemma mem_write_append:
  "bind_res (mem_write blk off bs) (\<lambda>blk'. mem_write blk' (off + length bs) cs) =
   mem_write blk off (bs @ cs)"
proof (cases "off + length bs \<le> length blk")
  case True
  then have "min (length blk) off = off" by simp
  with True show ?thesis by (simp add: mem_write_def ac_simps)
qed (simp add: mem_write_def)

lemma mem_write_other:
  assumes "mem_write blk off bs = Inr blk'" and "i < off \<or> off + length bs \<le> i"
  shows "blk' ! i = blk ! i"
  using assms by (auto simp: mem_write_ok nth_append)

lemma holds_at_append:
  "holds_at blk off (bs @ cs) \<longleftrightarrow> holds_at blk off bs \<and> holds_at blk (off + length bs) cs"
proof -
  have "take (length bs + length cs) (drop off blk) =
          take (length bs) (drop off blk) @ take (length cs) (drop (off + length bs) blk)"
    by (simp add: take_add add.commute)
  moreover have "off + length bs \<le> length blk \<Longrightarrow> length (take (length bs) (drop off blk)) = length bs"
    by simp
  ultimately show ?thesis by (auto simp: holds_at_def append_eq_append_conv)
qed

lemma holds_at_nth:
  "holds_at blk off bs \<longleftrightarrow>
     off + length bs \<le> length blk \<and> (\<forall>i < length bs. blk ! (off + i) = Some (bs ! i))"
  by (auto simp: holds_at_def list_eq_iff_nth_eq)

lemma holds_at_write_other:
  assumes "holds_at blk o1 bs" and "mem_write blk o2 cs = Inr blk'"
    and "o1 + length bs \<le> o2 \<or> o2 + length cs \<le> o1"
  shows "holds_at blk' o1 bs"
  using assms mem_write_length [OF assms(2)] mem_write_other [OF assms(2)]
  by (auto simp: holds_at_nth)

lemma mem_read_holds: "mem_read blk off (length bs) = Inr bs \<longleftrightarrow> holds_at blk off bs"
proof -
  have "None \<notin> set xs \<and> map the xs = bs \<longleftrightarrow> xs = map Some bs" for xs
  proof
    assume "None \<notin> set xs \<and> map the xs = bs"
    moreover have "None \<notin> set xs \<Longrightarrow> map (Some \<circ> the) xs = xs"
      by (induction xs) auto
    ultimately show "xs = map Some bs" by force
  qed (auto simp: comp_def)
  then show ?thesis by (auto simp: mem_read_def holds_at_def)
qed

lemma mem_read_ok: "mem_read blk off n = Inr bs \<longleftrightarrow> length bs = n \<and> holds_at blk off bs"
proof
  assume *: "mem_read blk off n = Inr bs"
  then have "length bs = n" by (auto simp: mem_read_def split: if_splits)
  with * show "length bs = n \<and> holds_at blk off bs" by (simp flip: mem_read_holds)
qed (auto simp: mem_read_holds)

end
