(* ===== verification/Serialisation.thy ===== *)
theory Serialisation
  imports Memory_Block
begin

text \<open>
  The templates of \<^verbatim>\<open>libdqueue/serialisation.h\<close>. A template parameter is a value of \<open>fty\<close>: a
  trivially copyable type of \<open>n\<close> bytes, \<open>std::string\<close>, or a \<open>std::vector\<close> of elements of \<open>n\<close>
  bytes; an argument is a value of \<open>fval\<close>. A POD object is its object representation, since
  \<open>memcpy\<close> of that is all the code does with it. Iterators are offsets into the block. Sizes are
  \<open>size_t\<close> of objects that exist in memory and are \<open>nat\<close>; the length prefix is a \<open>uint32_t\<close> and is
  kept at its width.

  The wire format is stated once, by \<open>encode\<close>; the lemmas show that writers store exactly those
  bytes, and that readers return a value exactly when the block holds its bytes.
\<close>

section \<open>Field types and values\<close>

datatype fty = Pod nat | Str | Vec nat

datatype fval =
    PodV "byte list"
  | StrV string
  | VecV nat "byte list list"

fun has_type :: "fval \<Rightarrow> fty \<Rightarrow> bool" where
  "has_type (PodV b) (Pod n) \<longleftrightarrow> length b = n"
| "has_type (StrV s) Str \<longleftrightarrow> True"
| "has_type (VecV sz xs) (Vec n) \<longleftrightarrow> sz = n \<and> list_all (\<lambda>x. length x = n) xs"
| "has_type _ _ \<longleftrightarrow> False"

definition sizeof_uint32_t :: nat where
  "sizeof_uint32_t = 4"

lemma sizeof_uint32_t_simp [simp]: "sizeof_uint32_t = 4"
  by (simp add: sizeof_uint32_t_def)

text \<open>\<open>static_cast<uint32_t>(s.size())\<close>.\<close>

definition len32 :: "nat \<Rightarrow> u32" where
  "len32 n = word_of_nat n"

section \<open>\<open>get_size\<close>, \<open>writer\<close>, \<open>reader\<close>\<close>

fun get_size :: "fval \<Rightarrow> nat" where
  "get_size (PodV b) = length b"
| "get_size (StrV s) = sizeof_uint32_t + length s"
| "get_size (VecV sz xs) = sizeof_uint32_t + length xs * sz"

fun write_value :: "block \<Rightarrow> nat \<Rightarrow> fval \<Rightarrow> error + block \<times> nat" where
  "write_value blk it (PodV b) =
     bind_res (mem_write blk it b) (\<lambda>blk. Inr (blk, length b))"
| "write_value blk it (StrV s) =
     bind_res (mem_write blk it (le_bytes 4 (unat (len32 (length s))))) (\<lambda>blk.
     bind_res (mem_write blk (it + sizeof_uint32_t) (map char_byte s)) (\<lambda>blk.
     Inr (blk, sizeof_uint32_t + length s)))"
| "write_value blk it (VecV sz xs) =
     bind_res (mem_write blk it (le_bytes 4 (unat (len32 (length xs))))) (\<lambda>blk.
     bind_res (mem_write blk (it + sizeof_uint32_t) (concat xs)) (\<lambda>blk.
     Inr (blk, sizeof_uint32_t + length xs * sz)))"

text \<open>The elements of a vector, from the bytes copied into its storage.\<close>

primrec chunks :: "nat \<Rightarrow> nat \<Rightarrow> byte list \<Rightarrow> byte list list" where
  "chunks sz 0 bs = []"
| "chunks sz (Suc n) bs = take sz bs # chunks sz n (drop sz bs)"

fun read_value :: "block \<Rightarrow> nat \<Rightarrow> fty \<Rightarrow> error + fval \<times> nat" where
  "read_value blk it (Pod n) =
     bind_res (mem_read blk it n) (\<lambda>b. Inr (PodV b, n))"
| "read_value blk it Str =
     bind_res (mem_read blk it sizeof_uint32_t) (\<lambda>l.
     let len = unat (word_of_nat (le_value l) :: u32) in
     bind_res (mem_read blk (it + sizeof_uint32_t) len) (\<lambda>b.
     Inr (StrV (map byte_char b), sizeof_uint32_t + len)))"
| "read_value blk it (Vec n) =
     bind_res (mem_read blk it sizeof_uint32_t) (\<lambda>l.
     let len = unat (word_of_nat (le_value l) :: u32) in
     bind_res (mem_read blk (it + sizeof_uint32_t) (len * n)) (\<lambda>b.
     Inr (VecV n (chunks n len b), sizeof_uint32_t + len * n)))"

section \<open>\<open>Scheme\<close>\<close>

primrec calculate_size_rec :: "nat \<Rightarrow> fval list \<Rightarrow> nat" where
  "calculate_size_rec result [] = result"
| "calculate_size_rec result (v # vs) = calculate_size_rec (result + get_size v) vs"

primrec write_args :: "block \<Rightarrow> nat \<Rightarrow> fval list \<Rightarrow> error + block" where
  "write_args blk it [] = Inr blk"
| "write_args blk it (v # vs) =
     bind_res (write_value blk it v) (\<lambda>(blk, szofcur). write_args blk (it + szofcur) vs)"

primrec read_args :: "block \<Rightarrow> nat \<Rightarrow> fty list \<Rightarrow> error + fval list" where
  "read_args blk it [] = Inr []"
| "read_args blk it (t # ts) =
     bind_res (read_value blk it t) (\<lambda>(v, szofcur).
     bind_res (read_args blk (it + szofcur) ts) (\<lambda>vs. Inr (v # vs)))"

definition Scheme_capacity :: "fval list \<Rightarrow> nat" where
  "Scheme_capacity vs = calculate_size_rec 0 vs"

definition Scheme_write :: "block \<Rightarrow> nat \<Rightarrow> fval list \<Rightarrow> error + block" where
  "Scheme_write blk it vs = write_args blk it vs"

definition Scheme_read :: "block \<Rightarrow> nat \<Rightarrow> fty list \<Rightarrow> error + fval list" where
  "Scheme_read blk it ts = read_args blk it ts"

section \<open>The wire format\<close>

fun encode :: "fval \<Rightarrow> byte list" where
  "encode (PodV b) = b"
| "encode (StrV s) = le_bytes 4 (unat (len32 (length s))) @ map char_byte s"
| "encode (VecV sz xs) = le_bytes 4 (unat (len32 (length xs))) @ concat xs"

abbreviation encode_all :: "fval list \<Rightarrow> byte list" where
  "encode_all vs \<equiv> concat (map encode vs)"

fun fits32 :: "fval \<Rightarrow> bool" where
  "fits32 (PodV b) \<longleftrightarrow> True"
| "fits32 (StrV s) \<longleftrightarrow> length s < 2 ^ 32"
| "fits32 (VecV sz xs) \<longleftrightarrow> length xs < 2 ^ 32"

abbreviation well_typed :: "fval list \<Rightarrow> fty list \<Rightarrow> bool" where
  "well_typed vs ts \<equiv> list_all2 has_type vs ts"

subsection \<open>Sizes and writers\<close>

lemma length_concat_uniform:
  "list_all (\<lambda>x. length x = n) xs \<Longrightarrow> length (concat xs) = length xs * n"
  by (induction xs) auto

lemma get_size_encode: "has_type v t \<Longrightarrow> get_size v = length (encode v)"
  by (cases v; cases t) (auto simp: length_concat_uniform)

lemma calculate_size_rec_eq: "calculate_size_rec r vs = r + sum_list (map get_size vs)"
  by (induction vs arbitrary: r) auto

lemma capacity_Cons [simp]:
  "Scheme_capacity (v # vs) = get_size v + Scheme_capacity vs"
  "Scheme_capacity [] = 0"
  by (simp_all add: Scheme_capacity_def calculate_size_rec_eq)

lemma capacity_encode: "well_typed vs ts \<Longrightarrow> Scheme_capacity vs = length (encode_all vs)"
  by (induction vs ts rule: list_all2_induct) (simp_all add: get_size_encode)

lemma write_value_encode:
  assumes "has_type v t"
  shows "write_value blk it v =
           bind_res (mem_write blk it (encode v)) (\<lambda>blk'. Inr (blk', get_size v))"
proof -
  have two: "bind_res (mem_write blk it (le_bytes 4 n)) (\<lambda>blk.
          bind_res (mem_write blk (it + 4) cs) (\<lambda>blk. Inr (blk, k))) =
        bind_res (mem_write blk it (le_bytes 4 n @ cs)) (\<lambda>blk. Inr (blk, k))" for n cs and k :: nat
    by (simp flip: mem_write_append) (simp add: bind_res_def split: sum.splits)
  from assms show ?thesis by (cases v) (simp_all add: two)
qed

lemma write_args_encode:
  "well_typed vs ts \<Longrightarrow> it \<le> length blk \<Longrightarrow> write_args blk it vs = mem_write blk it (encode_all vs)"
proof (induction vs ts arbitrary: blk it rule: list_all2_induct)
  case (Cons v vs t ts)
  have "write_args blk' (it + get_size v) vs = mem_write blk' (it + get_size v) (encode_all vs)"
    if "mem_write blk it (encode v) = Inr blk'" for blk'
    using that Cons by (intro Cons.IH) (auto simp: mem_write_ok get_size_encode)
  then show ?case
    using Cons.hyps(1)
    by (cases "mem_write blk it (encode v)")
       (auto simp: write_value_encode get_size_encode simp flip: mem_write_append)
qed (simp add: mem_write_def)

subsection \<open>Readers\<close>

lemma unat_len32 [simp]: "n < 2 ^ 32 \<Longrightarrow> unat (len32 n) = n"
  by (simp add: len32_def unat_of_nat)

lemma unat_of_four_bytes: "length l = 4 \<Longrightarrow> unat (word_of_nat (le_value l) :: u32) = le_value l"
  using le_value_less [of l] by (simp add: unat_of_nat)

lemma read_four_bytes:
  "mem_read blk it 4 = Inr l \<Longrightarrow> unat (word_of_nat (le_value l) :: u32) = le_value l"
  by (simp add: mem_read_ok unat_of_four_bytes)

lemma length_chunks [simp]: "length (chunks sz n bs) = n"
  by (induction n arbitrary: bs) auto

lemma concat_chunks: "length bs = n * sz \<Longrightarrow> concat (chunks sz n bs) = bs"
  by (induction n arbitrary: bs) auto

lemma chunks_uniform: "length bs = n * sz \<Longrightarrow> list_all (\<lambda>x. length x = sz) (chunks sz n bs)"
  by (induction n arbitrary: bs) auto

lemma chunks_concat:
  "list_all (\<lambda>x. length x = sz) xs \<Longrightarrow> chunks sz (length xs) (concat xs) = xs"
  by (induction xs) auto

text \<open>The two reads of a length-prefixed value see a prefix and as many bytes as it announces.\<close>

lemma read_prefixed:
  "(\<exists>l. mem_read blk it 4 = Inr l \<and> le_value l = len \<and> mem_read blk (it + 4) (le_value l * k) = Inr b)
   \<longleftrightarrow> len < 2 ^ 32 \<and> length b = len * k \<and> holds_at blk it (le_bytes 4 len @ b)"
  (is "?reads \<longleftrightarrow> ?bytes")
proof
  assume ?reads
  then obtain l where l: "length l = 4" "holds_at blk it l" "le_value l = len"
    and b: "length b = len * k" "holds_at blk (it + 4) b"
    by (auto simp: mem_read_ok)
  moreover have "le_bytes 4 len = l" using le_bytes_le_value [of l] l by simp
  moreover have "len < 2 ^ 32" using le_value_less [of l] l by simp
  ultimately show ?bytes by (simp add: holds_at_append)
next
  assume *: ?bytes
  then have "le_value (le_bytes 4 len) = len" by (simp add: le_value_le_bytes)
  with * show ?reads
    by (intro exI [of _ "le_bytes 4 len"]) (simp add: mem_read_ok holds_at_append)
qed

lemma read_value_iff:
  "read_value blk it t = Inr (v, n) \<longleftrightarrow>
     has_type v t \<and> fits32 v \<and> n = get_size v \<and> holds_at blk it (encode v)"
proof (cases t)
  case (Pod m)
  then show ?thesis by (cases v) (auto simp: mem_read_ok)
next
  case Str
  have "read_value blk it t = Inr (v, n) \<longleftrightarrow>
      (\<exists>b len. (\<exists>l. mem_read blk it 4 = Inr l \<and> le_value l = len \<and>
          mem_read blk (it + 4) (le_value l * 1) = Inr b) \<and>
        v = StrV (map byte_char b) \<and> n = 4 + len)"
    using Str by (cases "mem_read blk it 4") (auto simp: Let_def read_four_bytes)
  also have "\<dots> \<longleftrightarrow> (\<exists>b. length b < 2 ^ 32 \<and> holds_at blk it (le_bytes 4 (length b) @ b) \<and>
        v = StrV (map byte_char b) \<and> n = 4 + length b)"
    unfolding read_prefixed by auto
  also have "\<dots> \<longleftrightarrow> has_type v t \<and> fits32 v \<and> n = get_size v \<and> holds_at blk it (encode v)"
  proof (cases v)
    case (StrV s)
    have "s = map byte_char b \<longleftrightarrow> b = map char_byte s" for b
      by (auto simp: comp_def)
    with Str StrV show ?thesis by auto
  qed (use Str in auto)
  finally show ?thesis .
next
  case (Vec m)
  have "read_value blk it t = Inr (v, n) \<longleftrightarrow>
      (\<exists>b len. (\<exists>l. mem_read blk it 4 = Inr l \<and> le_value l = len \<and>
          mem_read blk (it + 4) (le_value l * m) = Inr b) \<and>
        v = VecV m (chunks m len b) \<and> n = 4 + len * m)"
    using Vec by (cases "mem_read blk it 4") (auto simp: Let_def read_four_bytes)
  also have "\<dots> \<longleftrightarrow> (\<exists>b len. len < 2 ^ 32 \<and> length b = len * m \<and>
        holds_at blk it (le_bytes 4 len @ b) \<and> v = VecV m (chunks m len b) \<and> n = 4 + len * m)"
    unfolding read_prefixed by auto
  also have "\<dots> \<longleftrightarrow> has_type v t \<and> fits32 v \<and> n = get_size v \<and> holds_at blk it (encode v)"
  proof (cases v)
    case (VecV sz xs)
    have "(\<exists>b len. len < 2 ^ 32 \<and> length b = len * m \<and> holds_at blk it (le_bytes 4 len @ b) \<and>
          xs = chunks m len b \<and> n = 4 + len * m) \<longleftrightarrow>
        list_all (\<lambda>x. length x = m) xs \<and> length xs < 2 ^ 32 \<and> n = 4 + length xs * m \<and>
          holds_at blk it (le_bytes 4 (length xs) @ concat xs)"
      by (auto simp: chunks_uniform concat_chunks)
        (metis chunks_concat length_concat_uniform)
    with Vec VecV show ?thesis by auto
  qed (use Vec in auto)
  finally show ?thesis .
qed

section \<open>The codec contract\<close>

text \<open>
  What the messages rely on: a reader returns a value exactly when the block holds the bytes of
  that value. From the contract alone, a block holds at most one value at an offset, and reading
  back what was written returns it.
\<close>

locale codec =
  fixes rd :: "block \<Rightarrow> nat \<Rightarrow> error + 'v"
    and enc :: "'v \<Rightarrow> byte list"
    and ok :: "'v \<Rightarrow> bool"
  assumes rd_iff: "it \<le> length blk \<Longrightarrow> rd blk it = Inr v \<longleftrightarrow> ok v \<and> holds_at blk it (enc v)"
begin

lemma rd_after_write:
  assumes "mem_write blk it (enc v) = Inr blk'" and "ok v"
  shows "rd blk' it = Inr v"
proof -
  have "holds_at blk' it (enc v)" using assms(1) by (rule mem_write_holds)
  moreover from this have "it \<le> length blk'" by (simp add: holds_at_def)
  ultimately show ?thesis using assms(2) by (simp add: rd_iff)
qed

lemma holds_unique:
  "ok v \<Longrightarrow> ok w \<Longrightarrow> holds_at blk it (enc v) \<Longrightarrow> holds_at blk it (enc w) \<Longrightarrow> v = w"
  using rd_iff [of it blk v] rd_iff [of it blk w] by (auto simp: holds_at_def)

lemma enc_prefix_free: "ok v \<Longrightarrow> ok w \<Longrightarrow> enc v @ xs = enc w @ ys \<Longrightarrow> v = w"
proof -
  assume ok: "ok v" "ok w" and eq: "enc v @ xs = enc w @ ys"
  have "holds_at (map Some (enc v @ xs)) 0 (enc v)"
    by (simp add: holds_at_def)
  moreover have "holds_at (map Some (enc v @ xs)) 0 (enc w)"
    by (simp add: eq holds_at_def)
  ultimately show ?thesis using ok holds_unique by blast
qed

end

lemma read_args_iff:
  "it \<le> length blk \<Longrightarrow> read_args blk it ts = Inr vs \<longleftrightarrow>
     well_typed vs ts \<and> list_all fits32 vs \<and> holds_at blk it (encode_all vs)"
proof (induction ts arbitrary: it vs)
  case Nil
  then show ?case by (auto simp: holds_at_def)
next
  case (Cons t ts)
  have rest: "read_args blk (it + get_size v) ts = Inr ws \<longleftrightarrow>
      well_typed ws ts \<and> list_all fits32 ws \<and> holds_at blk (it + length (encode v)) (encode_all ws)"
    if "has_type v t" "holds_at blk it (encode v)" for v ws
    using that Cons.IH [of "it + get_size v" ws] by (auto simp: holds_at_def get_size_encode)
  show ?case
    by (cases vs) (auto simp: read_value_iff rest holds_at_append list_all2_Cons2)
qed

text \<open>The contract holds for every field type and for every \<open>Scheme\<close>.\<close>

interpretation field: codec
  "\<lambda>blk it. bind_res (read_value blk it t) (\<lambda>(v, n). Inr v)" encode "\<lambda>v. has_type v t \<and> fits32 v" for t
  by unfold_locales (auto simp: read_value_iff)

interpretation scheme: codec
  "\<lambda>blk it. Scheme_read blk it ts" encode_all "\<lambda>vs. well_typed vs ts \<and> list_all fits32 vs" for ts
  by unfold_locales (auto simp: Scheme_read_def read_args_iff)

lemma Scheme_write_short_block:
  assumes "well_typed vs ts" and "vs \<noteq> []"
  shows "Scheme_write blk it vs = Inl (Undef BufferOverrun) \<longleftrightarrow>
           length blk < it + Scheme_capacity vs"
proof (cases "it \<le> length blk")
  case True
  then have "Scheme_write blk it vs = mem_write blk it (encode_all vs)"
    using assms(1) by (simp add: Scheme_write_def write_args_encode)
  then show ?thesis using assms(1) by (simp add: capacity_encode mem_write_error)
next
  case False
  obtain v us where vs: "vs = v # us" using assms(2) by (cases vs) auto
  then obtain t where "has_type v t" using assms(1) by (auto simp: list_all2_Cons1)
  with False vs show ?thesis
    by (simp add: Scheme_write_def write_value_encode mem_write_def)
qed

section \<open>Properties\<close>

text \<open>C16: whatever arguments a \<open>Scheme\<close> is given, if the block has room for their \<open>capacity\<close>
  at the iterator, \<open>write\<close> succeeds, changes no cell outside those bytes, and \<open>read\<close> with the
  same types returns the arguments; the only other requirement is that lengths fit the
  \<open>uint32_t\<close> prefix.\<close>

theorem Scheme_roundtrip:
  assumes "well_typed vs ts" and "list_all fits32 vs"
    and "it + Scheme_capacity vs \<le> length blk"
  shows "\<exists>blk'. Scheme_write blk it vs = Inr blk' \<and> Scheme_read blk' it ts = Inr vs \<and>
           length blk' = length blk \<and>
           (\<forall>i. i < it \<or> it + Scheme_capacity vs \<le> i \<longrightarrow> blk' ! i = blk ! i)"
proof -
  have fits: "it + length (encode_all vs) \<le> length blk" and it: "it \<le> length blk"
    using assms by (simp_all add: capacity_encode)
  then obtain blk' where w: "mem_write blk it (encode_all vs) = Inr blk'"
    using mem_write_fits by blast
  then have "Scheme_write blk it vs = Inr blk'"
    using assms(1) it by (simp add: Scheme_write_def write_args_encode)
  moreover have "Scheme_read blk' it ts = Inr vs"
    using scheme.rd_after_write [OF w] assms by blast
  ultimately show ?thesis
    using mem_write_length [OF w] mem_write_other [OF w] assms(1) capacity_encode by auto
qed

theorem Scheme_roundtrip_witness:
  "\<exists>blk'. Scheme_write (new_block 20) 3 [StrV ''q'', PodV (le_bytes 8 7)] = Inr blk' \<and>
     Scheme_read blk' 3 [Str, Pod 8] = Inr [StrV ''q'', PodV (le_bytes 8 7)]"
  using Scheme_roundtrip [of "[StrV ''q'', PodV (le_bytes 8 7)]" "[Str, Pod 8]" 3 "new_block 20"]
  by auto

text \<open>A write that does not fit is never silently cut off: it ends in a buffer overrun exactly
  when the block is too short for the arguments.\<close>

theorem Scheme_write_overrun:
  assumes "well_typed vs ts" and "vs \<noteq> []"
  shows "Scheme_write blk it vs = Inl (Undef BufferOverrun) \<longleftrightarrow>
           length blk < it + Scheme_capacity vs"
  using assms by (rule Scheme_write_short_block)

theorem Scheme_write_overrun_witness:
  "Scheme_write (new_block 4) 0 [StrV ''q''] = Inl (Undef BufferOverrun)"
  using Scheme_write_overrun [of "[StrV ''q'']" "[Str]" "new_block 4" 0] by simp

text \<open>C30: a \<open>Scheme\<close> reads a block as some arguments exactly when those are well typed, their
  lengths fit the prefix, and the block holds their bytes: nothing else is accepted, and the
  arguments are unique.\<close>

theorem Scheme_read_exact:
  assumes "it \<le> length blk"
  shows "Scheme_read blk it ts = Inr vs \<longleftrightarrow>
           well_typed vs ts \<and> list_all fits32 vs \<and> holds_at blk it (encode_all vs)"
  using assms scheme.rd_iff by blast

theorem Scheme_read_exact_witness:
  "Scheme_read (map Some (le_bytes 4 2 @ [104, 105])) 0 [Str] = Inr [StrV ''hi'']"
proof -
  have "le_bytes 4 2 = [2, 0, 0, 0]" by code_simp
  then show ?thesis
    using Scheme_read_exact [of 0 "map Some (le_bytes 4 2 @ [104, 105])" "[Str]" "[StrV ''hi'']"]
    by (simp add: holds_at_def char_byte_def flip: numeral_2_eq_2)
qed

text \<open>The length prefix is a \<open>uint32_t\<close>: a string of any length that is written and read
  back comes back cut to its length modulo \<open>2\<^sup>3\<^sup>2\<close>, so longer strings do not survive.\<close>

theorem string_length_wraps:
  assumes "it + 4 + length s \<le> length blk"
  shows "\<exists>blk'. Scheme_write blk it [StrV s] = Inr blk' \<and>
           Scheme_read blk' it [Str] = Inr [StrV (take (length s mod 2 ^ 32) s)]"
proof -
  let ?n = "length s mod 2 ^ 32"
  have n: "unat (len32 (length s)) = ?n" by (simp add: len32_def unat_of_nat)
  have "encode (StrV s) = encode (StrV (take ?n s)) @ map char_byte (drop ?n s)"
    by (simp add: n flip: map_append)
  moreover obtain blk' where w: "mem_write blk it (encode (StrV s)) = Inr blk'"
    using assms by (auto simp: mem_write_def)
  ultimately have "holds_at blk' it (encode (StrV (take ?n s)))"
    using mem_write_holds [OF w] by (simp only: holds_at_append)
  moreover from this have "it \<le> length blk'" by (simp add: holds_at_def)
  ultimately have "Scheme_read blk' it [Str] = Inr [StrV (take ?n s)]"
    by (subst scheme.rd_iff) auto
  moreover have "Scheme_write blk it [StrV s] = Inr blk'"
    using assms w by (subst Scheme_write_def, subst write_args_encode [where ts = "[Str]"]) auto
  ultimately show ?thesis by blast
qed

theorem string_length_wraps_witness:
  "\<exists>blk'. Scheme_write (new_block 9) 0 [StrV ''hello''] = Inr blk' \<and>
     Scheme_read blk' 0 [Str] = Inr [StrV (take (length ''hello'' mod 2 ^ 32) ''hello'')]"
  by (rule string_length_wraps) simp

end
