(* ===== verification/Network_Message.thy ===== *)
theory Network_Message
  imports Serialisation
begin

text \<open>
  \<^verbatim>\<open>libdqueue/network_message.h\<close>: a message is one heap block, the total size in the first four
  bytes (\<open>size\<close> points at them), the kind in the next two, the payload after that. The allocation
  is twice the announced size, computed in \<open>uint32_t\<close>, so it wraps; only the first half is
  zeroed.
\<close>

definition SIZE_OF_MESSAGE_SIZE :: nat where
  "SIZE_OF_MESSAGE_SIZE = 4"

definition SIZE_OF_KIND :: nat where
  "SIZE_OF_KIND = 2"

definition MAX_MESSAGE_SIZE :: nat where
  "MAX_MESSAGE_SIZE = 1024 * 1024 * 4"

lemma message_sizes [simp]: "SIZE_OF_MESSAGE_SIZE = 4" "SIZE_OF_KIND = 2"
  by (simp_all add: SIZE_OF_MESSAGE_SIZE_def SIZE_OF_KIND_def)

record network_message =
  nm_data :: block

definition NetworkMessage :: "nat \<Rightarrow> error + network_message" where
  "NetworkMessage sz =
     (let realSize = (word_of_nat (sz + SIZE_OF_MESSAGE_SIZE) :: u32);
          data = new_block (unat (realSize * 2)) in
      bind_res (mem_set data 0 (unat realSize)) (\<lambda>data.
      bind_res (mem_write data 0 (le_bytes 4 (unat realSize))) (\<lambda>data.
      Inr \<lparr>nm_data = data\<rparr>)))"

definition nm_size :: "network_message \<Rightarrow> error + u32" where
  "nm_size nd = bind_res (mem_read (nm_data nd) 0 4) (\<lambda>b. Inr (word_of_nat (le_value b)))"

text \<open>\<open>cast_to_header()->kind\<close>, read and assigned.\<close>

definition header_kind :: "network_message \<Rightarrow> error + u16" where
  "header_kind nd =
     bind_res (mem_read (nm_data nd) SIZE_OF_MESSAGE_SIZE SIZE_OF_KIND) (\<lambda>b.
     Inr (word_of_nat (le_value b)))"

definition set_header_kind :: "network_message \<Rightarrow> u16 \<Rightarrow> error + network_message" where
  "set_header_kind nd k =
     bind_res (mem_write (nm_data nd) SIZE_OF_MESSAGE_SIZE (le_bytes 2 (unat k))) (\<lambda>data.
     Inr (nd\<lparr>nm_data := data\<rparr>))"

definition NetworkMessage_kind :: "nat \<Rightarrow> u16 \<Rightarrow> error + network_message" where
  "NetworkMessage_kind sz kind =
     bind_res (NetworkMessage (sz + SIZE_OF_KIND)) (\<lambda>nd. set_header_kind nd kind)"

text \<open>The offset of the payload in the block.\<close>

definition nm_value :: nat where
  "nm_value = SIZE_OF_MESSAGE_SIZE + SIZE_OF_KIND"

text \<open>The bytes that \<open>as_buffer\<close> hands to the socket.\<close>

definition as_buffer :: "network_message \<Rightarrow> error + byte list" where
  "as_buffer nd = bind_res (nm_size nd) (\<lambda>n. mem_read (nm_data nd) 0 (unat n))"

lemma nm_value_simp [simp]: "nm_value = 6"
  by (simp add: nm_value_def)

section \<open>When the constructor is defined\<close>

lemma NetworkMessage_small:
  assumes "sz + 4 < 2 ^ 31"
  shows "NetworkMessage sz =
    Inr \<lparr>nm_data = map Some (le_bytes 4 (sz + 4)) @ replicate sz (Some 0) @ replicate (sz + 4) None\<rparr>"
proof -
  have "unat (word_of_nat (sz + 4) :: u32) = sz + 4"
    and "unat (word_of_nat (sz + 4) * 2 :: u32) = 2 * (sz + 4)"
    using assms by (simp_all add: unat_of_nat unat_word_ariths)
  then show ?thesis
    using assms
    by (simp add: NetworkMessage_def mem_set_def mem_write_def new_block_def flip: replicate_add)
qed

lemma NetworkMessage_large:
  assumes "2 ^ 31 \<le> sz + 4" and "sz + 4 < 2 ^ 32"
  shows "NetworkMessage sz = Inl (Undef BufferOverrun)"
proof -
  have "unat (word_of_nat (sz + 4) :: u32) = sz + 4"
    using assms(2) by (rule unat_u32)
  moreover have "word_of_nat (sz + 4) * 2 = (word_of_nat (2 * (sz + 4)) :: u32)"
    by simp
  then have "unat (word_of_nat (sz + 4) * 2 :: u32) = 2 * (sz + 4) mod 2 ^ 32"
    by (simp only: unat_of_nat) simp
  moreover have "2 * (sz + 4) mod 2 ^ 32 < sz + 4"
    using assms by (simp add: mod_if) arith
  ultimately show ?thesis
    by (simp add: NetworkMessage_def mem_set_def mem_write_def)
qed

text \<open>The allocation wraps at \<open>2\<^sup>3\<^sup>2\<close>: for a size whose low 32 bits have the top bit set, the
  block is shorter than the \<open>memset\<close> that clears it, and the constructor writes out of bounds.\<close>

theorem NetworkMessage_alloc_wraps:
  assumes "2 ^ 31 \<le> sz + 4" and "sz + 4 < 2 ^ 32"
  shows "NetworkMessage sz = Inl (Undef BufferOverrun)"
  using assms by (rule NetworkMessage_large)

theorem NetworkMessage_alloc_wraps_witness:
  "NetworkMessage (2 ^ 31 + 100) = Inl (Undef BufferOverrun)"
  by (rule NetworkMessage_alloc_wraps) simp_all

end
