(* ===== verification/Queries.thy ===== *)
theory Queries
  imports Network_Message Node_Settings
begin

text \<open>
  The protocol messages of \<^verbatim>\<open>libdqueue/queries.h\<close> and \<^verbatim>\<open>libdqueue/kinds.h\<close>: for every message
  its fields, \<open>toNetworkMessage\<close>, and the constructor that reads it back. All of them share one
  shape, \<open>pack\<close> and \<open>unpack\<close>: a kind and a \<open>Scheme\<close> over the fields. That shape is the locale
  \<open>wire_query\<close>; the round trip is proved in it once and every message interprets it.
\<close>

section \<open>Message kinds\<close>

datatype MessageKinds =
  OK | LOGIN | LOGIN_CONFIRM | CREATE_QUEUE | SUBSCRIBE | UNSUBSCRIBE | PUBLISH

fun kind_code :: "MessageKinds \<Rightarrow> u16" where
  "kind_code OK = 0"
| "kind_code LOGIN = 1"
| "kind_code LOGIN_CONFIRM = 2"
| "kind_code CREATE_QUEUE = 3"
| "kind_code SUBSCRIBE = 4"
| "kind_code UNSUBSCRIBE = 5"
| "kind_code PUBLISH = 6"

lemma kind_code_inject [simp]: "kind_code k = kind_code k' \<longleftrightarrow> k = k'"
  by (cases k; cases k') auto

section \<open>Fields\<close>

definition u64V :: "u64 \<Rightarrow> fval" where
  "u64V w = PodV (le_bytes 8 (unat w))"

definition bytesV :: "byte list \<Rightarrow> fval" where
  "bytesV d = VecV 1 (map (\<lambda>b. [b]) d)"

fun u64_of :: "fval \<Rightarrow> u64" where
  "u64_of (PodV b) = word_of_nat (le_value b)"
| "u64_of _ = 0"

fun str_of :: "fval \<Rightarrow> string" where
  "str_of (StrV s) = s"
| "str_of _ = []"

fun bytes_of :: "fval \<Rightarrow> byte list" where
  "bytes_of (VecV sz xs) = concat xs"
| "bytes_of _ = []"

lemma field_inverse [simp]: "u64_of (u64V w) = w" "bytes_of (bytesV d) = d"
  by (simp_all add: u64V_def bytesV_def comp_def)

lemma field_typed [simp]: "has_type (u64V w) (Pod 8)" "has_type (bytesV d) (Vec (Suc 0))"
  by (simp_all add: u64V_def bytesV_def list_all_iff)

lemma field_fits [simp]: "fits32 (u64V w)" "fits32 (bytesV d) \<longleftrightarrow> length d < 2 ^ 32"
  by (simp_all add: u64V_def bytesV_def)

lemma field_size [simp]: "get_size (u64V w) = 8" "get_size (bytesV d) = 4 + length d"
  by (simp_all add: u64V_def bytesV_def)

section \<open>Packing and unpacking\<close>

text \<open>The body that every \<open>toNetworkMessage\<close> has, and the one of every reading constructor.\<close>

definition pack :: "MessageKinds \<Rightarrow> fval list \<Rightarrow> error + network_message" where
  "pack k vs =
     (let neededSize = Scheme_capacity vs in
      bind_res (NetworkMessage_kind neededSize (kind_code k)) (\<lambda>nd.
      bind_res (Scheme_write (nm_data nd) nm_value vs) (\<lambda>data.
      Inr (nd\<lparr>nm_data := data\<rparr>))))"

definition unpack :: "fty list \<Rightarrow> network_message \<Rightarrow> error + fval list" where
  "unpack ts nd = Scheme_read (nm_data nd) nm_value ts"

section \<open>The messages\<close>

record Ok =
  ok_id :: u64

definition Ok_toNetworkMessage :: "Ok \<Rightarrow> error + network_message" where
  "Ok_toNetworkMessage q = pack OK [u64V (ok_id q)]"

definition Ok_read :: "network_message \<Rightarrow> error + Ok" where
  "Ok_read nd = bind_res (unpack [Pod 8] nd) (\<lambda>vs. Inr \<lparr>ok_id = u64_of (vs ! 0)\<rparr>)"

record Login =
  login_login :: string

definition Login_toNetworkMessage :: "Login \<Rightarrow> error + network_message" where
  "Login_toNetworkMessage q = pack LOGIN [StrV (login_login q)]"

definition Login_read :: "network_message \<Rightarrow> error + Login" where
  "Login_read nd = bind_res (unpack [Str] nd) (\<lambda>vs. Inr \<lparr>login_login = str_of (vs ! 0)\<rparr>)"

record LoginConfirm =
  lc_id :: u64

definition LoginConfirm_toNetworkMessage :: "LoginConfirm \<Rightarrow> error + network_message" where
  "LoginConfirm_toNetworkMessage q = pack LOGIN_CONFIRM [u64V (lc_id q)]"

definition LoginConfirm_read :: "network_message \<Rightarrow> error + LoginConfirm" where
  "LoginConfirm_read nd = bind_res (unpack [Pod 8] nd) (\<lambda>vs. Inr \<lparr>lc_id = u64_of (vs ! 0)\<rparr>)"

record CreateQueue =
  cq_name :: string
  cq_msgId :: u64

definition CreateQueue_toNetworkMessage :: "CreateQueue \<Rightarrow> error + network_message" where
  "CreateQueue_toNetworkMessage q = pack CREATE_QUEUE [StrV (cq_name q), u64V (cq_msgId q)]"

definition CreateQueue_read :: "network_message \<Rightarrow> error + CreateQueue" where
  "CreateQueue_read nd = bind_res (unpack [Str, Pod 8] nd) (\<lambda>vs.
     Inr \<lparr>cq_name = str_of (vs ! 0), cq_msgId = u64_of (vs ! 1)\<rparr>)"

record ChangeSubscribe =
  cs_qname :: string
  cs_tag :: string
  cs_msgId :: u64

definition mk_ChangeSubscribe :: "SubscriptionParams \<Rightarrow> u64 \<Rightarrow> ChangeSubscribe" where
  "mk_ChangeSubscribe settings msgId =
     \<lparr>cs_qname = sub_queueName settings, cs_tag = sub_tag settings, cs_msgId = msgId\<rparr>"

definition ChangeSubscribe_toNetworkMessage :: "ChangeSubscribe \<Rightarrow> error + network_message" where
  "ChangeSubscribe_toNetworkMessage q =
     pack SUBSCRIBE [StrV (cs_qname q), StrV (cs_tag q), u64V (cs_msgId q)]"

definition ChangeSubscribe_read :: "network_message \<Rightarrow> error + ChangeSubscribe" where
  "ChangeSubscribe_read nd = bind_res (unpack [Str, Str, Pod 8] nd) (\<lambda>vs.
     Inr \<lparr>cs_qname = str_of (vs ! 0), cs_tag = str_of (vs ! 1), cs_msgId = u64_of (vs ! 2)\<rparr>)"

definition toParams :: "ChangeSubscribe \<Rightarrow> SubscriptionParams" where
  "toParams cs = mk_sub (cs_qname cs) (cs_tag cs)"

record Publish =
  p_qname :: string
  p_tag :: string
  p_messageId :: u64
  p_data :: "byte list"

definition mk_Publish :: "PublishParams \<Rightarrow> byte list \<Rightarrow> u64 \<Rightarrow> Publish" where
  "mk_Publish settings data messageId =
     \<lparr>p_qname = pub_queueName settings, p_tag = pub_tag settings, p_messageId = messageId,
      p_data = data\<rparr>"

definition Publish_toNetworkMessage :: "Publish \<Rightarrow> error + network_message" where
  "Publish_toNetworkMessage q =
     pack PUBLISH [StrV (p_qname q), StrV (p_tag q), bytesV (p_data q), u64V (p_messageId q)]"

definition Publish_read :: "network_message \<Rightarrow> error + Publish" where
  "Publish_read nd = bind_res (unpack [Str, Str, Vec 1, Pod 8] nd) (\<lambda>vs.
     Inr \<lparr>p_qname = str_of (vs ! 0), p_tag = str_of (vs ! 1), p_messageId = u64_of (vs ! 3),
          p_data = bytes_of (vs ! 2)\<rparr>)"

definition toPublishParams :: "Publish \<Rightarrow> PublishParams" where
  "toPublishParams p = mk_pub (p_qname p) (p_tag p)"

lemma params_inverse [simp]:
  "toPublishParams (mk_Publish p d m) = p" "p_data (mk_Publish p d m) = d" "p_messageId (mk_Publish p d m) = m"
  "toParams (mk_ChangeSubscribe sp m) = sp" "cs_msgId (mk_ChangeSubscribe sp m) = m"
  by (simp_all add: toPublishParams_def mk_Publish_def mk_pub_def toParams_def mk_ChangeSubscribe_def mk_sub_def)

section \<open>What a packed message is\<close>

text \<open>The bytes of a message on the wire, and the block a message of at most 2 GiB is.\<close>

definition frame :: "u16 \<Rightarrow> fval list \<Rightarrow> byte list" where
  "frame code vs =
     le_bytes 4 (Scheme_capacity vs + 6) @ le_bytes 2 (unat code) @ encode_all vs"

definition framed :: "byte list \<Rightarrow> network_message" where
  "framed bs = \<lparr>nm_data = map Some bs @ replicate (length bs) None\<rparr>"

lemma length_frame: "well_typed vs ts \<Longrightarrow> length (frame code vs) = Scheme_capacity vs + 6"
  by (simp add: frame_def capacity_encode)

lemma pack_small:
  assumes "well_typed vs ts" and "Scheme_capacity vs + 6 < 2 ^ 31"
  shows "pack k vs = Inr (framed (frame (kind_code k) vs))"
proof -
  let ?n = "Scheme_capacity vs"
  have len: "length (encode_all vs) = ?n" using assms(1) by (simp add: capacity_encode)
  have nm: "NetworkMessage (?n + 2) =
      Inr \<lparr>nm_data = map Some (le_bytes 4 (?n + 6)) @ replicate (?n + 2) (Some 0) @ replicate (?n + 6) None\<rparr>"
    using NetworkMessage_small [of "?n + 2"] assms(2) by (simp add: add.commute)
  have "NetworkMessage_kind ?n (kind_code k) =
      Inr \<lparr>nm_data = map Some (le_bytes 4 (?n + 6) @ le_bytes 2 (unat (kind_code k))) @
             replicate ?n (Some 0) @ replicate (?n + 6) None\<rparr>"
    unfolding NetworkMessage_kind_def message_sizes nm bind_res_simps
    by (simp add: set_header_kind_def mem_write_def)
  then show ?thesis
    using len assms(1)
    by (simp add: pack_def Scheme_write_def write_args_encode [OF assms(1)] mem_write_def
          framed_def frame_def)
qed

lemma holds_framed:
  assumes "cs \<noteq> []"
  shows "holds_at (nm_data (framed bs)) i cs \<longleftrightarrow> holds_at (map Some bs) i cs"
proof
  assume *: "holds_at (nm_data (framed bs)) i cs"
  have "i + (length cs - 1) < length bs"
    using * assms by (fastforce simp: holds_at_nth framed_def nth_append split: if_splits)
  then have le: "i + length cs \<le> length bs"
    using assms by (cases cs) auto
  then have "nm_data (framed bs) ! (i + j) = map Some bs ! (i + j)" if "j < length cs" for j
    using that by (simp add: framed_def nth_append)
  with * le show "holds_at (map Some bs) i cs" by (simp add: holds_at_nth)
qed (auto simp: holds_at_nth framed_def nth_append)

lemma frame_holds:
  assumes "well_typed vs ts"
  shows "holds_at (nm_data (framed (frame c vs))) 0 (frame c vs)"
    and "holds_at (nm_data (framed (frame c vs))) 0 (le_bytes 4 (Scheme_capacity vs + 6))"
    and "holds_at (nm_data (framed (frame c vs))) 4 (le_bytes 2 (unat c))"
    and "holds_at (nm_data (framed (frame c vs))) 6 (encode_all vs)"
  by (simp_all add: holds_at_def framed_def frame_def)

lemma header_kind_frame [simp]: "header_kind (framed (frame c vs)) = Inr c"
proof -
  have "mem_read (nm_data (framed (frame c vs))) 4 2 = Inr (le_bytes 2 (unat c))"
    by (simp add: mem_read_ok holds_at_def framed_def frame_def)
  then show ?thesis by (simp add: header_kind_def)
qed

lemma set_header_kind_frame [simp]:
  "set_header_kind (framed (frame c vs)) c' = Inr (framed (frame c' vs))"
  by (simp add: set_header_kind_def mem_write_def framed_def frame_def)

lemma as_buffer_frame:
  assumes "well_typed vs ts" and "Scheme_capacity vs + 6 < 2 ^ 32"
  shows "as_buffer (framed (frame c vs)) = Inr (frame c vs)"
proof -
  have "mem_read (nm_data (framed (frame c vs))) 0 4 = Inr (le_bytes 4 (Scheme_capacity vs + 6))"
    using frame_holds(2) [OF assms(1)] by (simp add: mem_read_ok)
  then have "nm_size (framed (frame c vs)) = Inr (word_of_nat (Scheme_capacity vs + 6))"
    using assms(2) by (simp add: nm_size_def le_value_le_bytes)
  moreover have "unat (word_of_nat (Scheme_capacity vs + 6) :: u32) = length (frame c vs)"
    using assms by (simp only: unat_u32 length_frame)
  moreover have "mem_read (nm_data (framed (frame c vs))) 0 (length (frame c vs)) = Inr (frame c vs)"
    using frame_holds(1) [OF assms(1)] by (simp only: mem_read_holds)
  ultimately show ?thesis by (simp add: as_buffer_def)
qed

lemma size_bounds_field: "has_type v t \<Longrightarrow> t \<noteq> Vec 0 \<Longrightarrow> get_size v < 2 ^ 32 \<Longrightarrow> fits32 v"
proof (cases v)
  case (VecV sz xs)
  assume "has_type v t" "t \<noteq> Vec 0" "get_size v < 2 ^ 32"
  with VecV have "0 < sz" and "length xs * sz < 2 ^ 32" by (cases t; simp)+
  then have "length xs < 2 ^ 32" by (cases sz) auto
  with VecV show ?thesis by simp
qed simp_all

lemma capacity_bounds_fields:
  "well_typed vs ts \<Longrightarrow> Vec 0 \<notin> set ts \<Longrightarrow> Scheme_capacity vs < 2 ^ 32 \<Longrightarrow> list_all fits32 vs"
  by (induction vs ts rule: list_all2_induct) (auto intro: size_bounds_field)

lemma unpack_frame:
  assumes "well_typed vs ts" and "list_all fits32 vs"
  shows "unpack ts (framed (frame c vs)) = Inr vs"
  unfolding unpack_def
  by (subst scheme.rd_iff) (use assms frame_holds(4) [OF assms(1)] in \<open>auto simp: framed_def frame_def\<close>)

text \<open>A message that would need 2 GiB or more is never built: some write leaves the block.\<close>

lemma NetworkMessage_length:
  "NetworkMessage sz = Inr nd \<Longrightarrow> length (nm_data nd) = 2 * (sz + 4) mod 2 ^ 32"
proof -
  assume *: "NetworkMessage sz = Inr nd"
  have "word_of_nat (sz + 4) * 2 = (word_of_nat (2 * (sz + 4)) :: u32)" by simp
  then have "unat (word_of_nat (sz + 4) * 2 :: u32) = 2 * (sz + 4) mod 2 ^ 32"
    by (simp only: unat_of_nat) simp
  with * show ?thesis
    by (auto simp: NetworkMessage_def Let_def mem_set_def dest!: mem_write_length)
qed

lemma overrun_only:
  "mem_write blk i bs = Inl e \<Longrightarrow> e = Undef BufferOverrun"
  "NetworkMessage sz = Inl e \<Longrightarrow> e = Undef BufferOverrun"
  "set_header_kind nd k = Inl e \<Longrightarrow> e = Undef BufferOverrun"
  by (auto simp: mem_write_def NetworkMessage_def set_header_kind_def mem_set_def Let_def bind_res_def
      split: if_splits sum.splits)

lemma pack_large:
  assumes "well_typed vs ts" and "vs \<noteq> []" and "2 ^ 31 \<le> Scheme_capacity vs + 6"
  shows "pack k vs = Inl (Undef BufferOverrun)"
proof -
  let ?n = "Scheme_capacity vs"
  have "2 * (?n + 6) mod 2 ^ 32 < ?n + 6"
  proof (cases "?n + 6 < 2 ^ 32")
    case True
    with assms(3) show ?thesis by (simp add: mod_if) arith
  next
    case False
    have "2 * (?n + 6) mod 2 ^ 32 < 2 ^ 32" by simp
    with False show ?thesis by linarith
  qed
  then have short: "Scheme_write (nm_data nd) 6 vs = Inl (Undef BufferOverrun)"
    if "NetworkMessage (?n + 2) = Inr nd'" "set_header_kind nd' c = Inr nd" for nd nd' c
    using NetworkMessage_length [OF that(1)] that(2)
    by (simp add: Scheme_write_short_block [OF assms(1,2)] add.commute)
       (auto simp: set_header_kind_def mem_write_ok)
  show ?thesis
  proof (cases "NetworkMessage_kind ?n (kind_code k)")
    case (Inl e)
    then have "e = Undef BufferOverrun"
      by (auto simp: NetworkMessage_kind_def bind_res_def dest: overrun_only split: sum.splits)
    with Inl show ?thesis by (simp add: pack_def)
  next
    case (Inr nd)
    with short show ?thesis by (auto simp: pack_def NetworkMessage_kind_def)
  qed
qed

section \<open>The contract of a message\<close>

text \<open>
  A message type is a kind, the types of its fields, and the two conversions between the message
  and its fields. Everything the protocol needs follows.
\<close>

locale wire_query =
  fixes kind :: MessageKinds
    and tys :: "fty list"
    and fields :: "'q \<Rightarrow> fval list"
    and build :: "fval list \<Rightarrow> 'q"
  assumes typed: "well_typed (fields q) tys"
    and build_fields: "build (fields q) = q"
    and some_field: "tys \<noteq> []"
    and sized: "Vec 0 \<notin> set tys"
begin

lemma fields_nonempty: "fields q \<noteq> []"
  using typed [of q] some_field by auto

lemma packs_iff: "(\<exists>nd. pack kind (fields q) = Inr nd) \<longleftrightarrow> Scheme_capacity (fields q) + 6 < 2 ^ 31"
  using pack_small [OF typed, of q kind] pack_large [OF typed fields_nonempty, of q kind]
  by (metis Inl_Inr_False leI)

lemma packed:
  "pack kind (fields q) = Inr nd \<Longrightarrow>
     nd = framed (frame (kind_code kind) (fields q)) \<and> Scheme_capacity (fields q) + 6 < 2 ^ 31"
  using pack_small [OF typed, of q kind] packs_iff [of q] by fastforce

lemma packed_fits: "pack kind (fields q) = Inr nd \<Longrightarrow> list_all fits32 (fields q)"
  using packed [of q nd] capacity_bounds_fields [OF typed sized] by fastforce

lemma read_back:
  "list_all fits32 (fields q) \<Longrightarrow>
   bind_res (unpack tys (framed (frame c (fields q)))) (\<lambda>vs. Inr (build vs)) = Inr q"
  using unpack_frame [OF typed] build_fields by simp

lemma round_trip:
  assumes "pack kind (fields q) = Inr nd"
  shows "bind_res (unpack tys nd) (\<lambda>vs. Inr (build vs)) = Inr q" and "header_kind nd = Inr (kind_code kind)"
    and "as_buffer nd = Inr (frame (kind_code kind) (fields q))"
  using packed [OF assms] read_back [OF packed_fits [OF assms]] as_buffer_frame [OF typed] by auto

text \<open>Sending and receiving as one function: what a peer sees of a message, or the error.\<close>

lemma transfer:
  "bind_res (pack kind (fields q)) (\<lambda>nd. bind_res (header_kind nd) (\<lambda>k.
     bind_res (bind_res (unpack tys nd) (\<lambda>vs. Inr (build vs))) (\<lambda>q'. Inr (k, q')))) =
   (if Scheme_capacity (fields q) + 6 < 2 ^ 31 then Inr (kind_code kind, q)
    else Inl (Undef BufferOverrun))"
proof (cases "Scheme_capacity (fields q) + 6 < 2 ^ 31")
  case True
  then obtain nd where "pack kind (fields q) = Inr nd" using packs_iff by blast
  with True show ?thesis using round_trip [of q nd] by simp
next
  case False
  with pack_large [OF typed fields_nonempty] show ?thesis by simp
qed

end

interpretation ok: wire_query OK "[Pod 8]" "\<lambda>q. [u64V (ok_id q)]" "\<lambda>vs. \<lparr>ok_id = u64_of (vs ! 0)\<rparr>"
  by unfold_locales auto

interpretation login: wire_query LOGIN "[Str]" "\<lambda>q. [StrV (login_login q)]"
  "\<lambda>vs. \<lparr>login_login = str_of (vs ! 0)\<rparr>"
  by unfold_locales auto

interpretation login_confirm: wire_query LOGIN_CONFIRM "[Pod 8]" "\<lambda>q. [u64V (lc_id q)]"
  "\<lambda>vs. \<lparr>lc_id = u64_of (vs ! 0)\<rparr>"
  by unfold_locales auto

interpretation create_queue: wire_query CREATE_QUEUE "[Str, Pod 8]"
  "\<lambda>q. [StrV (cq_name q), u64V (cq_msgId q)]"
  "\<lambda>vs. \<lparr>cq_name = str_of (vs ! 0), cq_msgId = u64_of (vs ! 1)\<rparr>"
  by unfold_locales auto

interpretation change_subscribe: wire_query SUBSCRIBE "[Str, Str, Pod 8]"
  "\<lambda>q. [StrV (cs_qname q), StrV (cs_tag q), u64V (cs_msgId q)]"
  "\<lambda>vs. \<lparr>cs_qname = str_of (vs ! 0), cs_tag = str_of (vs ! 1), cs_msgId = u64_of (vs ! 2)\<rparr>"
  by unfold_locales auto

interpretation publish: wire_query PUBLISH "[Str, Str, Vec 1, Pod 8]"
  "\<lambda>q. [StrV (p_qname q), StrV (p_tag q), bytesV (p_data q), u64V (p_messageId q)]"
  "\<lambda>vs. \<lparr>p_qname = str_of (vs ! 0), p_tag = str_of (vs ! 1), p_messageId = u64_of (vs ! 3),
          p_data = bytes_of (vs ! 2)\<rparr>"
  by unfold_locales (auto simp: numeral_3_eq_3)

section \<open>Properties\<close>

lemmas message_defs =
  Ok_toNetworkMessage_def Ok_read_def Login_toNetworkMessage_def Login_read_def
  LoginConfirm_toNetworkMessage_def LoginConfirm_read_def CreateQueue_toNetworkMessage_def
  CreateQueue_read_def ChangeSubscribe_toNetworkMessage_def ChangeSubscribe_read_def
  Publish_toNetworkMessage_def Publish_read_def

text \<open>Every message as its receiver sees it.\<close>

lemma Ok_sent:
  "Ok_toNetworkMessage q = Inr nd \<Longrightarrow> header_kind nd = Inr (kind_code OK) \<and> Ok_read nd = Inr q"
  unfolding Ok_toNetworkMessage_def Ok_read_def by (intro conjI ok.round_trip(1,2))

lemma Login_sent:
  "Login_toNetworkMessage q = Inr nd \<Longrightarrow> header_kind nd = Inr (kind_code LOGIN) \<and> Login_read nd = Inr q"
  unfolding Login_toNetworkMessage_def Login_read_def by (intro conjI login.round_trip(1,2))

lemma LoginConfirm_sent:
  "LoginConfirm_toNetworkMessage q = Inr nd \<Longrightarrow> header_kind nd = Inr (kind_code LOGIN_CONFIRM) \<and> LoginConfirm_read nd = Inr q"
  unfolding LoginConfirm_toNetworkMessage_def LoginConfirm_read_def by (intro conjI login_confirm.round_trip(1,2))

lemma CreateQueue_sent:
  "CreateQueue_toNetworkMessage q = Inr nd \<Longrightarrow> header_kind nd = Inr (kind_code CREATE_QUEUE) \<and> CreateQueue_read nd = Inr q"
  unfolding CreateQueue_toNetworkMessage_def CreateQueue_read_def by (intro conjI create_queue.round_trip(1,2))

lemma ChangeSubscribe_sent:
  "ChangeSubscribe_toNetworkMessage q = Inr nd \<Longrightarrow> header_kind nd = Inr (kind_code SUBSCRIBE) \<and> ChangeSubscribe_read nd = Inr q"
  unfolding ChangeSubscribe_toNetworkMessage_def ChangeSubscribe_read_def by (intro conjI change_subscribe.round_trip(1,2))

lemma Publish_sent:
  "Publish_toNetworkMessage q = Inr nd \<Longrightarrow> header_kind nd = Inr (kind_code PUBLISH) \<and> Publish_read nd = Inr q"
  unfolding Publish_toNetworkMessage_def Publish_read_def by (intro conjI publish.round_trip(1,2))

text \<open>What the receiver gets of a message that is sent: its kind and what it is read as.\<close>

definition transfer ::
  "('q \<Rightarrow> error + network_message) \<Rightarrow> (network_message \<Rightarrow> error + 'q) \<Rightarrow> 'q \<Rightarrow> error + u16 \<times> 'q" where
  "transfer to_nd from_nd q =
     bind_res (to_nd q) (\<lambda>nd. bind_res (header_kind nd) (\<lambda>k.
     bind_res (from_nd nd) (\<lambda>q'. Inr (k, q'))))"


text \<open>C31: the other five messages survive the wire in the same way, each under its own kind: the two
  of fixed size always, the three with strings exactly while they stay below 2 GiB.\<close>

theorem control_messages_roundtrip:
  "transfer Ok_toNetworkMessage Ok_read a = Inr (kind_code OK, a) \<and>
   transfer LoginConfirm_toNetworkMessage LoginConfirm_read b = Inr (kind_code LOGIN_CONFIRM, b) \<and>
   transfer Login_toNetworkMessage Login_read c =
     (if length (login_login c) + 10 < 2 ^ 31
      then Inr (kind_code LOGIN, c) else Inl (Undef BufferOverrun)) \<and>
   transfer CreateQueue_toNetworkMessage CreateQueue_read d =
     (if length (cq_name d) + 18 < 2 ^ 31
      then Inr (kind_code CREATE_QUEUE, d) else Inl (Undef BufferOverrun)) \<and>
   transfer ChangeSubscribe_toNetworkMessage ChangeSubscribe_read e =
     (if length (cs_qname e) + length (cs_tag e) + 22 < 2 ^ 31
      then Inr (kind_code SUBSCRIBE, e) else Inl (Undef BufferOverrun))"
  using ok.transfer [of a] login_confirm.transfer [of b] login.transfer [of c]
    create_queue.transfer [of d] change_subscribe.transfer [of e]
  by (simp add: transfer_def message_defs add.commute add.left_commute)

end
