(* ===== verification/Async_IO.thy ===== *)
theory Async_IO
  imports Queries
begin

text \<open>
  \<^verbatim>\<open>libdqueue/async_io.cpp\<close>: the two loops that move messages over a socket. The socket is Boost's;
  what the code asks of it (an \<open>async_read\<close> of so many bytes, an \<open>async_write\<close> of a buffer) is part
  of the state or of the result, and what the operating system answers (bytes, an error) is an
  argument of the completion handlers. \<open>async_read\<close> completes with as many bytes as it asked for or
  with an error; bytes are stored as they arrive, before the operation completes.

  The interesting part is the framing: \<open>pump\<close> lets the handlers run on the bytes that have arrived
  so far, and the lemmas show which messages come out of which streams.
\<close>

text \<open>The outstanding read of a connection: none, the size prefix, or the rest of a message.\<close>

datatype pending_read = NoRead | ReadSize | ReadBody network_message nat

record async_io =
  messages_to_send :: u32
  sock_alive :: bool
  sock_open :: bool
  io_is_stoped :: bool
  begin_stoping_flag :: "bool option"
  next_message_size :: u32
  pending :: pending_read

definition AsyncIO :: async_io where
  "AsyncIO = \<lparr>messages_to_send = 0, sock_alive = False, sock_open = False, io_is_stoped = True,
     begin_stoping_flag = None, next_message_size = 0, pending = NoRead\<rparr>"

definition readNextAsync :: "async_io \<Rightarrow> async_io" where
  "readNextAsync io = io\<lparr>pending := (if sock_alive io then ReadSize else NoRead)\<rparr>"

definition io_start :: "async_io \<Rightarrow> async_io" where
  "io_start io =
     (if \<not> io_is_stoped io then io
      else readNextAsync (io\<lparr>sock_alive := True, sock_open := True, io_is_stoped := False,
                             begin_stoping_flag := Some False\<rparr>))"

definition full_stop :: "async_io \<Rightarrow> async_io" where
  "full_stop io =
     (let io = io\<lparr>begin_stoping_flag := Some True\<rparr> in
      if sock_alive io \<and> sock_open io then io\<lparr>sock_open := False\<rparr> else io)"

text \<open>\<open>send\<close>: the buffer handed to \<open>async_write\<close>, if any. The flag is read even if it was never set.\<close>

definition io_send :: "network_message \<Rightarrow> (async_io, byte list option) proc" where
  "io_send d io =
     (case begin_stoping_flag io of
        None \<Rightarrow> (Inl (Undef UninitialisedRead), io)
      | Some True \<Rightarrow> (Inr None, io)
      | Some False \<Rightarrow>
          bind (lift (as_buffer d)) (\<lambda>buf.
          if sock_alive io
          then bind (modify (\<lambda>io. io\<lparr>messages_to_send := messages_to_send io + 1\<rparr>)) (\<lambda>_. ret (Some buf))
          else ret None) io)"

text \<open>The completion of an \<open>async_write\<close>: whether the error handler is called.\<close>

definition on_write :: "bool \<Rightarrow> (async_io, bool) proc" where
  "on_write err =
     (if err then ret True
      else bind (modify (\<lambda>io. io\<lparr>messages_to_send := messages_to_send io - 1\<rparr>)) (\<lambda>_. ret False))"

text \<open>The subtraction is done in \<open>size_t\<close>. The handler of the size prefix yields the message and the
  length of the \<open>async_read\<close> it starts.\<close>

definition data_left :: "u32 \<Rightarrow> nat" where
  "data_left n = unat (word_of_nat (unat n) - word_of_nat SIZE_OF_MESSAGE_SIZE :: u64)"

definition on_read_size :: "byte list \<Rightarrow> (async_io, network_message \<times> nat) proc" where
  "on_read_size bs =
     bind (modify (\<lambda>io. io\<lparr>next_message_size := word_of_nat (le_value bs)\<rparr>)) (\<lambda>_.
     if length bs \<noteq> SIZE_OF_MESSAGE_SIZE then throw (Throw WrongMarkerSize)
     else (\<lambda>io. let left = data_left (next_message_size io) in
                bind (lift (NetworkMessage left)) (\<lambda>d. ret (d, left)) io))"

text \<open>The bytes of a message, in its buffer behind the size.\<close>

definition on_read_message :: "network_message \<Rightarrow> byte list \<Rightarrow> error + network_message" where
  "on_read_message d bs =
     bind_res (mem_write (nm_data d) SIZE_OF_MESSAGE_SIZE bs) (\<lambda>data. Inr (d\<lparr>nm_data := data\<rparr>))"

text \<open>What became of the bytes that arrived: an error if one occurred, the messages handed to the
  receive handler (which does not cancel), the connection, and the bytes not yet consumed.\<close>

type_synonym pumped = "(error + unit) \<times> network_message list \<times> async_io \<times> byte list"

definition prepend :: "network_message list \<Rightarrow> pumped \<Rightarrow> pumped" where
  "prepend ms p = (fst p, ms @ fst (snd p), snd (snd p))"

function pump :: "async_io \<Rightarrow> byte list \<Rightarrow> pumped" where
  "pump io bs =
     (case pending io of
        NoRead \<Rightarrow> (Inr (), [], io, bs)
      | ReadSize \<Rightarrow>
          if length bs < SIZE_OF_MESSAGE_SIZE then (Inr (), [], io, bs)
          else (case on_read_size (take SIZE_OF_MESSAGE_SIZE bs) io of
                  (Inl e, io') \<Rightarrow> (Inl e, [], io', drop SIZE_OF_MESSAGE_SIZE bs)
                | (Inr (d, n), io') \<Rightarrow>
                    pump (io'\<lparr>pending := ReadBody d n\<rparr>) (drop SIZE_OF_MESSAGE_SIZE bs))
      | ReadBody d n \<Rightarrow>
          if length bs < n
          then (if SIZE_OF_MESSAGE_SIZE + length bs \<le> length (nm_data d)
                then (Inr (), [], io, bs) else (Inl (Undef BufferOverrun), [], io, bs))
          else (case on_read_message d (take n bs) of
                  Inl e \<Rightarrow> (Inl e, [], io, bs)
                | Inr d' \<Rightarrow> prepend [d'] (pump (readNextAsync io) (drop n bs))))"
  by pat_completeness auto
termination
  by (relation "measure (\<lambda>(io, bs). 2 * length bs + (case pending io of ReadBody d n \<Rightarrow> 1 | _ \<Rightarrow> 0))")
     (auto simp: readNextAsync_def)

declare pump.simps [simp del]

lemma prepend_simps [simp]:
  "prepend ms (r, ms', x) = (r, ms @ ms', x)" "prepend [] p = p" "prepend ms (prepend ms' p) = prepend (ms @ ms') p"
  by (simp_all add: prepend_def)

section \<open>Framing\<close>

text \<open>The bytes of one message on the wire: its own length, as the prefix says.\<close>

definition wire_frame :: "byte list \<Rightarrow> bool" where
  "wire_frame bs \<longleftrightarrow> 4 \<le> length bs \<and> length bs < 2 ^ 31 \<and> take 4 bs = le_bytes 4 (length bs)"

definition ready :: "async_io \<Rightarrow> bool" where
  "ready io \<longleftrightarrow> pending io = ReadSize \<and> sock_alive io"

lemma le_value_4: "n < 2 ^ 32 \<Longrightarrow> le_value (le_bytes 4 n) = n"
  by (simp add: le_value_le_bytes)

lemma data_left_simp: "4 \<le> n \<Longrightarrow> n < 2 ^ 32 \<Longrightarrow> data_left (word_of_nat n) = n - 4"
  by (simp add: data_left_def unat_of_nat unat_sub word_le_nat_alt)

lemma on_read_size_run:
  assumes "n < 2 ^ 32"
  shows "on_read_size (le_bytes 4 n) io =
    (case NetworkMessage (data_left (word_of_nat n)) of
       Inl e \<Rightarrow> (Inl e, io\<lparr>next_message_size := word_of_nat n\<rparr>)
     | Inr d \<Rightarrow> (Inr (d, data_left (word_of_nat n)), io\<lparr>next_message_size := word_of_nat n\<rparr>))"
  using assms by (simp add: on_read_size_def proc_defs le_value_4 Let_def split: sum.split)

lemma pump_idle: "pending io = ReadSize \<Longrightarrow> length bs < 4 \<Longrightarrow> pump io bs = (Inr (), [], io, bs)"
  by (subst pump.simps) simp

lemma pump_size:
  "pending io = ReadSize \<Longrightarrow> 4 \<le> length bs \<Longrightarrow> on_read_size (take 4 bs) io = (Inr (d, n), io') \<Longrightarrow>
   pump io bs = pump (io'\<lparr>pending := ReadBody d n\<rparr>) (drop 4 bs)"
  by (subst pump.simps) simp

lemma pump_size_error:
  "pending io = ReadSize \<Longrightarrow> 4 \<le> length bs \<Longrightarrow> on_read_size (take 4 bs) io = (Inl e, io') \<Longrightarrow>
   pump io bs = (Inl e, [], io', drop 4 bs)"
  by (subst pump.simps) simp

lemma pump_body:
  "pending io = ReadBody d n \<Longrightarrow> n \<le> length bs \<Longrightarrow> on_read_message d (take n bs) = Inr d' \<Longrightarrow>
   pump io bs = prepend [d'] (pump (readNextAsync io) (drop n bs))"
  by (subst pump.simps) simp

lemma pump_frame:
  assumes "ready io" and "wire_frame bs"
  shows "pump io (bs @ rest) =
    prepend [framed bs] (pump (io\<lparr>next_message_size := word_of_nat (length bs)\<rparr>) rest)"
proof -
  let ?n = "length bs" and ?io = "io\<lparr>next_message_size := word_of_nat (length bs)\<rparr>"
  from assms(2) have n: "4 \<le> ?n" "?n < 2 ^ 31" and prefix: "take 4 bs = le_bytes 4 ?n"
    by (auto simp: wire_frame_def)
  obtain body where bs: "bs = le_bytes 4 ?n @ body" using prefix by (metis append_take_drop_id)
  then have len: "length body = ?n - 4" by (metis length_append length_le_bytes add_diff_cancel_left')
  let ?d = "\<lparr>nm_data = map Some (le_bytes 4 ?n) @ replicate (?n - 4) (Some 0) @ replicate ?n None\<rparr>"
  have "NetworkMessage (?n - 4) = Inr ?d"
    using NetworkMessage_small [of "?n - 4"] n by simp
  moreover have "data_left (word_of_nat ?n) = ?n - 4" using n by (intro data_left_simp) auto
  ultimately have size: "on_read_size (le_bytes 4 ?n) io = (Inr (?d, ?n - 4), ?io)"
    using n by (subst on_read_size_run) auto
  have msg: "on_read_message ?d body = Inr (framed bs)"
    using len n bs by (simp add: on_read_message_def mem_write_def framed_def) (metis map_append)
  have take: "take 4 (bs @ rest) = le_bytes 4 ?n" "drop 4 (bs @ rest) = body @ rest"
    using n prefix bs by (auto simp: drop_append) (metis append_eq_conv_conj length_le_bytes)
  have same: "readNextAsync (?io\<lparr>pending := x\<rparr>) = ?io" for x
    using assms(1) by (cases io) (simp add: ready_def readNextAsync_def)
  have "pump io (bs @ rest) = pump (?io\<lparr>pending := ReadBody ?d (?n - 4)\<rparr>) (body @ rest)"
    using assms(1) n size unfolding ready_def take(2) [symmetric] by (intro pump_size) (simp_all add: prefix)
  also have "\<dots> = prepend [framed bs] (pump ?io rest)"
    using assms(1) len msg by (subst pump_body) (auto simp: same)
  finally show ?thesis .
qed

lemma pump_frames:
  "ready io \<Longrightarrow> list_all wire_frame fs \<Longrightarrow>
   \<exists>n. pump io (concat fs @ rest) = prepend (map framed fs) (pump (io\<lparr>next_message_size := n\<rparr>) rest)"
proof (induction fs arbitrary: io)
  case Nil
  then show ?case by (intro exI [of _ "next_message_size io"]) simp
next
  case (Cons f fs)
  let ?io = "io\<lparr>next_message_size := word_of_nat (length f)\<rparr>"
  have "ready ?io" using Cons.prems(1) by (simp add: ready_def)
  with Cons.IH [of ?io] Cons.prems(2) obtain n where
    n: "pump ?io (concat fs @ rest) = prepend (map framed fs) (pump (?io\<lparr>next_message_size := n\<rparr>) rest)" by auto
  have "pump io (f @ concat fs @ rest) = prepend [framed f] (pump ?io (concat fs @ rest))"
    using Cons.prems by (intro pump_frame) auto
  then show ?case by (intro exI [of _ n]) (simp add: n)
qed

text \<open>Every packed message is such a frame, and its buffer is what is sent.\<close>

lemma packed_wire_frame:
  assumes "well_typed vs ts" and "pack k vs = Inr nd" and "vs \<noteq> []"
  shows "wire_frame (frame (kind_code k) vs)" and "nd = framed (frame (kind_code k) vs)"
    and "as_buffer nd = Inr (frame (kind_code k) vs)"
proof -
  have small: "Scheme_capacity vs + 6 < 2 ^ 31"
    using assms pack_large [of vs ts k] by (cases "Scheme_capacity vs + 6 < 2 ^ 31") auto
  then show nd: "nd = framed (frame (kind_code k) vs)" using assms pack_small by fastforce
  show "as_buffer nd = Inr (frame (kind_code k) vs)"
    unfolding nd using as_buffer_frame [OF assms(1)] small by simp
  show "wire_frame (frame (kind_code k) vs)"
    using small length_frame [OF assms(1)] by (simp add: wire_frame_def) (simp add: frame_def)
qed

section \<open>Arrival in pieces\<close>

text \<open>Bytes that arrive later continue where the earlier ones left off.\<close>

definition resume :: "pumped \<Rightarrow> byte list \<Rightarrow> pumped" where
  "resume p cs =
     (case p of
        (Inl e, ms, io, left) \<Rightarrow> (Inl e, ms, io, left @ cs)
      | (Inr _, ms, io, left) \<Rightarrow> prepend ms (pump io (left @ cs)))"

lemma resume_simps [simp]:
  "resume (Inl e, ms, io, left) cs = (Inl e, ms, io, left @ cs)"
  "resume (Inr u, ms, io, left) cs = prepend ms (pump io (left @ cs))"
  by (simp_all add: resume_def)

lemma resume_prepend: "resume (prepend ms p) cs = prepend ms (resume p cs)"
  by (cases p rule: prod_cases4; cases "fst p") auto

lemma pump_body_error:
  "pending io = ReadBody d n \<Longrightarrow> n \<le> length bs \<Longrightarrow> on_read_message d (take n bs) = Inl e \<Longrightarrow>
   pump io bs = (Inl e, [], io, bs)"
  by (subst pump.simps) simp

lemma pump_body_wait:
  "pending io = ReadBody d n \<Longrightarrow> length bs < n \<Longrightarrow>
   pump io bs = (if 4 + length bs \<le> length (nm_data d) then Inr () else Inl (Undef BufferOverrun), [], io, bs)"
  by (subst pump.simps) simp

lemma pump_append: "pump io (bs @ cs) = resume (pump io bs) cs"
proof (induction io bs rule: pump.induct)
  case (1 io bs)
  show ?case
  proof (cases "pending io")
    case NoRead
    then have "pump io xs = (Inr (), [], io, xs)" for xs by (subst pump.simps) simp
    then show ?thesis by simp
  next
    case ReadSize
    obtain r io' where size: "on_read_size (take 4 bs) io = (r, io')" by fastforce
    show ?thesis
    proof (cases "length bs < 4")
      case True
      with ReadSize show ?thesis by (simp add: pump_idle)
    next
      case long: False
      show ?thesis
      proof (cases r)
        case (Inl e)
        with long ReadSize size show ?thesis by (simp add: pump_size_error)
      next
        case (Inr dn)
        obtain d n where dn: "dn = (d, n)" by fastforce
        let ?io = "io'\<lparr>pending := ReadBody d n\<rparr>"
        have "pump io (bs @ cs) = pump ?io (drop 4 bs @ cs)" "pump io bs = pump ?io (drop 4 bs)"
          using long ReadSize size Inr dn by (simp_all add: pump_size)
        moreover have "pump ?io (drop 4 bs @ cs) = resume (pump ?io (drop 4 bs)) cs"
          by (rule 1(1) [unfolded message_sizes, OF ReadSize]) (use long size Inr dn in auto)
        ultimately show ?thesis by simp
      qed
    qed
  next
    case (ReadBody d n)
    show ?thesis
    proof (cases "length bs < n")
      case True
      then show ?thesis
        by (cases "length (bs @ cs) < n"; cases "4 + length bs \<le> length (nm_data d)")
           (auto simp: pump_body_wait [OF ReadBody] pump_body_error [OF ReadBody] on_read_message_def mem_write_def)
    next
      case False
      then show ?thesis
        using 1(2) [OF ReadBody] 
        by (cases "on_read_message d (take n bs)")
           (auto simp: pump_body_error [OF ReadBody] pump_body [OF ReadBody] resume_prepend)
    qed
  qed
qed

text \<open>A stream that arrives in pieces, cut anywhere.\<close>

definition arrive :: "async_io \<Rightarrow> byte list list \<Rightarrow> pumped" where
  "arrive io pieces = fold (\<lambda>c p. resume p c) pieces (Inr (), [], io, [])"

lemma pump_ready_nil: "ready io \<Longrightarrow> pump io [] = (Inr (), [], io, [])"
  by (simp add: ready_def pump_idle)

lemma fold_resume: "fold (\<lambda>c p. resume p c) pieces (pump io bs) = pump io (bs @ concat pieces)"
  by (induction pieces arbitrary: bs) (simp_all flip: pump_append)

lemma arrive_pump: "ready io \<Longrightarrow> arrive io pieces = pump io (concat pieces)"
  using fold_resume [of pieces io "[]"] by (simp add: arrive_def pump_ready_nil)

text \<open>A message that \<open>toNetworkMessage\<close> built.\<close>

definition packed :: "network_message \<Rightarrow> bool" where
  "packed nd \<longleftrightarrow> (\<exists>k vs ts. well_typed vs ts \<and> vs \<noteq> [] \<and> pack k vs = Inr nd)"

definition wire_bytes :: "network_message \<Rightarrow> byte list" where
  "wire_bytes nd = (case as_buffer nd of Inr bs \<Rightarrow> bs | Inl _ \<Rightarrow> [])"

lemma packed_wire: "packed nd \<Longrightarrow> wire_frame (wire_bytes nd) \<and> framed (wire_bytes nd) = nd"
  using packed_wire_frame by (fastforce simp: packed_def wire_bytes_def)

lemma packed_buffer: "packed nd \<Longrightarrow> as_buffer nd = Inr (wire_bytes nd)"
  using packed_wire_frame(3) by (fastforce simp: packed_def wire_bytes_def)

section \<open>The receive handler\<close>

text \<open>The read loop with its receive handler: an exception of the handler leaves the loop, the next read
  is not started.\<close>

definition receive :: "(network_message \<Rightarrow> ('s, unit) proc) \<Rightarrow> async_io \<Rightarrow> byte list \<Rightarrow> ('s, unit) proc" where
  "receive on_recv io bs s =
     (case pump io bs of
        (r, nds, _, _) \<Rightarrow> bind (for_each nds on_recv) (\<lambda>_. lift r) s)"

lemma receive_frame:
  assumes "ready io" and "wire_frame bs"
  shows "receive on_recv io (bs @ rest) s =
    bind (on_recv (framed bs)) (\<lambda>_. receive on_recv (io\<lparr>next_message_size := word_of_nat (length bs)\<rparr>) rest) s"
proof -
  obtain r nds io' left where p: "pump (io\<lparr>next_message_size := word_of_nat (length bs)\<rparr>) rest = (r, nds, io', left)"
    by (cases "pump (io\<lparr>next_message_size := word_of_nat (length bs)\<rparr>) rest" rule: prod_cases4)
  then show ?thesis
    by (auto simp: receive_def pump_frame [OF assms] bind_def split: sum.split prod.split)
qed

section \<open>Connections that send\<close>

definition live :: "async_io \<Rightarrow> bool" where
  "live io \<longleftrightarrow> begin_stoping_flag io = Some False \<and> sock_alive io"

lemma io_send_live: "live io \<Longrightarrow> live (snd (io_send d io))"
  by (auto simp: live_def io_send_def proc_defs split: option.split bool.split sum.split)

lemma live_start [simp]: "live (io_start AsyncIO)"
  by (simp add: live_def io_start_def AsyncIO_def readNextAsync_def)

text \<open>A message short enough to be built.\<close>

definition short :: "PublishParams \<Rightarrow> byte list \<Rightarrow> bool" where
  "short p d \<longleftrightarrow> length (pub_queueName p) + length (pub_tag p) + length d + 26 < 2 ^ 31"

lemma Publish_packs:
  assumes "short p d"
  obtains nd where "Publish_toNetworkMessage (mk_Publish p d m) = Inr nd" and "packed nd"
    and "Publish_read nd = Inr (mk_Publish p d m)"
proof -
  let ?q = "mk_Publish p d m"
  have "Scheme_capacity [StrV (p_qname ?q), StrV (p_tag ?q), bytesV (p_data ?q), u64V (p_messageId ?q)] + 6 < 2 ^ 31"
    using assms by (simp add: mk_Publish_def short_def)
  then obtain nd where nd: "pack PUBLISH [StrV (p_qname ?q), StrV (p_tag ?q), bytesV (p_data ?q), u64V (p_messageId ?q)] = Inr nd"
    using publish.packs_iff by blast
  moreover have "packed nd"
    unfolding packed_def by (intro exI conjI) (rule publish.typed [of ?q], simp, rule nd)
  ultimately show thesis
    using that publish.round_trip(1) [OF nd] by (simp add: Publish_toNetworkMessage_def Publish_read_def)
qed

lemma io_send_packed:
  "live io \<Longrightarrow> packed nd \<Longrightarrow> \<exists>io'. io_send nd io = (Inr (Some (wire_bytes nd)), io') \<and> live io'"
  by (simp add: io_send_def live_def packed_buffer proc_defs)

text \<open>Every message of the protocol is packed, if it could be built.\<close>

lemma packed_Login: "Login_toNetworkMessage q = Inr nd \<Longrightarrow> packed nd"
  unfolding packed_def Login_toNetworkMessage_def
  by (intro exI [of _ LOGIN] exI [of _ "[StrV (login_login q)]"] exI [of _ "[Str]"]) simp

lemma packed_CreateQueue: "CreateQueue_toNetworkMessage q = Inr nd \<Longrightarrow> packed nd"
  unfolding packed_def CreateQueue_toNetworkMessage_def
  by (intro exI [of _ CREATE_QUEUE] exI [of _ "[StrV (cq_name q), u64V (cq_msgId q)]"] exI [of _ "[Str, Pod 8]"]) simp

lemma packed_Publish: "Publish_toNetworkMessage q = Inr nd \<Longrightarrow> packed nd"
  unfolding packed_def Publish_toNetworkMessage_def
  by (rule exI [of _ PUBLISH], rule exI, rule exI, rule conjI, rule publish.typed [of q]) simp

section \<open>Properties\<close>

text \<open>C14: the reader recovers the messages. Whatever messages the other side packed and sent one
  after the other, and however the network cuts the stream into pieces, the receive handler gets
  exactly those messages, byte for byte and in order, nothing is left over, and the connection
  waits for the next size.\<close>

theorem stream_delivers_messages:
  assumes "ready io" and "list_all packed nds" and "concat pieces = concat (map wire_bytes nds)"
  shows "\<exists>n. arrive io pieces = (Inr (), nds, io\<lparr>next_message_size := n\<rparr>, [])"
proof -
  have frames: "list_all wire_frame (map wire_bytes nds)"
    using assms(2) packed_wire by (auto simp: list_all_iff)
  have same: "map framed (map wire_bytes nds) = nds"
    using assms(2) packed_wire by (induction nds) auto
  obtain n where "pump io (concat (map wire_bytes nds) @ []) =
      prepend nds (pump (io\<lparr>next_message_size := n\<rparr>) [])"
    using pump_frames [OF assms(1) frames, of "[]"] same by auto
  moreover have "ready (io\<lparr>next_message_size := n\<rparr>)" using assms(1) by (simp add: ready_def)
  ultimately show ?thesis by (auto simp: arrive_pump [OF assms(1)] assms(3) pump_ready_nil)
qed

lemma packed_Ok: "Ok_toNetworkMessage q = Inr nd \<Longrightarrow> packed nd"
  unfolding packed_def Ok_toNetworkMessage_def
  by (intro exI [of _ OK] exI [of _ "[u64V (ok_id q)]"] exI [of _ "[Pod 8]"]) simp

lemma Ok_packs: "Ok_toNetworkMessage q = Inr (framed (frame (kind_code OK) [u64V (ok_id q)]))"
  unfolding Ok_toNetworkMessage_def by (rule pack_small [where ts = "[Pod 8]"]) simp_all

theorem stream_delivers_messages_witness:
  "\<exists>n. arrive (io_start AsyncIO)
     [[14, 0, 0, 0, 0, 0, 7], [], [0, 0, 0, 0, 0, 0, 0]] =
     (Inr (), [framed [14, 0, 0, 0, 0, 0, 7, 0, 0, 0, 0, 0, 0, 0]],
      (io_start AsyncIO)\<lparr>next_message_size := n\<rparr>, [])"
proof (rule stream_delivers_messages)
  have bytes: "frame (kind_code OK) [u64V 7] = [14, 0, 0, 0, 0, 0, 7, 0, 0, 0, 0, 0, 0, 0]"
    by (simp add: frame_def u64V_def le_bytes_numeral)
  have nd: "Ok_toNetworkMessage \<lparr>ok_id = 7\<rparr> = Inr (framed [14, 0, 0, 0, 0, 0, 7, 0, 0, 0, 0, 0, 0, 0])"
    using Ok_packs [of "\<lparr>ok_id = 7\<rparr>"] bytes by simp
  show packed: "list_all packed [framed [14, 0, 0, 0, 0, 0, 7, 0, 0, 0, 0, 0, 0, 0]]"
    using packed_Ok [OF nd] by simp
  show "concat [[14, 0, 0, 0, 0, 0, 7], [], [0, 0, 0, 0, 0, 0, 0]] =
      concat (map wire_bytes [framed [14, 0, 0, 0, 0, 0, 7, 0, 0, 0, 0, 0, 0, 0]])"
    using packed_wire_frame(3) [of "[u64V 7]" "[Pod 8]" OK] nd bytes
    by (simp add: wire_bytes_def Ok_toNetworkMessage_def)
qed (simp add: ready_def io_start_def AsyncIO_def readNextAsync_def)

lemma tiny_size:
  assumes "n < 4"
  shows "data_left (word_of_nat n) = 2 ^ 64 - 4 + n"
    and "NetworkMessage (2 ^ 64 - 4 + n) = Inl (Undef BufferOverrun) \<or>
         (\<exists>d. NetworkMessage (2 ^ 64 - 4 + n) = Inr d \<and> length (nm_data d) \<le> 6)"
proof -
  consider "n = 0" | "n = 1" | "n = 2" | "n = 3" using assms by linarith
  then show "data_left (word_of_nat n) = 2 ^ 64 - 4 + n"
    by cases (simp_all add: data_left_def unsigned_minus_1_eq_mask mask_eq_exp_minus_1)
  have "(word_of_nat (2 ^ 64 - 4 + n + 4) :: u32) = word_of_nat n"
    by (simp add: word_eq_iff_unsigned unat_of_nat)
  then show "NetworkMessage (2 ^ 64 - 4 + n) = Inl (Undef BufferOverrun) \<or>
      (\<exists>d. NetworkMessage (2 ^ 64 - 4 + n) = Inr d \<and> length (nm_data d) \<le> 6)"
    using assms by (auto simp: NetworkMessage_def Let_def mem_set_def mem_write_def unat_of_nat unat_word_ariths)
qed

text \<open>C40: a length prefix below four or from \<open>2\<^sup>3\<^sup>1\<close> on makes the reader write outside the buffer
  it allocated, as soon as three more bytes have arrived: the code checks neither bound.\<close>

theorem malformed_size_overruns:
  assumes "ready io" and "n < 4 \<or> 2 ^ 31 \<le> n \<and> n < 2 ^ 32"
    and "3 \<le> length rest" and "length rest < 2 ^ 64 - 4"
  shows "fst (pump io (le_bytes 4 n @ rest)) = Inl (Undef BufferOverrun)"
proof -
  let ?io = "io\<lparr>next_message_size := word_of_nat n\<rparr>"
  have io: "pending io = ReadSize" using assms(1) by (simp add: ready_def)
  have n: "n < 2 ^ 32" using assms(2) by auto
  note size = on_read_size_run [OF n, of io]
  show ?thesis
  proof (cases "n < 4")
    case True
    note left = tiny_size [OF True]
    show ?thesis
    proof (cases "NetworkMessage (2 ^ 64 - 4 + n)")
      case (Inl e)
      then have "e = Undef BufferOverrun" using left(2) by auto
      with Inl show ?thesis by (subst pump_size_error) (auto simp: io size left(1))
    next
      case (Inr d)
      then have "length (nm_data d) \<le> 6" using left(2) by auto
      moreover have "pump io (le_bytes 4 n @ rest) = pump (?io\<lparr>pending := ReadBody d (2 ^ 64 - 4 + n)\<rparr>) rest"
        using Inr by (subst pump_size) (auto simp: io size left(1))
      ultimately show ?thesis using assms(3,4) by (simp add: pump_body_wait)
    qed
  next
    case False
    then have "NetworkMessage (n - 4) = Inl (Undef BufferOverrun)"
      using assms(2) by (intro NetworkMessage_large) auto
    moreover have "data_left (word_of_nat n) = n - 4" using False n by (simp add: data_left_simp)
    ultimately show ?thesis by (subst pump_size_error) (auto simp: io size)
  qed
qed

theorem malformed_size_overruns_witness:
  "fst (pump (io_start AsyncIO) (le_bytes 4 2 @ [1, 2, 3])) = Inl (Undef BufferOverrun)"
  by (rule malformed_size_overruns) (simp_all add: ready_def io_start_def AsyncIO_def readNextAsync_def)

text \<open>Messages handed to a started connection and completions of their writes, in any order.\<close>

datatype write_event = Send network_message | Written bool

fun io_exec :: "write_event \<Rightarrow> async_io \<Rightarrow> async_io" where
  "io_exec (Send d) io = snd (io_send d io)"
| "io_exec (Written err) io = snd (on_write err io)"

text \<open>\<open>queue_size\<close> counts the messages whose write has not succeeded: every message handed over
  adds one and every successful write subtracts one. A failed write subtracts nothing, so it stays
  counted for ever.\<close>

theorem queue_size_counts:
  assumes "begin_stoping_flag io = Some False" and "sock_alive io" and "\<And>d. Send d \<in> set es \<Longrightarrow> packed d"
  shows "messages_to_send (fold io_exec es io) =
           messages_to_send io + of_nat (length (filter (\<lambda>e. \<exists>d. e = Send d) es))
             - of_nat (length (filter (\<lambda>e. e = Written False) es))"
  using assms
proof (induction es arbitrary: io)
  case (Cons e es)
  show ?case
  proof (cases e)
    case (Send d)
    then have "as_buffer d = Inr (wire_bytes d)" using Cons.prems(3) packed_buffer by auto
    with Cons Send show ?thesis by (simp add: io_send_def proc_defs)
  next
    case (Written err)
    with Cons show ?thesis by (simp add: on_write_def proc_defs)
  qed
qed simp

theorem queue_size_counts_witness:
  "messages_to_send (fold io_exec [Send (framed (frame (kind_code OK) [u64V 7])),
     Send (framed (frame (kind_code OK) [u64V 8])), Written True, Written False] (io_start AsyncIO)) = 1"
proof -
  have "packed (framed (frame (kind_code OK) [u64V i]))" for i
    using packed_Ok [OF Ok_packs, of "\<lparr>ok_id = i\<rparr>"] by simp
  then show ?thesis
    using queue_size_counts [of "io_start AsyncIO" "[Send (framed (frame (kind_code OK) [u64V 7])),
      Send (framed (frame (kind_code OK) [u64V 8])), Written True, Written False]"]
    by (auto simp: io_start_def AsyncIO_def readNextAsync_def)
qed

end
