(* ===== verification/Server.thy ===== *)
theory Server
  imports Node Async_IO
begin

text \<open>
  \<^verbatim>\<open>libdqueue/abstract_server.cpp\<close> and \<^verbatim>\<open>libdqueue/server.cpp\<close>. The state of the server process is
  the node's state (which holds the users and the consumers) and the connections. A connection
  object is known by its identifier; one that has been closed is no longer in the list and has no
  \<open>AsyncIO\<close> any more. What the server hands to \<open>async_write\<close> is recorded in \<open>outbox\<close>, in order and
  with the connection it goes to.

  Socket operations of the operating system succeed or fail as the events say (\<open>server_event\<close>);
  the handlers run one at a time, as with one thread running the \<open>io_service\<close>.
\<close>

record connection =
  conn_id :: Id
  conn_io :: "async_io option"

record 're server = "'re node" +
  connections :: "connection list"
  next_id :: "32 word"
  acceptor :: bool
  accepting :: bool
  srv_is_started :: bool
  srv_is_stoped :: bool
  srv_nextMessageId :: u64
  outbox :: "(Id \<times> byte list) list"

datatype ON_NEW_CONNECTION_RESULT = ACCEPT | DISCONNECT

text \<open>How an \<open>async_accept\<close> ends: with a connection, with one of the three errors the handler
  expects, or with another error.\<close>

datatype accept_result = Accepted | Expected_error | Other_error

section \<open>Connections\<close>

definition find_connection :: "Id \<Rightarrow> ('re, 'a) server_scheme \<Rightarrow> connection option" where
  "find_connection i s = find (\<lambda>c. conn_id c = i) (connections s)"

primrec set_io :: "Id \<Rightarrow> async_io option \<Rightarrow> connection list \<Rightarrow> connection list" where
  "set_io i io [] = []"
| "set_io i io (c # cs) = (if conn_id c = i then c\<lparr>conn_io := io\<rparr> # cs else c # set_io i io cs)"

primrec remove_connection :: "Id \<Rightarrow> connection list \<Rightarrow> connection list" where
  "remove_connection i [] = []"
| "remove_connection i (c # cs) = (if conn_id c = i then cs else c # remove_connection i cs)"

definition sendData :: "Id \<Rightarrow> network_message \<Rightarrow> (('re, 'a) server_scheme, unit) proc" where
  "sendData i d s =
     (case Option.bind (find_connection i s) conn_io of
        None \<Rightarrow> throw (Undef NullDereference) s
      | Some io \<Rightarrow>
          (case io_send d io of
             (Inl e, io') \<Rightarrow> throw e (s\<lparr>connections := set_io i (Some io') (connections s)\<rparr>)
           | (Inr None, io') \<Rightarrow> ret () (s\<lparr>connections := set_io i (Some io') (connections s)\<rparr>)
           | (Inr (Some buf), io') \<Rightarrow>
               ret () (s\<lparr>connections := set_io i (Some io') (connections s), outbox := outbox s @ [(i, buf)]\<rparr>)))"

definition sendTo :: "Id \<Rightarrow> network_message \<Rightarrow> (('re, 'a) server_scheme, unit) proc" where
  "sendTo i d s =
     (case find_connection i s of
        None \<Rightarrow> throw (Throw (UnknownClient i)) s
      | Some c \<Rightarrow> sendData i d s)"

section \<open>\<open>Server\<close>: the callbacks of the connections\<close>

definition onNewConnection :: "Id \<Rightarrow> (('re, 'a) server_scheme, ON_NEW_CONNECTION_RESULT) proc" where
  "onNewConnection i =
     bind (modify (\<lambda>s. s\<lparr>clients := ub_append \<lparr>user_login = ''not set'', user_id = i\<rparr> (clients s)\<rparr>)) (\<lambda>_.
     ret ACCEPT)"

definition onDisconnect :: "Id \<Rightarrow> (('re, 'a) server_scheme, unit) proc" where
  "onDisconnect i s =
     (case ub_erase i (clients s) of
        Inl e \<Rightarrow> throw e s
      | Inr users \<Rightarrow> eraseClient i (s\<lparr>clients := users\<rparr>))"

definition onSendToClient ::
  "'re engine \<Rightarrow> ('re, 'a) server_scheme consume \<Rightarrow> ('re, 'a) server_scheme handler" where
  "onSendToClient eng consume info rd i =
     (if i = ServerID then callConsumer eng consume info rd i
      else (\<lambda>s.
        let pub = mk_Publish info rd (srv_nextMessageId s) in
        bind (modify (\<lambda>s. s\<lparr>srv_nextMessageId := srv_nextMessageId s + 1\<rparr>)) (\<lambda>_.
        bind (lift (Publish_toNetworkMessage pub)) (\<lambda>nd.
        sendTo i nd)) s))"

definition sendOk :: "Id \<Rightarrow> u64 \<Rightarrow> (('re, 'a) server_scheme, unit) proc" where
  "sendOk i messageId = bind (lift (Ok_toNetworkMessage \<lparr>ok_id = messageId\<rparr>)) (\<lambda>nd. sendData i nd)"

text \<open>The cases of the \<open>switch\<close> in \<open>onNewMessage\<close>.\<close>

definition on_CREATE_QUEUE :: "Id \<Rightarrow> network_message \<Rightarrow> (('re, 'a) server_scheme, unit) proc" where
  "on_CREATE_QUEUE i d =
     bind (lift (CreateQueue_read d)) (\<lambda>cq.
     bind (createQueue \<lparr>qs_name = cq_name cq\<rparr> i) (\<lambda>_.
     sendOk i (cq_msgId cq)))"

definition on_SUBSCRIBE :: "Id \<Rightarrow> network_message \<Rightarrow> (('re, 'a) server_scheme, unit) proc" where
  "on_SUBSCRIBE i d =
     bind (lift (ChangeSubscribe_read d)) (\<lambda>cs.
     bind (changeSubscription Subscribe (toParams cs) i) (\<lambda>_.
     sendOk i (cs_msgId cs)))"

definition on_UNSUBSCRIBE :: "Id \<Rightarrow> network_message \<Rightarrow> (('re, 'a) server_scheme, unit) proc" where
  "on_UNSUBSCRIBE i d =
     bind (lift (ChangeSubscribe_read d)) (\<lambda>cs.
     bind (changeSubscription Unsubscribe (toParams cs) i) (\<lambda>_.
     sendOk i (cs_msgId cs)))"

definition on_PUBLISH ::
  "'re engine \<Rightarrow> ('re, 'a) server_scheme consume \<Rightarrow> Id \<Rightarrow> network_message \<Rightarrow> (('re, 'a) server_scheme, unit) proc" where
  "on_PUBLISH eng consume i d =
     bind (lift (Publish_read d)) (\<lambda>cs.
     bind (publish eng (onSendToClient eng consume) (toPublishParams cs) (p_data cs) i) (\<lambda>_.
     sendOk i (p_messageId cs)))"

definition on_LOGIN :: "Id \<Rightarrow> network_message \<Rightarrow> (('re, 'a) server_scheme, unit) proc" where
  "on_LOGIN i d =
     bind (lift (Login_read d)) (\<lambda>lg.
     bind (modify (\<lambda>s. s\<lparr>clients := ub_setLogin i (login_login lg) (clients s)\<rparr>)) (\<lambda>_.
     bind (lift (LoginConfirm_toNetworkMessage \<lparr>lc_id = i\<rparr>)) (\<lambda>nd.
     sendData i nd)))"

definition onNewMessage ::
  "'re engine \<Rightarrow> ('re, 'a) server_scheme consume \<Rightarrow> Id \<Rightarrow> network_message \<Rightarrow> (('re, 'a) server_scheme, unit) proc" where
  "onNewMessage eng consume i d =
     bind (lift (header_kind d)) (\<lambda>kind.
     if kind = kind_code CREATE_QUEUE then on_CREATE_QUEUE i d
     else if kind = kind_code SUBSCRIBE then on_SUBSCRIBE i d
     else if kind = kind_code UNSUBSCRIBE then on_UNSUBSCRIBE i d
     else if kind = kind_code PUBLISH then on_PUBLISH eng consume i d
     else if kind = kind_code LOGIN then on_LOGIN i d
     else throw (Throw (UnknownKind kind)))"

section \<open>\<open>AbstractServer\<close>: accepting and closing\<close>

definition Server :: "'re server" where
  "Server =
     \<lparr>recache = [], consumerId = (\<lambda>_. DefaultId), nextConsumersId = 0, eventHandlers = [],
      queue2handler = [],
      clients = ub_append \<lparr>user_login = ''server'', user_id = ServerID\<rparr> ub_create,
      queues = [], nextQueueId = 0, subscriptions = [],
      connections = [], next_id = 0, acceptor = False, accepting = False,
      srv_is_started = False, srv_is_stoped = False, srv_nextMessageId = 0, outbox = []\<rparr>"

definition start_accept :: "(('re, 'a) server_scheme, unit) proc" where
  "start_accept s =
     (if acceptor s then ret () (s\<lparr>accepting := True\<rparr>) else throw (Undef NullDereference) s)"

definition serverStart :: "(('re, 'a) server_scheme, unit) proc" where
  "serverStart =
     bind (modify (\<lambda>s. s\<lparr>acceptor := True\<rparr>)) (\<lambda>_.
     bind start_accept (\<lambda>_.
     modify (\<lambda>s. s\<lparr>srv_is_started := True\<rparr>)))"

text \<open>\<open>(Id)self->_next_id\<close> sign-extends the \<open>int\<close>; \<open>fetch_add\<close> wraps.\<close>

definition take_id :: "(('re, 'a) server_scheme, Id) proc" where
  "take_id s = (Inr (scast (next_id s)), s\<lparr>next_id := next_id s + 1\<rparr>)"

definition connection_start :: "Id \<Rightarrow> connection" where
  "connection_start i = \<lparr>conn_id = i, conn_io = Some (io_start AsyncIO)\<rparr>"

definition handle_accept :: "accept_result \<Rightarrow> (('re, 'a) server_scheme, unit) proc" where
  "handle_accept err =
     bind (modify (\<lambda>s. s\<lparr>accepting := False\<rparr>)) (\<lambda>_.
     case err of
       Expected_error \<Rightarrow> ret ()
     | Other_error \<Rightarrow> throw (Throw AcceptError)
     | Accepted \<Rightarrow>
         bind take_id (\<lambda>i.
         bind (onNewConnection i) (\<lambda>r.
         bind (if r = ACCEPT
               then modify (\<lambda>s. s\<lparr>connections := connections s @ [connection_start i]\<rparr>)
               else ret ()) (\<lambda>_.
         start_accept))))"

definition erase_client_description :: "Id \<Rightarrow> (('re, 'a) server_scheme, unit) proc" where
  "erase_client_description i s =
     (let it = find_connection i s in
      bind (onDisconnect i) (\<lambda>_.
      if it = None then throw (Undef InvalidIterator)
      else modify (\<lambda>s. s\<lparr>connections := remove_connection i (connections s)\<rparr>)) s)"

text \<open>\<open>ClientConnection::close\<close>: the second call finds no \<open>AsyncIO\<close> and does nothing.\<close>

definition connection_close :: "Id \<Rightarrow> (('re, 'a) server_scheme, unit) proc" where
  "connection_close i s =
     (case Option.bind (find_connection i s) conn_io of
        None \<Rightarrow> ret () s
      | Some io \<Rightarrow>
          erase_client_description i (s\<lparr>connections := set_io i None (connections s)\<rparr>))"

definition stopServer :: "(('re, 'a) server_scheme, unit) proc" where
  "stopServer s =
     (if srv_is_stoped s then ret () s
      else if \<not> acceptor s then throw (Undef NullDereference) s
      else
        bind (modify (\<lambda>s. s\<lparr>acceptor := False\<rparr>)) (\<lambda>_.
        bind (for_each (map conn_id (connections s)) connection_close) (\<lambda>_.
        modify (\<lambda>s. s\<lparr>connections := [], srv_is_stoped := True\<rparr>))) s)"

section \<open>\<open>Server\<close> as a client of its own node\<close>

definition Server_createQueue :: "QueueSettings \<Rightarrow> (('re, 'a) server_scheme, unit) proc" where
  "Server_createQueue settings = createQueue settings ServerID"

definition Server_subscribe ::
  "SubscriptionParams \<Rightarrow> consumer option \<Rightarrow> (('re, 'a) server_scheme, unit) proc" where
  "Server_subscribe settings h =
     bind (addHandler settings h) (\<lambda>_. changeSubscription Subscribe settings ServerID)"

definition Server_unsubscribe :: "string \<Rightarrow> (('re, 'a) server_scheme, unit) proc" where
  "Server_unsubscribe qname = changeSubscription Subscribe (mk_sub qname []) ServerID"

definition Server_publish ::
  "'re engine \<Rightarrow> ('re, 'a) server_scheme consume \<Rightarrow> PublishParams \<Rightarrow> byte list \<Rightarrow> (('re, 'a) server_scheme, unit) proc" where
  "Server_publish eng consume settings data = publish eng (onSendToClient eng consume) settings data ServerID"

definition Server_getDescription :: "('re, 'a) server_scheme \<Rightarrow> QueueDescription list" where
  "Server_getDescription s = getDescription s"

definition Server_users :: "((Id \<times> User) list \<Rightarrow> (Id \<times> User) list) \<Rightarrow> ('re, 'a) server_scheme \<Rightarrow> User list" where
  "Server_users it s = ub_users it (clients s)"

text \<open>What can happen to a server: the network's events and the calls of its own application. A
  message or an error on a connection that is gone reaches nobody.\<close>

datatype server_event =
    Accept accept_result
  | Message Id network_message
  | Network_error Id
  | Local_create QueueSettings
  | Local_subscribe SubscriptionParams "consumer option"
  | Local_unsubscribe string
  | Local_publish PublishParams "byte list"

fun server_exec ::
  "'re engine \<Rightarrow> ('re, 'a) server_scheme consume \<Rightarrow> server_event \<Rightarrow> (('re, 'a) server_scheme, unit) proc" where
  "server_exec eng consume (Accept r) = (\<lambda>s. if accepting s then handle_accept r s else ret () s)"
| "server_exec eng consume (Message i d) =
     (\<lambda>s. if find_connection i s = None then ret () s else onNewMessage eng consume i d s)"
| "server_exec eng consume (Network_error i) = connection_close i"
| "server_exec eng consume (Local_create qs) = Server_createQueue qs"
| "server_exec eng consume (Local_subscribe p h) = Server_subscribe p h"
| "server_exec eng consume (Local_unsubscribe q) = Server_unsubscribe q"
| "server_exec eng consume (Local_publish p d) = Server_publish eng consume p d"

section \<open>Invariant\<close>

text \<open>
  Connections have different identifiers below the next one, each has a started \<open>AsyncIO\<close>, and
  the users are the server and the connected clients.
\<close>

definition conns_ok :: "connection list \<Rightarrow> 32 word \<Rightarrow> UserBase \<Rightarrow> bool" where
  "conns_ok cs n ub \<longleftrightarrow>
     distinct (map conn_id cs) \<and>
     (\<forall>c \<in> set cs. (\<exists>io. conn_io c = Some io \<and> live io) \<and> unat (conn_id c) < unat n) \<and>
     unat n < 2 ^ 31 \<and>
     (\<forall>i. ub_exists ub i \<longleftrightarrow> i = ServerID \<or> i \<in> conn_id ` set cs)"

definition server_ok :: "'re engine \<Rightarrow> ('re, 'a) server_scheme \<Rightarrow> bool" where
  "server_ok eng s \<longleftrightarrow>
     node_ok s \<and> cache_ok eng s \<and> ub_ok (clients s) \<and> subscribers_known (broker_of s) \<and>
     conns_ok (connections s) (next_id s) (clients s)"

definition steady :: "'re engine \<Rightarrow> 32 word \<Rightarrow> ('re, 'a) server_scheme \<Rightarrow> bool" where
  "steady eng n s \<longleftrightarrow> server_ok eng s \<and> next_id s = n"

text \<open>The node only changes its own three tables.\<close>

definition only_tables :: "('re, 'a) node_scheme \<Rightarrow> ('re, 'a) node_scheme \<Rightarrow> bool" where
  "only_tables s s' \<longleftrightarrow>
     s' = s\<lparr>queues := queues s', nextQueueId := nextQueueId s', subscriptions := subscriptions s'\<rparr>"

lemma only_tables_step [simp]:
  "only_tables s s"
  "only_tables s s' \<Longrightarrow> only_tables s (s'\<lparr>queues := qs\<rparr>)"
  "only_tables s s' \<Longrightarrow> only_tables s (s'\<lparr>nextQueueId := k\<rparr>)"
  "only_tables s s' \<Longrightarrow> only_tables s (s'\<lparr>subscriptions := subs\<rparr>)"
  by (cases s; cases s'; simp add: only_tables_def)+

lemma only_tables_change: "only_tables s s' \<Longrightarrow> only_tables s (snd (changeSubscription a p i s'))"
  by (simp add: changeSubscription_def proc_defs on_listeners_def split: SubscribeActions.split)

lemma only_tables_create: "only_tables s (snd (createQueue qs i s))"
proof (cases "map_of (queues s) (qs_name qs)")
  case None
  then show ?thesis
    by (simp add: createQueue_def take_queueId_def bind_def modify_def throw_def only_tables_change)
next
  case (Some q)
  then show ?thesis by (simp add: createQueue_def modify_def throw_def)
qed

lemma only_tables_exec: "only_tables s (snd (node_exec c s))"
proof (cases c)
  case (DoErase i)
  have "only_tables s (s\<lparr>subscriptions := a, queues := b\<rparr>)" for a b by (cases s) (simp add: only_tables_def)
  then show ?thesis by (simp add: DoErase eraseClient_def modify_def case_prod_unfold Let_def)
qed (simp_all add: only_tables_create only_tables_change)

lemma only_tables_server:
  assumes "only_tables s s'"
  shows "connections s' = connections s" "next_id s' = next_id s" "clients s' = clients s"
    "outbox s' = outbox s" "recache s' = recache s"
  by (subst assms [unfolded only_tables_def], simp)+

lemma server_ok_node: "server_ok eng s \<Longrightarrow> server_ok eng (snd (node_exec c s))"
proof -
  assume ok: "server_ok eng s"
  then have t: "tables_ok s" by (simp add: server_ok_def node_ok_alt)
  note frame = only_tables_server [OF only_tables_exec [of s c]]
  have "node_ok (snd (node_exec c s))"
    using node_ok_seq [of s "[c]"] ok by (simp add: server_ok_def)
  moreover have "subscribers_known (broker_of (snd (node_exec c s)))"
    unfolding broker_sim.same_state [OF t] using ok by (simp add: subscribers_known_exec server_ok_def)
  ultimately show ?thesis
    using ok unfolding server_ok_def by (simp add: frame cache_ok_def)
qed

lemma steady_node [keeps]: "preserves (steady eng n) (node_exec c)"
  using server_ok_node only_tables_server(2) [OF only_tables_exec]
  by (auto simp: preserves_def steady_def)

lemmas steady_createQueue [keeps] = steady_node [of _ _ "DoCreate qs i" for qs i, simplified]
lemmas steady_change [keeps] = steady_node [of _ _ "DoChange a p i" for a p i, simplified]

subsection \<open>Connections\<close>

lemma conn_ids_set_io [simp]: "map conn_id (set_io i io cs) = map conn_id cs"
  by (induction cs) auto

lemma conn_id_image_set_io [simp]: "conn_id ` set (set_io i io cs) = conn_id ` set cs"
  by (metis conn_ids_set_io list.set_map)

lemma set_io_in: "c \<in> set (set_io i io cs) \<Longrightarrow> c \<in> set cs \<or> (\<exists>c' \<in> set cs. c = c'\<lparr>conn_io := io\<rparr>)"
  by (induction cs) (auto split: if_splits)

lemma find_connection_Some:
  "find_connection i s = Some c \<Longrightarrow> c \<in> set (connections s) \<and> conn_id c = i"
  unfolding find_connection_def by (rule find_Some_in)

lemma find_connection_None: "find_connection i s = None \<longleftrightarrow> i \<notin> conn_id ` set (connections s)"
  unfolding find_connection_def find_None_ball by auto

lemma remove_connection_filter:
  "distinct (map conn_id cs) \<Longrightarrow> remove_connection i cs = filter (\<lambda>c. conn_id c \<noteq> i) cs"
proof (induction cs)
  case (Cons c cs)
  have "i \<notin> conn_id ` set cs \<Longrightarrow> filter (\<lambda>c. conn_id c \<noteq> i) cs = cs"
    by (metis (mono_tags, lifting) filter_True image_eqI)
  with Cons show ?case by auto
qed simp

lemma conns_ok_set_io: "conns_ok cs n ub \<Longrightarrow> live io \<Longrightarrow> conns_ok (set_io i (Some io) cs) n ub"
  unfolding conns_ok_def by (auto dest!: set_io_in)



lemma server_ok_conns [simp]:
  "server_ok eng (s\<lparr>outbox := l\<rparr>) = server_ok eng s"
  "server_ok eng (s\<lparr>srv_nextMessageId := k\<rparr>) = server_ok eng s"
  "server_ok eng (s\<lparr>accepting := b\<rparr>) = server_ok eng s"
  "server_ok eng (s\<lparr>eventHandlers := x\<rparr>) = server_ok eng s"
  "server_ok eng (s\<lparr>consumerId := y\<rparr>) = server_ok eng s"
  "server_ok eng (s\<lparr>nextConsumersId := z\<rparr>) = server_ok eng s"
  "server_ok eng (s\<lparr>queue2handler := q\<rparr>) = server_ok eng s"
  by (simp_all add: server_ok_def node_ok_def sorted_tables_def broker_of_def cache_ok_def queueIsExists_def)

lemma server_ok_connections:
  "server_ok eng s \<Longrightarrow> conns_ok cs (next_id s) (clients s) \<Longrightarrow> server_ok eng (s\<lparr>connections := cs\<rparr>)"
  by (simp add: server_ok_def node_ok_def sorted_tables_def broker_of_def cache_ok_def queueIsExists_def)

lemma steady_simps [simp]:
  "steady eng n (s\<lparr>outbox := l\<rparr>) = steady eng n s"
  "steady eng n (s\<lparr>srv_nextMessageId := k\<rparr>) = steady eng n s"
  "steady eng n (s\<lparr>accepting := b\<rparr>) = steady eng n s"
  "steady eng n (s\<lparr>eventHandlers := x\<rparr>) = steady eng n s"
  "steady eng n (s\<lparr>consumerId := y\<rparr>) = steady eng n s"
  "steady eng n (s\<lparr>nextConsumersId := z\<rparr>) = steady eng n s"
  "steady eng n (s\<lparr>queue2handler := q\<rparr>) = steady eng n s"
  by (simp_all add: steady_def)

lemma steady_sendData [keeps]: "preserves (steady eng n) (sendData i d)"
proof
  fix s :: "('a, 'b) server_scheme"
  assume ok: "steady eng n s"
  show "steady eng n (snd (sendData i d s))"
  proof (cases "Option.bind (find_connection i s) conn_io")
    case None
    with ok show ?thesis by (simp add: sendData_def throw_def)
  next
    case (Some io)
    then obtain c where "c \<in> set (connections s)" "conn_io c = Some io"
      using find_connection_Some by (fastforce simp: bind_eq_Some_conv)
    with ok have io: "live io" and cs: "conns_ok (connections s) (next_id s) (clients s)"
      by (auto simp: steady_def server_ok_def conns_ok_def)
    have "live io' \<Longrightarrow> steady eng n (s\<lparr>connections := set_io i (Some io') (connections s)\<rparr>)" for io'
      using ok server_ok_connections [OF _ conns_ok_set_io [OF cs]] by (simp add: steady_def)
    moreover have "s\<lparr>connections := cs, outbox := ob\<rparr> = s\<lparr>connections := cs\<rparr>\<lparr>outbox := ob\<rparr>" for cs ob
      by simp
    ultimately show ?thesis
      using Some io_send_live [OF io, of d]
      by (auto simp: sendData_def throw_def ret_def split: prod.split sum.split option.split)
  qed
qed

lemma steady_sendTo [keeps]: "preserves (steady eng n) (sendTo i d)"
  by (rule preservesI) (auto simp: sendTo_def throw_def split: option.split intro: preservesD [OF steady_sendData])

lemma steady_sendOk [keeps]: "preserves (steady eng n) (sendOk i m)"
  unfolding sendOk_def by (auto intro: steady_sendData)

subsection \<open>Delivery and requests\<close>

text \<open>What is asked of the application's consumers: they may call the server, but leave it
  consistent and accept no connections.\<close>

definition consume_safe :: "'re engine \<Rightarrow> ('re, 'a) server_scheme consume \<Rightarrow> bool" where
  "consume_safe eng consume \<longleftrightarrow> (\<forall>n c p d i. preserves (steady eng n) (consume c p d i))"

lemma steady_recache:
  "steady eng n s \<Longrightarrow> cache_ok eng (s\<lparr>recache := c\<rparr>) \<Longrightarrow> steady eng n (s\<lparr>recache := c\<rparr>)"
  by (auto simp: steady_def server_ok_def node_ok_def sorted_tables_def broker_of_def queueIsExists_def)

lemma steady_checkTag [keeps]: "preserves (steady eng n) (checkTag eng p t)"
proof
  fix s :: "('a, 'b) server_scheme"
  assume ok: "steady eng n s"
  then have "cache_ok eng s" by (simp add: steady_def server_ok_def)
  then obtain c where "checkTag eng p t s = (tag_matches eng p t, s\<lparr>recache := c\<rparr>)" "cache_ok eng (s\<lparr>recache := c\<rparr>)"
    by (rule checkTag_run)
  with ok show "steady eng n (snd (checkTag eng p t s))" using steady_recache by simp
qed

lemma steady_eventHandler [keeps]: "preserves (steady eng n) (eventHandler_at v)"
  by (rule preservesI) (simp add: eventHandler_at_def)

lemma steady_callConsumer:
  assumes "consume_safe eng consume"
  shows "preserves (steady eng n) (callConsumer eng consume p d i)"
proof (rule preservesI)
  fix s :: "('a, 'b) server_scheme"
  assume ok: "steady eng n s"
  have "preserves (steady eng n) (consume c p d i)" for c using assms by (simp add: consume_safe_def)
  then have "preserves (steady eng n) (\<lambda>s. for_each ids (\<lambda>v. bind (eventHandler_at v) (\<lambda>es.
      bind (checkTag eng (snd es) (pub_tag p)) (\<lambda>b.
      if b then (case fst es of None \<Rightarrow> throw (Undef NullDereference) | Some h \<Rightarrow> consume h p d i)
      else ret ()))) s)" for ids
    by (intro preserves_for_each preserves_bind steady_eventHandler steady_checkTag) (auto split: option.split)
  from preservesD [OF this ok] ok show "steady eng n (snd (callConsumer eng consume p d i s))"
    by (simp add: callConsumer_def ret_def split: option.split)
qed

lemma steady_send_remote:
  assumes "i \<noteq> ServerID"
  shows "preserves (steady eng n) (onSendToClient eng' consume p d i)"
proof -
  have "preserves (steady eng n) (bind (modify (\<lambda>s. s\<lparr>srv_nextMessageId := srv_nextMessageId s + 1\<rparr>)) (\<lambda>_.
      bind (lift (Publish_toNetworkMessage pub)) (\<lambda>nd. sendTo i nd)))" for pub
    by (intro preserves_bind preserves_lift steady_sendTo) (simp add: preserves_def modify_def)
  from preservesD [OF this] assms show ?thesis
    by (intro preservesI) (simp add: onSendToClient_def Let_def)
qed

lemma steady_onSendToClient:
  assumes "consume_safe eng consume"
  shows "preserves (steady eng n) (onSendToClient eng consume p d i)"
  using steady_callConsumer [OF assms] steady_send_remote [of i eng n eng consume p d]
  by (cases "i = ServerID") (simp_all add: onSendToClient_def)

lemma steady_publish:
  assumes "consume_safe eng consume"
  shows "preserves (steady eng n) (publish eng (onSendToClient eng consume) p d i)"
proof (rule preservesI)
  fix s :: "('a, 'b) server_scheme"
  assume ok: "steady eng n s"
  have "preserves (steady eng n) (publish_to eng (onSendToClient eng consume) p d kv)" for kv
    unfolding publish_to_def using steady_onSendToClient [OF assms] steady_checkTag
    by (auto intro!: preserves_bind)
  then have loop: "preserves (steady eng n) (for_each ls (publish_to eng (onSendToClient eng consume) p d))" for ls
    by (intro preserves_for_each)
  show "steady eng n (snd (publish eng (onSendToClient eng consume) p d i s))"
  proof (cases "queueIsExists s (pub_queueName p)")
    case True
    then obtain ls where "map_of (subscriptions s) (pub_queueName p) = Some ls"
      using ok by (auto simp: steady_def server_ok_def node_ok_def)
    then have "s\<lparr>subscriptions := omap_index [] (pub_queueName p) (subscriptions s)\<rparr> = s" by simp
    with True show ?thesis using preservesD [OF loop ok] by (simp add: publish_def)
  qed (use ok in \<open>simp add: publish_def ret_def\<close>)
qed

lemma steady_login:
  assumes "steady eng n s" and "find_connection i s \<noteq> None"
  shows "steady eng n (s\<lparr>clients := ub_setLogin i l (clients s)\<rparr>)"
proof -
  let ?ub = "ub_setLogin i l (clients s)"
  have known: "ub_exists (clients s) i"
    using assms by (auto simp: steady_def server_ok_def conns_ok_def find_connection_None)
  then have same: "ub_exists ?ub = ub_exists (clients s)" by (auto simp: fun_eq_iff)
  then show ?thesis
    using assms(1) ub_ok_setLogin [OF _ known]
    by (auto simp: steady_def server_ok_def node_ok_def sorted_tables_def broker_of_def queueIsExists_def
        cache_ok_def conns_ok_def)
qed

lemma steady_requests:
  "preserves (steady eng n) (on_CREATE_QUEUE i d)"
  "preserves (steady eng n) (on_SUBSCRIBE i d)"
  "preserves (steady eng n) (on_UNSUBSCRIBE i d)"
  "consume_safe eng consume \<Longrightarrow> preserves (steady eng n) (on_PUBLISH eng consume i d)"
  unfolding on_CREATE_QUEUE_def on_SUBSCRIBE_def on_UNSUBSCRIBE_def on_PUBLISH_def
  by (intro preserves_bind preserves_lift steady_sendOk steady_createQueue steady_change steady_publish, assumption?)+

lemma steady_LOGIN:
  assumes "steady eng n s" and "find_connection i s \<noteq> None"
  shows "steady eng n (snd (on_LOGIN i d s))"
proof -
  have "preserves (steady eng n) (bind (lift (LoginConfirm_toNetworkMessage \<lparr>lc_id = i\<rparr>)) (\<lambda>nd. sendData i nd))"
    by (intro preserves_bind preserves_lift steady_sendData)
  from preservesD [OF this steady_login [OF assms]] show ?thesis
    using assms(1) by (simp add: on_LOGIN_def bind_def lift_def modify_def split: sum.split)
qed

lemma steady_message:
  assumes "consume_safe eng consume" and "steady eng n s" and "find_connection i s \<noteq> None"
  shows "steady eng n (snd (onNewMessage eng consume i d s))"
  using steady_requests(1-3) [THEN preservesD, OF assms(2)] steady_requests(4) [OF assms(1), THEN preservesD, OF assms(2)]
    steady_LOGIN [OF assms(2,3)] assms(2)
  by (auto simp: onNewMessage_def bind_def [of "lift r" for r] lift_def throw_def split: sum.split)

subsection \<open>Closing and accepting\<close>

lemma unat_ServerID: "unat ServerID = 2 ^ 31 - 1"
  by (simp add: ServerID_def)

lemma connected_not_server: "conns_ok cs n ub \<Longrightarrow> i \<in> conn_id ` set cs \<Longrightarrow> i \<noteq> ServerID"
  using unat_ServerID by (fastforce simp: conns_ok_def)

lemma conns_ok_remove:
  assumes "conns_ok cs n ub" and "ub_erase i ub = Inr ub'" and "i \<in> conn_id ` set cs"
  shows "conns_ok (remove_connection i (set_io i None cs)) n ub'"
proof -
  have d: "distinct (map conn_id cs)" using assms(1) by (simp add: conns_ok_def)
  have set_io: "filter (\<lambda>c. conn_id c \<noteq> i) (set_io i io cs) = filter (\<lambda>c. conn_id c \<noteq> i) cs" for io
    by (induction cs) auto
  have "remove_connection i (set_io i None cs) = filter (\<lambda>c. conn_id c \<noteq> i) cs"
    using d by (simp add: remove_connection_filter set_io)
  moreover have "\<forall>j. ub_exists ub' j \<longleftrightarrow> j \<noteq> i \<and> ub_exists ub j" using users.remove_iff [OF assms(2)] by blast
  ultimately show ?thesis
    using assms(1) connected_not_server [OF assms(1,3)]
    by (auto simp: conns_ok_def distinct_map_filter)
qed

text \<open>The state after the user and the node's entries of a connected client are gone.\<close>

definition dropped :: "Id \<Rightarrow> UserBase \<Rightarrow> ('re, 'a) server_scheme \<Rightarrow> ('re, 'a) server_scheme" where
  "dropped i ub s =
     (snd (eraseClient i (s\<lparr>connections := set_io i None (connections s), clients := ub\<rparr>)))
       \<lparr>connections := remove_connection i (set_io i None (connections s))\<rparr>"

lemma eraseClient_keeps [simp]:
  "connections (snd (eraseClient i s)) = connections s" "next_id (snd (eraseClient i s)) = next_id s"
  "clients (snd (eraseClient i s)) = clients s" "outbox (snd (eraseClient i s)) = outbox s"
  "recache (snd (eraseClient i s)) = recache s" "fst (eraseClient i s) = Inr ()"
  by (simp_all add: eraseClient_def modify_def case_prod_unfold Let_def)

lemma connection_close_run:
  assumes "server_ok eng s" and "find_connection i s \<noteq> None"
  obtains ub where "ub_erase i (clients s) = Inr ub" and "connection_close i s = (Inr (), dropped i ub s)"
proof -
  have conns: "conns_ok (connections s) (next_id s) (clients s)" using assms(1) by (simp add: server_ok_def)
  obtain c where c: "find_connection i s = Some c" using assms(2) by blast
  then have mem: "c \<in> set (connections s)" "conn_id c = i" using find_connection_Some by blast+
  with conns obtain io where io: "conn_io c = Some io" by (auto simp: conns_ok_def)
  have "ub_exists (clients s) i" using conns mem by (auto simp: conns_ok_def)
  then obtain ub where ub: "ub_erase i (clients s) = Inr ub" using users.remove_member by blast
  let ?s = "s\<lparr>connections := set_io i None (connections s)\<rparr>"
  have again: "find_connection i ?s \<noteq> None"
    using mem by (auto simp: find_connection_None simp del: not_None_eq)
  have "onDisconnect i ?s = (Inr (), snd (eraseClient i (?s\<lparr>clients := ub\<rparr>)))"
    using ub prod.collapse [of "eraseClient i (?s\<lparr>clients := ub\<rparr>)"] by (simp add: onDisconnect_def)
  then have "connection_close i s = (Inr (), dropped i ub s)"
    using c io again by (auto simp: connection_close_def erase_client_description_def bind_def modify_def dropped_def)
  with ub that show thesis by blast
qed

lemma spec_erase_members:
  "snd (spec_erase i (b\<lparr>b_members := m\<rparr>)) = (snd (spec_erase i b))\<lparr>b_members := m\<rparr>"
  by (cases b) (simp add: spec_erase_def spec_orphaned_def cong: if_cong)

lemma dropped_ok:
  assumes "server_ok eng s" and "find_connection i s \<noteq> None" and "ub_erase i (clients s) = Inr ub"
  shows "server_ok eng (dropped i ub s)" and "next_id (dropped i ub s) = next_id s"
    and "broker_of (dropped i ub s) = (snd (spec_erase i (broker_of s)))\<lparr>b_members := ub_exists ub\<rparr>"
proof -
  let ?s1 = "s\<lparr>connections := set_io i None (connections s), clients := ub\<rparr>"
  let ?cs = "remove_connection i (set_io i None (connections s))"
  have conn: "i \<in> conn_id ` set (connections s)" using assms(2) by (simp add: find_connection_None del: not_None_eq)
  have s: "node_ok s" "cache_ok eng s" "ub_ok (clients s)" "subscribers_known (broker_of s)"
    "conns_ok (connections s) (next_id s) (clients s)"
    using assms(1) by (simp_all add: server_ok_def)
  have "node_ok ?s1"
    using s(1) by (simp add: node_ok_def sorted_tables_def queueIsExists_def queues_ok_def listeners_ok_def)
  then have n1: "node_ok (snd (eraseClient i ?s1))" using node_ok_seq [of ?s1 "[DoErase i]"] by simp
  then have node: "node_ok (dropped i ub s)"
    by (simp add: dropped_def node_ok_def sorted_tables_def broker_of_def queueIsExists_def)
  have erased: "broker_of (snd (eraseClient i ?s1)) = snd (spec_erase i (broker_of ?s1))"
    using \<open>node_ok ?s1\<close> by (intro eraseClient_refines) (simp add: node_ok_def)
  have "broker_of (s'\<lparr>connections := cs\<rparr>) = broker_of s'" for cs and s' :: "('a, 'b) server_scheme"
    by (simp add: broker_of_def)
  moreover have "broker_of ?s1 = (broker_of s)\<lparr>b_members := ub_exists ub\<rparr>" by (simp add: broker_of_def)
  ultimately show b: "broker_of (dropped i ub s) = (snd (spec_erase i (broker_of s)))\<lparr>b_members := ub_exists ub\<rparr>"
    using erased by (simp add: dropped_def spec_erase_members)
  have "subscribers_known (broker_of (dropped i ub s))"
    unfolding b using s(4) users.remove_iff [OF assms(3)]
    by (auto simp: spec_erase_def subscribers_known_def)
  then show "server_ok eng (dropped i ub s)"
    using node s(2) ub_ok_erase [OF s(3) assms(3)] conns_ok_remove [OF s(5) assms(3) conn]
    by (simp add: server_ok_def) (simp add: dropped_def cache_ok_def)
  show "next_id (dropped i ub s) = next_id s" by (simp add: dropped_def)
qed

lemma steady_close [keeps]: "preserves (steady eng n) (connection_close i)"
proof
  fix s :: "('a, 'b) server_scheme"
  assume ok: "steady eng n s"
  show "steady eng n (snd (connection_close i s))"
  proof (cases "find_connection i s")
    case None
    with ok show ?thesis by (simp add: connection_close_def ret_def)
  next
    case (Some c)
    with ok have s: "server_ok eng s" "find_connection i s \<noteq> None" "next_id s = n" by (simp_all add: steady_def)
    then obtain ub where "ub_erase i (clients s) = Inr ub" "connection_close i s = (Inr (), dropped i ub s)"
      using connection_close_run by blast
    with dropped_ok(1,2) [OF s(1,2)] s(3) show ?thesis by (simp add: steady_def)
  qed
qed

lemma scast_small:
  assumes small: "unat (n :: 32 word) < 2 ^ 31"
  shows "unat (scast n :: Id) = unat n"
proof -
  have u: "uint n = int (unat n)" by simp
  have "int (unat n) < int (2 ^ 31)" using small unfolding of_nat_less_iff .
  then have "int (unat n) < 2 ^ 31" unfolding of_nat_power by (simp only: of_nat_numeral)
  then have "uint n < 2 ^ 31" unfolding u .
  then have "signed_take_bit 31 (uint n) = uint n" by (intro signed_take_bit_int_eq_self) (auto intro: order.trans [of _ 0])
  then have "sint n = uint n" by (simp add: sint_uint)
  then have "(scast n :: Id) = word_of_nat (unat n)" by (simp add: scast_eq)
  moreover have "unat (word_of_nat (unat n) :: Id) = unat n" unfolding unat_of_nat using small by simp
  ultimately show ?thesis by simp
qed



lemma server_ok_add_connection:
  assumes "server_ok eng s" and "unat (next_id s) < 2 ^ 31 - 1"
  defines "i \<equiv> scast (next_id s) :: Id"
  shows "server_ok eng (s\<lparr>next_id := next_id s + 1,
           clients := ub_append \<lparr>user_login = l, user_id = i\<rparr> (clients s),
           connections := connections s @ [connection_start i]\<rparr>)"
proof -
  have i: "unat i = unat (next_id s)" unfolding i_def using assms(2) by (intro scast_small) simp
  have step: "unat (next_id s + 1) = unat (next_id s) + 1"
    using assms(2) by (simp add: unat_word_ariths)
  have "i \<notin> conn_id ` set (connections s)"
    using assms(1) i by (auto simp: server_ok_def conns_ok_def)
  then have "conns_ok (connections s @ [connection_start i]) (next_id s + 1)
      (ub_append \<lparr>user_login = l, user_id = i\<rparr> (clients s))"
    using assms(1,2) i step by (auto simp: server_ok_def conns_ok_def connection_start_def less_Suc_eq)
  then show ?thesis
    using assms(1)
    by (auto simp: server_ok_def node_ok_def sorted_tables_def queueIsExists_def cache_ok_def broker_of_def
        queues_ok_def listeners_ok_def subscribers_known_def)
qed

lemma handle_accept_state:
  "snd (handle_accept r s) =
     (if r \<noteq> Accepted then s\<lparr>accepting := False\<rparr>
      else s\<lparr>next_id := next_id s + 1,
             clients := ub_append \<lparr>user_login = ''not set'', user_id = scast (next_id s)\<rparr> (clients s),
             connections := connections s @ [connection_start (scast (next_id s))],
             accepting := acceptor s\<rparr>)"
  by (cases r; cases s)
     (simp_all add: handle_accept_def proc_defs take_id_def onNewConnection_def start_accept_def)

lemma handle_accept_ok:
  assumes "server_ok eng s" and "unat (next_id s) < 2 ^ 31 - 1"
  shows "server_ok eng (snd (handle_accept r s))"
    and "unat (next_id (snd (handle_accept r s))) \<le> unat (next_id s) + 1"
proof -
  have "unat (next_id s + 1) = unat (next_id s) + 1" using assms(2) by (simp add: unat_word_ariths)
  then show "unat (next_id (snd (handle_accept r s))) \<le> unat (next_id s) + 1"
    by (simp add: handle_accept_state)
  have "s'\<lparr>next_id := a, clients := b, connections := c, accepting := d\<rparr> =
      s'\<lparr>next_id := a, clients := b, connections := c\<rparr>\<lparr>accepting := d\<rparr>" for a b c d and s' :: "('a, 'b) server_scheme"
    by simp
  then show "server_ok eng (snd (handle_accept r s))"
    unfolding handle_accept_state using server_ok_add_connection [OF assms] assms(1) by simp
qed

lemma steady_addHandler [keeps]: "preserves (steady eng n) (addHandler p h)"
proof
  fix s :: "('a, 'b) server_scheme"
  assume "steady eng n s"
  then show "steady eng n (snd (addHandler p h s))"
    by (auto simp: addHandler_def Let_def steady_def server_ok_def node_ok_def sorted_tables_def broker_of_def
        cache_ok_def queueIsExists_def split: option.split)
qed

fun is_accept :: "server_event \<Rightarrow> bool" where
  "is_accept (Accept r) \<longleftrightarrow> True"
| "is_accept _ \<longleftrightarrow> False"

lemma steady_exec:
  assumes "consume_safe eng consume" and "\<not> is_accept e" and "steady eng n s"
  shows "steady eng n (snd (server_exec eng consume e s))"
proof (cases e)
  case (Message i d)
  then show ?thesis using steady_message [OF assms(1,3), of i d] assms(3) by (simp add: ret_def)
next
  case (Local_subscribe p h)
  have "preserves (steady eng n) (Server_subscribe p h :: ('a, 'b) server_scheme \<Rightarrow> _)"
    unfolding Server_subscribe_def by (intro preserves_bind steady_addHandler steady_change)
  with assms(3) Local_subscribe show ?thesis by (simp add: preservesD)
qed (use assms in \<open>simp_all add: Server_createQueue_def Server_unsubscribe_def Server_publish_def
      preservesD [OF steady_close] preservesD [OF steady_createQueue] preservesD [OF steady_change]
      preservesD [OF steady_publish]\<close>)

lemma server_ok_seq:
  assumes "consume_safe eng consume" and "server_ok eng s"
    and "unat (next_id s) + length (filter is_accept es) < 2 ^ 31"
  shows "server_ok eng (snd (run_seq (server_exec eng consume) es s))"
  using assms(2,3)
proof (induction es arbitrary: s)
  case (Cons e es)
  let ?s = "snd (server_exec eng consume e s)"
  have "server_ok eng ?s \<and> unat (next_id ?s) + length (filter is_accept es) < 2 ^ 31"
  proof (cases "is_accept e")
    case True
    then obtain r where e: "e = Accept r" by (cases e) auto
    with Cons.prems have "unat (next_id s) < 2 ^ 31 - 1" by auto
    with Cons.prems show ?thesis
      using handle_accept_ok [OF Cons.prems(1), of r] e by (auto simp: ret_def)
  next
    case False
    then show ?thesis
      using steady_exec [OF assms(1) False, of "next_id s" s] Cons.prems by (simp add: steady_def)
  qed
  then show ?case using Cons.IH by simp
qed simp

end
