(* ===== verification/Server_Delivery.thy ===== *)
theory Server_Delivery
  imports Server
begin

text \<open>
  What a server sends, and to whom. A server that satisfies its invariant meets the contract of the
  locale \<open>delivery\<close> of the node (interpretation \<open>served\<close>), so every message published is a \<open>PUBLISH\<close>
  frame in the outbox of each matching subscriber; requests are answered; closed connections leave
  nothing behind.
\<close>

section \<open>What a server sends\<close>

lemma sendData_live:
  assumes "server_ok eng s" and "find_connection i s \<noteq> None" and "packed nd"
  obtains cs where "sendData i nd s = (Inr (), s\<lparr>connections := cs, outbox := outbox s @ [(i, wire_bytes nd)]\<rparr>)"
    and "map conn_id cs = map conn_id (connections s)"
proof -
  obtain c where c: "find_connection i s = Some c" using assms(2) by blast
  then have "c \<in> set (connections s)" using find_connection_Some by blast
  with assms(1) obtain io where io: "conn_io c = Some io" "live io" by (auto simp: server_ok_def conns_ok_def)
  obtain io' where "io_send nd io = (Inr (Some (wire_bytes nd)), io')"
    using io_send_packed [OF io(2) assms(3)] by blast
  then have "sendData i nd s = (Inr (), s\<lparr>connections := set_io i (Some io') (connections s),
      outbox := outbox s @ [(i, wire_bytes nd)]\<rparr>)"
    using c io by (simp add: sendData_def ret_def)
  then show thesis using that conn_ids_set_io by blast
qed

lemma find_connection_ids:
  "map conn_id (connections s') = map conn_id (connections s) \<Longrightarrow>
   (find_connection i s' = None) = (find_connection i s = None)"
  unfolding find_connection_None by (metis list.set_map)

text \<open>The published messages among the buffers sent, as their receivers read them: whole frames of kind
  \<open>PUBLISH\<close>, without the identifier the server gave them.\<close>

definition sent_view :: "Id \<times> byte list \<Rightarrow> Id \<times> (PublishParams \<times> byte list) option" where
  "sent_view e =
     (fst e,
      if wire_frame (snd e) \<and> header_kind (framed (snd e)) = Inr (kind_code PUBLISH)
      then (case Publish_read (framed (snd e)) of
              Inr pb \<Rightarrow> Some (toPublishParams pb, p_data pb)
            | Inl _ \<Rightarrow> None)
      else None)"

lemma onSendToClient_run:
  assumes "server_ok eng s" and "find_connection i s \<noteq> None" and "short p d"
  obtains cs buf where
    "onSendToClient eng consume p d i s =
       (Inr (), s\<lparr>srv_nextMessageId := srv_nextMessageId s + 1, connections := cs, outbox := outbox s @ [(i, buf)]\<rparr>)"
    and "map conn_id cs = map conn_id (connections s)" and "sent_view (i, buf) = (i, Some (p, d))"
proof -
  have i: "i \<noteq> ServerID"
    using assms(1,2) connected_not_server by (auto simp: server_ok_def find_connection_None simp del: not_None_eq)
  obtain nd where nd: "Publish_toNetworkMessage (mk_Publish p d (srv_nextMessageId s)) = Inr nd" "packed nd"
    "Publish_read nd = Inr (mk_Publish p d (srv_nextMessageId s))"
    using Publish_packs [OF assms(3)] by blast
  let ?s = "s\<lparr>srv_nextMessageId := srv_nextMessageId s + 1\<rparr>"
  have "find_connection i ?s \<noteq> None" using assms(2) by (simp add: find_connection_def)
  with assms(1) nd(2) obtain cs where cs: "sendData i nd ?s =
      (Inr (), ?s\<lparr>connections := cs, outbox := outbox s @ [(i, wire_bytes nd)]\<rparr>)"
    "map conn_id cs = map conn_id (connections s)"
    using sendData_live [of eng ?s i nd] by auto
  have "sent_view (i, wire_bytes nd) = (i, Some (p, d))"
    using nd packed_wire [OF nd(2)] Publish_sent [OF nd(1)]
    by (simp add: sent_view_def)
  moreover have "onSendToClient eng consume p d i s =
      (Inr (), ?s\<lparr>connections := cs, outbox := outbox s @ [(i, wire_bytes nd)]\<rparr>)"
    using i nd(1) cs(1) assms(2)
    by (auto simp: onSendToClient_def bind_def modify_def lift_def sendTo_def find_connection_def split: option.split)
  ultimately show thesis using that cs(2) by blast
qed

interpretation served: delivery eng "onSendToClient eng consume" "server_ok eng"
    "\<lambda>s i. find_connection i s \<noteq> None" "\<lambda>s. map sent_view (outbox s)" "\<lambda>p d i. (i, Some (p, d))" short
  for eng :: "'re engine" and consume :: "('re, 'a) server_scheme consume"
proof
  fix s :: "('re, 'a) server_scheme" and i p d
  assume s: "server_ok eng s" "find_connection i s \<noteq> None" "short p d"
  then obtain cs buf where run: "onSendToClient eng consume p d i s =
       (Inr (), s\<lparr>srv_nextMessageId := srv_nextMessageId s + 1, connections := cs, outbox := outbox s @ [(i, buf)]\<rparr>)"
    and ids: "map conn_id cs = map conn_id (connections s)" and view: "sent_view (i, buf) = (i, Some (p, d))"
    using onSendToClient_run by blast
  let ?s' = "s\<lparr>srv_nextMessageId := srv_nextMessageId s + 1, connections := cs, outbox := outbox s @ [(i, buf)]\<rparr>"
  have "i \<noteq> ServerID"
    using s(1,2) connected_not_server by (auto simp: server_ok_def find_connection_None simp del: not_None_eq)
  from preservesD [OF steady_send_remote [OF this], of eng "next_id s" s eng consume p d] s(1) run
  have "server_ok eng ?s'" by (simp add: steady_def)
  then show "\<exists>s'. onSendToClient eng consume p d i s = (Inr (), s') \<and> server_ok eng s' \<and>
      map sent_view (outbox s') = map sent_view (outbox s) @ [(i, Some (p, d))] \<and>
      (\<lambda>i. find_connection i s' \<noteq> None) = (\<lambda>i. find_connection i s \<noteq> None)"
    using run view find_connection_ids [of ?s' s] ids by (simp add: fun_eq_iff del: not_None_eq)
next
  fix s :: "('re, 'a) server_scheme" and c
  assume "server_ok eng s" "cache_ok eng (s\<lparr>recache := c\<rparr>)"
  then show "server_ok eng (s\<lparr>recache := c\<rparr>) \<and>
      map sent_view (outbox (s\<lparr>recache := c\<rparr>)) = map sent_view (outbox s) \<and>
      (\<lambda>i. find_connection i (s\<lparr>recache := c\<rparr>) \<noteq> None) = (\<lambda>i. find_connection i s \<noteq> None)"
    using steady_recache [of eng "next_id s" s c] by (simp add: steady_def find_connection_def)
qed (simp add: server_ok_def)

section \<open>Properties\<close>

text \<open>A started server.\<close>

definition started :: "'re server" where
  "started = snd (serverStart Server)"

lemma started_eq: "started = Server\<lparr>acceptor := True, accepting := True, srv_is_started := True\<rparr>"
  by (simp add: started_def serverStart_def start_accept_def proc_defs)

lemma started_ok: "server_ok eng started" "next_id started = 0" "connections started = []" "outbox started = []"
proof -
  have "ub_exists (ub_append \<lparr>user_login = l, user_id = ServerID\<rparr> ub_create) i \<longleftrightarrow> i = ServerID" for i l by simp
  then show "server_ok eng started"
    by (simp add: started_eq Server_def server_ok_def node_ok_def sorted_tables_def queues_ok_def listeners_ok_def
        queueIsExists_def cache_ok_def subscribers_known_def conns_ok_def get_or_def)
qed (simp_all add: started_eq Server_def)


definition silent :: "('re, 'a) server_scheme consume" where
  "silent c p d i = ret ()"

lemma silent_safe [simp]: "consume_safe eng silent"
  by (simp add: consume_safe_def silent_def)


lemma listener_connected:
  assumes "server_ok eng s" and "b_listeners (broker_of s) q i \<noteq> None" and "i \<noteq> ServerID"
  shows "find_connection i s \<noteq> None"
proof -
  have "ub_exists (clients s) i" using assms(1,2) by (auto simp: server_ok_def subscribers_known_def)
  with assms(1,3) show ?thesis
    by (simp add: server_ok_def conns_ok_def find_connection_None del: not_None_eq)
qed

lemma sendOk_run:
  assumes "server_ok eng s" and "find_connection i s \<noteq> None"
  obtains cs buf where "sendOk i m s = (Inr (), s\<lparr>connections := cs, outbox := outbox s @ [(i, buf)]\<rparr>)"
    and "map conn_id cs = map conn_id (connections s)"
    and "buf = frame (kind_code OK) [u64V m]" and "Ok_read (framed buf) = Inr \<lparr>ok_id = m\<rparr>"
proof -
  let ?nd = "framed (frame (kind_code OK) [u64V m])"
  have nd: "Ok_toNetworkMessage \<lparr>ok_id = m\<rparr> = Inr ?nd" using Ok_packs [of "\<lparr>ok_id = m\<rparr>"] by simp
  note packed = packed_Ok [OF nd]
  have bytes: "wire_bytes ?nd = frame (kind_code OK) [u64V m]"
    using as_buffer_frame [of "[u64V m]" "[Pod 8]"] by (simp add: wire_bytes_def)
  obtain cs where "sendData i ?nd s = (Inr (), s\<lparr>connections := cs, outbox := outbox s @ [(i, wire_bytes ?nd)]\<rparr>)"
    "map conn_id cs = map conn_id (connections s)"
    using sendData_live [OF assms packed] by blast
  moreover have "Ok_read ?nd = Inr \<lparr>ok_id = m\<rparr>"
    using ok.round_trip(1) [of "\<lparr>ok_id = m\<rparr>" ?nd] nd by (simp add: Ok_toNetworkMessage_def Ok_read_def)
  ultimately show thesis
    using that [where cs = cs and buf = "wire_bytes ?nd"] packed_wire [OF packed] bytes
    by (simp add: sendOk_def nd bind_def lift_def)
qed

lemma publish_request:
  assumes "Publish_toNetworkMessage (mk_Publish p d m) = Inr nd"
  shows "onNewMessage eng consume i nd = bind (publish eng (onSendToClient eng consume) p d i) (\<lambda>_. sendOk i m)"
  using Publish_sent [OF assms]
  by (simp add: onNewMessage_def on_PUBLISH_def)

text \<open>The part of the state that sending touches.\<close>

definition only_sends :: "('re, 'a) server_scheme \<Rightarrow> ('re, 'a) server_scheme \<Rightarrow> bool" where
  "only_sends s s' \<longleftrightarrow> s' = s\<lparr>recache := recache s', connections := connections s',
     srv_nextMessageId := srv_nextMessageId s', outbox := outbox s'\<rparr>"

lemma only_sends_step [simp]:
  "only_sends s s"
  "only_sends s s' \<Longrightarrow> only_sends s (s'\<lparr>recache := c\<rparr>)"
  "only_sends s s' \<Longrightarrow> only_sends s (s'\<lparr>connections := cs\<rparr>)"
  "only_sends s s' \<Longrightarrow> only_sends s (s'\<lparr>srv_nextMessageId := n\<rparr>)"
  "only_sends s s' \<Longrightarrow> only_sends s (s'\<lparr>outbox := out\<rparr>)"
  by (cases s; cases s'; simp add: only_sends_def)+

lemma only_sends_tables:
  assumes "only_sends s s'"
  shows "broker_of s' = broker_of s" "queues s' = queues s" "subscriptions s' = subscriptions s" "eventHandlers s' = eventHandlers s"
    "queue2handler s' = queue2handler s" "consumerId s' = consumerId s"
  by (subst assms [unfolded only_sends_def], simp add: broker_of_def)+

interpretation sending: delivery eng "onSendToClient eng consume" "\<lambda>s'. server_ok eng s' \<and> only_sends s s'"
    "\<lambda>s i. find_connection i s \<noteq> None" "\<lambda>s. map sent_view (outbox s)" "\<lambda>p d i. (i, Some (p, d))" short
  for eng :: "'re engine" and consume :: "('re, 'a) server_scheme consume" and s
proof
  fix s' :: "('re, 'a) server_scheme" and i p d
  assume s': "server_ok eng s' \<and> only_sends s s'" "find_connection i s' \<noteq> None" "short p d"
  obtain t where t: "onSendToClient eng consume p d i s' = (Inr (), t)" "server_ok eng t"
    "map sent_view (outbox t) = map sent_view (outbox s') @ [(i, Some (p, d))]"
    "(\<lambda>i. find_connection i t \<noteq> None) = (\<lambda>i. find_connection i s' \<noteq> None)"
    using served.handler_sends [OF conjunct1 [OF s'(1)] s'(2,3), of consume] by blast
  obtain cs buf where run: "onSendToClient eng consume p d i s' =
      (Inr (), s'\<lparr>srv_nextMessageId := srv_nextMessageId s' + 1, connections := cs, outbox := outbox s' @ [(i, buf)]\<rparr>)"
    and "map conn_id cs = map conn_id (connections s')" and "sent_view (i, buf) = (i, Some (p, d))"
    using onSendToClient_run [OF conjunct1 [OF s'(1)] s'(2,3), of consume] .
  have "only_sends s t" using run t(1) s'(1) by auto
  with t show "\<exists>t. onSendToClient eng consume p d i s' = (Inr (), t) \<and> (server_ok eng t \<and> only_sends s t) \<and>
      map sent_view (outbox t) = map sent_view (outbox s') @ [(i, Some (p, d))] \<and>
      (\<lambda>i. find_connection i t \<noteq> None) = (\<lambda>i. find_connection i s' \<noteq> None)" by blast
next
  fix s' :: "('re, 'a) server_scheme" and c
  assume "server_ok eng s' \<and> only_sends s s'" "cache_ok eng (s'\<lparr>recache := c\<rparr>)"
  then show "(server_ok eng (s'\<lparr>recache := c\<rparr>) \<and> only_sends s (s'\<lparr>recache := c\<rparr>)) \<and>
      map sent_view (outbox (s'\<lparr>recache := c\<rparr>)) = map sent_view (outbox s') \<and>
      (\<lambda>i. find_connection i (s'\<lparr>recache := c\<rparr>) \<noteq> None) = (\<lambda>i. find_connection i s' \<noteq> None)"
    using served.cache_frame [of eng s' c] by simp
qed (simp add: server_ok_def)

text \<open>A publication of which the server itself is no target.\<close>

lemma target_connected:
  assumes "server_ok eng s" and "\<not> spec_receives eng (broker_of s) p ServerID"
    and kv: "kv \<in> set (queue_listeners s (pub_queueName p))" "target_test eng (pub_tag p) kv = Inr True"
  shows "find_connection (fst kv) s \<noteq> None"
proof (rule listener_connected [OF assms(1)])
  have "tables_ok s" using assms(1) by (simp add: server_ok_def node_ok_alt)
  then have listens: "b_listeners (broker_of s) (pub_queueName p) (fst kv) = Some (snd kv)"
    using kv(1) listener_in [of s "fst kv" "snd kv"] by simp
  then show "b_listeners (broker_of s) (pub_queueName p) (fst kv) \<noteq> None" by simp
  show "fst kv \<noteq> ServerID" using listens kv(2) assms(2) unfolding spec_receives_def by (metis prod.collapse)
qed

lemma publish_sends:
  assumes "server_ok eng s" and "short p d" and "queueIsExists s (pub_queueName p)"
    and "\<not> spec_receives eng (broker_of s) p ServerID" and "\<And>j e. \<not> spec_rejected eng (broker_of s) p j e"
  shows "\<exists>s' ids. publish eng (onSendToClient eng consume) p d i s = (Inr (), s') \<and> server_ok eng s' \<and> only_sends s s' \<and>
    (\<lambda>i. find_connection i s' \<noteq> None) = (\<lambda>i. find_connection i s \<noteq> None) \<and>
    sorted_wrt (<) ids \<and> set ids = {j. spec_receives eng (broker_of s) p j} \<and>
    map sent_view (outbox s') = map sent_view (outbox s) @ map (\<lambda>j. (j, Some (p, d))) ids"
proof -
  have ok: "tables_ok s" using assms(1) by (simp add: server_ok_def node_ok_alt)
  let ?kvs = "filter (\<lambda>kv. target_test eng (pub_tag p) kv = Inr True) (queue_listeners s (pub_queueName p))"
  let ?pub = "publish eng (onSendToClient eng consume) p d i s" and ?ids = "map fst ?kvs"
  have sel: "select (target_test eng (pub_tag p)) (queue_listeners s (pub_queueName p)) = (Inr (), ?kvs)"
    by (rule select_listeners_total [OF ok assms(5)])
  have "server_ok eng s \<and> only_sends s s" using assms(1) by simp
  from sending.publish_select [OF ok this assms(3,2) target_connected [OF assms(1,4)], of consume i] sel
  have "?pub = (Inr (), snd ?pub)" "server_ok eng (snd ?pub)" "only_sends s (snd ?pub)"
    "(\<lambda>i. find_connection i (snd ?pub) \<noteq> None) = (\<lambda>i. find_connection i s \<noteq> None)"
    "map sent_view (outbox (snd ?pub)) = map sent_view (outbox s) @ map (\<lambda>j. (j, Some (p, d))) ?ids"
    by (auto simp: comp_def prod_eq_iff simp del: not_None_eq)
  moreover have "sorted_wrt (<) ?ids"
    using sorted_ids_filter [OF omap_ok_get_or [OF tables_ok_sorted [OF ok]]] by (simp add: queue_listeners_def)
  moreover have "set ?ids = {j. spec_receives eng (broker_of s) p j}" by (simp add: receivers_of [OF ok])
  ultimately show ?thesis by (intro exI [of _ "snd ?pub"] exI [of _ ?ids]) simp
qed

lemma server_publish_run:
  assumes "server_ok eng s" and "find_connection i s \<noteq> None" and "short p d"
    and "queueIsExists s (pub_queueName p)" and "\<not> spec_receives eng (broker_of s) p ServerID"
    and "\<And>j e. \<not> spec_rejected eng (broker_of s) p j e"
    and "Publish_toNetworkMessage (mk_Publish p d m) = Inr nd"
  shows "\<exists>s' ids sent okb.
           onNewMessage eng consume i nd s = (Inr (), s') \<and> server_ok eng s' \<and>
           sorted_wrt (<) ids \<and> set ids = {j. spec_receives eng (broker_of s) p j} \<and>
           outbox s' = sent @ [(i, okb)] \<and>
           map sent_view sent = map sent_view (outbox s) @ map (\<lambda>j. (j, Some (p, d))) ids \<and>
           okb = frame (kind_code OK) [u64V m]"
proof -
  obtain s1 ids where pub: "publish eng (onSendToClient eng consume) p d i s = (Inr (), s1)" and s1: "server_ok eng s1"
    and same: "(\<lambda>i. find_connection i s1 \<noteq> None) = (\<lambda>i. find_connection i s \<noteq> None)"
    and ids: "sorted_wrt (<) ids" "set ids = {j. spec_receives eng (broker_of s) p j}"
    and sent: "map sent_view (outbox s1) = map sent_view (outbox s) @ map (\<lambda>j. (j, Some (p, d))) ids"
    using publish_sends [OF assms(1,3-6), of consume i] by blast
  have "find_connection i s1 \<noteq> None" using assms(2) same by metis
  from sendOk_run [OF s1 this, of m] obtain cs okb where
    okb: "sendOk i m s1 = (Inr (), s1\<lparr>connections := cs, outbox := outbox s1 @ [(i, okb)]\<rparr>)"
    and "map conn_id cs = map conn_id (connections s1)" and frame: "okb = frame (kind_code OK) [u64V m]"
    and "Ok_read (framed okb) = Inr \<lparr>ok_id = m\<rparr>" .
  have run: "onNewMessage eng consume i nd s = sendOk i m s1"
    using pub unfolding publish_request [OF assms(7)] by (simp add: bind_def)
  have "server_ok eng (snd (sendOk i m s1))"
    using preservesD [OF steady_sendOk, of eng "next_id s1" s1 i m] s1 by (simp add: steady_def)
  then show ?thesis
    using run okb frame sent ids
    by (intro exI [of _ "snd (sendOk i m s1)"] exI [of _ ids] exI [of _ "outbox s1"] exI [of _ okb]) simp
qed

text \<open>C11: the whole path through the server. When a connected client publishes to an existing queue
  of which the server itself is no target, and no tag expression is rejected, the server sends
  the message to exactly the targets, in increasing order of their identifiers, in frames that the
  targets read back as the message's parameters and data, and then one frame that the publisher
  reads as \<open>OK\<close> with the message's identifier. It does not throw: no target is unknown.\<close>

theorem server_publish_reaches_targets:
  assumes "server_ok eng s" and "find_connection i s \<noteq> None" and "short p d"
    and "queueIsExists s (pub_queueName p)" and "\<not> spec_receives eng (broker_of s) p ServerID"
    and "\<And>j e. \<not> spec_rejected eng (broker_of s) p j e"
    and "Publish_toNetworkMessage (mk_Publish p d m) = Inr nd"
  shows "\<exists>s' ids sent okb.
           onNewMessage eng consume i nd s = (Inr (), s') \<and> server_ok eng s' \<and>
           sorted_wrt (<) ids \<and> set ids = {j. spec_receives eng (broker_of s) p j} \<and>
           outbox s' = sent @ [(i, okb)] \<and>
           map sent_view sent = map sent_view (outbox s) @ map (\<lambda>j. (j, Some (p, d))) ids \<and>
           Ok_read (framed okb) = Inr \<lparr>ok_id = m\<rparr>"
proof -
  have "Ok_read (framed (frame (kind_code OK) [u64V m])) = Inr \<lparr>ok_id = m\<rparr>"
    using Ok_sent [OF Ok_packs, of "\<lparr>ok_id = m\<rparr>"] by simp
  then show ?thesis using server_publish_run [OF assms, of consume] by blast
qed

text \<open>Two clients; the first has created a queue, the second listens to it.\<close>

definition two_clients :: "string server" where
  "two_clients = snd (run_seq (server_exec literal_engine silent) [Accept Accepted, Accept Accepted] started)"

definition busy :: "string server" where
  "busy = snd (run_seq node_exec [DoCreate \<lparr>qs_name = ''q''\<rparr> 0, DoChange Subscribe (mk_sub ''q'' []) 1] two_clients)"

lemma two_clients_run:
  "server_ok literal_engine two_clients"
  "connections two_clients = [connection_start 0, connection_start 1]" "outbox two_clients = []"
  "queues two_clients = []" "subscriptions two_clients = []" "nextQueueId two_clients = 0"
proof -
  show "server_ok literal_engine two_clients"
    unfolding two_clients_def
    by (rule server_ok_seq [OF silent_safe started_ok(1)]) (simp add: started_ok(2))
qed (simp_all add: two_clients_def started_eq Server_def handle_accept_state ret_def)

lemma busy_run: "server_ok literal_engine busy" "connections busy = [connection_start 0, connection_start 1]" "outbox busy = []"
proof -
  have "server_ok literal_engine (snd (run_seq node_exec cs two_clients))" for cs
    by (rule run_seq_invariant [OF server_ok_node two_clients_run(1)])
  then show "server_ok literal_engine busy" by (simp only: busy_def)
  have "connections (snd (run_seq node_exec cs s)) = connections s \<and> outbox (snd (run_seq node_exec cs s)) = outbox s"
    for cs and s :: "string server"
    by (rule run_seq_invariant [where I = "\<lambda>t. connections t = connections s \<and> outbox t = outbox s"])
       (simp_all add: only_tables_server [OF only_tables_exec])
  then show "connections busy = [connection_start 0, connection_start 1]" "outbox busy = []"
    by (simp_all only: busy_def two_clients_run)
qed

lemma busy_broker:
  "b_listeners (broker_of busy) ''q'' = [0 \<mapsto> \<lparr>isowner = True, issubscribed = False, ql_settings = mk_sub ''q'' []\<rparr>,
      1 \<mapsto> \<lparr>isowner = False, issubscribed = False, ql_settings = mk_sub ''q'' []\<rparr>]"
  "b_queues (broker_of busy) ''q'' \<noteq> None"
proof -
  have t: "tables_ok two_clients" using two_clients_run(1) by (simp add: server_ok_def node_ok_alt)
  have members: "ub_exists (clients two_clients) 0" "ub_exists (clients two_clients) 1"
    using two_clients_run(1,2) by (auto simp: server_ok_def conns_ok_def connection_start_def)
  show "b_listeners (broker_of busy) ''q'' = [0 \<mapsto> \<lparr>isowner = True, issubscribed = False, ql_settings = mk_sub ''q'' []\<rparr>,
      1 \<mapsto> \<lparr>isowner = False, issubscribed = False, ql_settings = mk_sub ''q'' []\<rparr>]"
    "b_queues (broker_of busy) ''q'' \<noteq> None"
    unfolding busy_def conjunct2 [OF broker_sim.refines_seq [OF t]]
    by (auto simp: spec_create_def spec_change_def members two_clients_run get_or_def fun_eq_iff)
qed

lemma busy_targets:
  "\<not> spec_rejected literal_engine (broker_of busy) (mk_pub ''q'' []) j e"
  "{j. spec_receives literal_engine (broker_of busy) (mk_pub ''q'' []) j} = {1}"
  by (auto simp: spec_rejected_def spec_receives_def busy_broker target_test_def tag_matches_def
      simp del: broker_of_sel split: if_splits)

lemma busy_present:
  "find_connection 0 busy \<noteq> None" "queueIsExists busy ''q''" "\<not> spec_receives literal_engine (broker_of busy) (mk_pub ''q'' []) ServerID"
proof -
  show "queueIsExists busy ''q''" using busy_broker(2) by (auto simp: queueIsExists_def)
qed (auto simp: find_connection_def busy_run connection_start_def busy_broker spec_receives_def ServerID_def simp del: broker_of_sel)

theorem server_publish_reaches_targets_witness:
  "\<exists>nd s' sent okb. Publish_toNetworkMessage (mk_Publish (mk_pub ''q'' []) [7] 5) = Inr nd \<and>
     onNewMessage literal_engine silent 0 nd busy = (Inr (), s') \<and> outbox s' = sent @ [(0, okb)] \<and>
     map sent_view sent = [(1, Some (mk_pub ''q'' [], [7]))] \<and> Ok_read (framed okb) = Inr \<lparr>ok_id = 5\<rparr>"
proof -
  let ?p = "mk_pub ''q'' []"
  have short: "short ?p [7]" by (simp add: short_def)
  then obtain nd where nd: "Publish_toNetworkMessage (mk_Publish ?p [7] 5) = Inr nd" by (rule Publish_packs)
  note rejected = busy_targets(1) and receives = busy_targets(2) and present = busy_present
  then obtain s' ids sent okb where
    "onNewMessage literal_engine silent 0 nd busy = (Inr (), s')" "sorted_wrt (<) ids" "set ids = {1 :: Id}"
    "outbox s' = sent @ [(0, okb)]" "map sent_view sent = map (\<lambda>j. (j, Some (?p, [7]))) ids"
    "Ok_read (framed okb) = Inr \<lparr>ok_id = 5\<rparr>"
    using server_publish_reaches_targets [OF busy_run(1) present(1) short _ _ rejected nd, of silent] receives present(2,3)
    by (auto simp: busy_run simp del: broker_of_sel)
  moreover from this have "ids = [1]"
    by (metis insert_not_empty list.set(1) sorted_wrt.simps(2) distinct_singleton strict_sorted_equal list.simps(15) sorted_wrt1)
  ultimately show ?thesis using nd by auto
qed

subsection \<open>Replies\<close>

text \<open>The identifier a request carries, by its kind, and the reply that belongs to it.\<close>

definition request_id :: "network_message \<Rightarrow> u16 \<Rightarrow> error + u64" where
  "request_id d kind =
     (if kind = kind_code CREATE_QUEUE then map_sum id cq_msgId (CreateQueue_read d)
      else if kind = kind_code PUBLISH then map_sum id p_messageId (Publish_read d)
      else map_sum id cs_msgId (ChangeSubscribe_read d))"

definition replies :: "network_message \<Rightarrow> Id \<Rightarrow> byte list \<Rightarrow> bool" where
  "replies d i buf \<longleftrightarrow>
     (\<exists>kind. header_kind d = Inr kind \<and>
        (if kind = kind_code LOGIN
         then LoginConfirm_read (framed buf) = Inr \<lparr>lc_id = i\<rparr>
         else \<exists>m. request_id d kind = Inr m \<and> Ok_read (framed buf) = Inr \<lparr>ok_id = m\<rparr>))"

lemma bind_Inr_iff:
  "bind m f s = (Inr b, s') \<longleftrightarrow> (\<exists>a s1. m s = (Inr a, s1) \<and> f a s1 = (Inr b, s'))"
  by (auto simp: bind_def split: prod.splits sum.splits)

lemma bind_lift_Inr: "bind (lift r) f s = (Inr b, s') \<longleftrightarrow> (\<exists>a. r = Inr a \<and> f a s = (Inr b, s'))"
  by (auto simp: bind_def lift_def split: sum.splits)

lemma sendData_needs_connection: "sendData i nd s = (Inr (), s') \<Longrightarrow> find_connection i s \<noteq> None"
  by (cases "find_connection i s") (auto simp: sendData_def throw_def)

lemma sendOk_reply:
  assumes "server_ok eng s" and "sendOk i m s = (Inr (), s')"
  shows "\<exists>pre buf. outbox s' = pre @ [(i, buf)] \<and> Ok_read (framed buf) = Inr \<lparr>ok_id = m\<rparr>"
proof -
  have "find_connection i s \<noteq> None"
    using assms(2) sendData_needs_connection by (fastforce simp: sendOk_def bind_lift_Inr)
  from sendOk_run [OF assms(1) this, of m] assms(2) show ?thesis by fastforce
qed

lemma LoginConfirm_reply:
  assumes "server_ok eng s" and "LoginConfirm_toNetworkMessage \<lparr>lc_id = i\<rparr> = Inr nd" and "sendData i nd s = (Inr (), s')"
  shows "\<exists>pre buf. outbox s' = pre @ [(i, buf)] \<and> LoginConfirm_read (framed buf) = Inr \<lparr>lc_id = i\<rparr>"
proof -
  have nd: "pack LOGIN_CONFIRM [u64V i] = Inr nd" using assms(2) by (simp add: LoginConfirm_toNetworkMessage_def)
  have "packed nd" unfolding packed_def
    by (intro exI conjI) (rule login_confirm.typed [of "\<lparr>lc_id = i\<rparr>"], simp, use nd in simp)
  moreover have "LoginConfirm_read nd = Inr \<lparr>lc_id = i\<rparr>"
    using login_confirm.round_trip(1) [of "\<lparr>lc_id = i\<rparr>" nd] nd by (simp add: LoginConfirm_read_def)
  ultimately show ?thesis
    using sendData_live [OF assms(1) sendData_needs_connection [OF assms(3)], of nd] assms(3) packed_wire [of nd]
    by fastforce
qed

lemma request_reply:
  assumes "server_ok eng s" and "preserves (steady eng (next_id s)) act"
    and "bind act (\<lambda>_. sendOk i m) s = (Inr (), s')"
  shows "\<exists>pre buf. outbox s' = pre @ [(i, buf)] \<and> Ok_read (framed buf) = Inr \<lparr>ok_id = m\<rparr>"
proof -
  from assms(3) obtain a s1 where "act s = (Inr a, s1)" "sendOk i m s1 = (Inr (), s')" by (auto simp: bind_Inr_iff)
  moreover have "steady eng (next_id s) s1"
    using preserves_run [OF assms(2) _ \<open>act s = (Inr a, s1)\<close>] assms(1) by (simp add: steady_def)
  ultimately show ?thesis using sendOk_reply [of eng s1 i m s'] by (simp add: steady_def)
qed


lemma broker_of_sent [simp]: "broker_of (s\<lparr>connections := cs, outbox := ob\<rparr>) = broker_of s"
  by (simp add: broker_of_def)

text \<open>A request to the node, followed by its \<open>OK\<close>.\<close>

lemma node_request_succeeds:
  assumes "server_ok eng s" and "find_connection i s \<noteq> None"
    and "fst (spec_exec c (broker_of s)) = Inr ()"
  obtains s' where "bind (node_exec c) (\<lambda>_. sendOk i m) s = (Inr (), s')" and "server_ok eng s'"
    and "broker_of s' = snd (spec_exec c (broker_of s))"
    and "map conn_id (connections s') = map conn_id (connections s)"
    and "outbox s' = outbox s @ [(i, frame (kind_code OK) [u64V m])]"
proof -
  have t: "tables_ok s" using assms(1) by (simp add: server_ok_def node_ok_alt)
  obtain r s1 where act: "node_exec c s = (r, s1)" by fastforce
  have r: "r = Inr ()" using broker_sim.same_result [OF t, of c] assms(3) act by simp
  have s1: "server_ok eng s1" "connections s1 = connections s" "outbox s1 = outbox s"
    "broker_of s1 = snd (spec_exec c (broker_of s))"
    using server_ok_node [OF assms(1), of c] only_tables_server [OF only_tables_exec [of s c]]
      broker_sim.same_state [OF t, of c] act by simp_all
  then have "find_connection i s1 \<noteq> None" using assms(2) by (simp add: find_connection_def)
  then obtain cs okb where okb: "sendOk i m s1 = (Inr (), s1\<lparr>connections := cs, outbox := outbox s1 @ [(i, okb)]\<rparr>)"
    "map conn_id cs = map conn_id (connections s1)" "okb = frame (kind_code OK) [u64V m]"
    using sendOk_run [OF s1(1), of i m] by blast
  let ?s' = "s1\<lparr>connections := cs, outbox := outbox s1 @ [(i, okb)]\<rparr>"
  show thesis
  proof (rule that)
    show "bind (node_exec c) (\<lambda>_. sendOk i m) s = (Inr (), ?s')" using act r okb(1) by (simp add: bind_def)
    show "server_ok eng ?s'"
      using preservesD [OF steady_sendOk, of eng "next_id s1" s1 i m] s1(1) okb(1) by (simp add: steady_def)
  qed (use okb s1 in simp_all)
qed

text \<open>The frames of the requests that change the broker.\<close>

lemma create_request:
  assumes "CreateQueue_toNetworkMessage cq = Inr nd"
  shows "onNewMessage eng consume i nd = bind (node_exec (DoCreate \<lparr>qs_name = cq_name cq\<rparr> i)) (\<lambda>_. sendOk i (cq_msgId cq))"
  using CreateQueue_sent [OF assms] by (simp add: onNewMessage_def on_CREATE_QUEUE_def)

lemma subscribe_request:
  assumes "ChangeSubscribe_toNetworkMessage cs = Inr nd"
  shows "onNewMessage eng consume i nd = bind (node_exec (DoChange Subscribe (toParams cs) i)) (\<lambda>_. sendOk i (cs_msgId cs))"
  using ChangeSubscribe_sent [OF assms] by (simp add: onNewMessage_def on_SUBSCRIBE_def)


subsection \<open>Closing\<close>

lemma remaining_connections:
  assumes "server_ok eng s"
  shows "connections (dropped i ub s) = filter (\<lambda>c. conn_id c \<noteq> i) (connections s)"
proof -
  have d: "distinct (map conn_id (connections s))" using assms by (simp add: server_ok_def conns_ok_def)
  have "filter (\<lambda>c. conn_id c \<noteq> i) (set_io i io cs) = filter (\<lambda>c. conn_id c \<noteq> i) cs" for io cs
    by (induction cs) auto
  with d show ?thesis by (simp add: dropped_def remove_connection_filter)
qed

lemma close_run:
  assumes "server_ok eng s"
  obtains s' where "connection_close i s = (Inr (), s')" and "server_ok eng s'"
    and "connections s' = filter (\<lambda>c. conn_id c \<noteq> i) (connections s)"
    and "acceptor s' = acceptor s" and "srv_is_stoped s' = srv_is_stoped s"
proof (cases "find_connection i s")
  case None
  then have "filter (\<lambda>c. conn_id c \<noteq> i) (connections s) = connections s"
    by (force simp: find_connection_None intro: filter_True)
  with None assms that show thesis by (simp add: connection_close_def ret_def)
next
  case (Some c)
  then have c: "find_connection i s \<noteq> None" by simp
  obtain ub where ub: "ub_erase i (clients s) = Inr ub" "connection_close i s = (Inr (), dropped i ub s)"
    using connection_close_run [OF assms c] by blast
  have "acceptor (dropped i ub s) = acceptor s" "srv_is_stoped (dropped i ub s) = srv_is_stoped s"
    by (simp_all add: dropped_def eraseClient_def modify_def case_prod_unfold Let_def)
  with that ub dropped_ok(1) [OF assms c ub(1)] remaining_connections [OF assms] show thesis by blast
qed

text \<open>C25: a connection that breaks leaves nothing behind: the client is no longer connected, no longer
  a user and no longer a listener of any queue, nobody else's connection or subscription changes,
  and closing it a second time does nothing.\<close>

theorem disconnect_leaves_nothing:
  assumes "server_ok eng s" and "find_connection i s \<noteq> None"
  shows "\<exists>s'. connection_close i s = (Inr (), s') \<and> server_ok eng s' \<and>
           connections s' = filter (\<lambda>c. conn_id c \<noteq> i) (connections s) \<and> \<not> ub_exists (clients s') i \<and>
           (\<forall>q j. b_listeners (broker_of s') q j = (if j = i then None else b_listeners (broker_of s) q j)) \<and>
           connection_close i s' = (Inr (), s')"
proof -
  obtain ub where ub: "ub_erase i (clients s) = Inr ub" "connection_close i s = (Inr (), dropped i ub s)"
    using connection_close_run [OF assms] by blast
  let ?s' = "dropped i ub s"
  have conns: "connections ?s' = filter (\<lambda>c. conn_id c \<noteq> i) (connections s)"
    using assms(1) by (rule remaining_connections)
  then have "find_connection i ?s' = None" by (auto simp: find_connection_None)
  then have "connection_close i ?s' = (Inr (), ?s')" by (simp add: connection_close_def ret_def)
  moreover have "\<not> ub_exists (clients ?s') i"
    using users.remove_iff [OF ub(1)] by (simp add: dropped_def)
  moreover have "\<forall>q j. b_listeners (broker_of ?s') q j = (if j = i then None else b_listeners (broker_of s) q j)"
    unfolding dropped_ok(3) [OF assms ub(1)] by (simp add: spec_erase_def)
  ultimately show ?thesis using ub(2) conns dropped_ok(1) [OF assms ub(1)] by blast
qed

theorem disconnect_leaves_nothing_witness:
  "\<exists>s'. connection_close 1 busy = (Inr (), s') \<and> connections s' = [connection_start 0] \<and> \<not> ub_exists (clients s') 1"
  using disconnect_leaves_nothing [OF busy_run(1), of 1]
  by (fastforce simp: find_connection_def busy_run connection_start_def)

lemma close_all:
  "server_ok eng s \<Longrightarrow>
   \<exists>s'. for_each is connection_close s = (Inr (), s') \<and> server_ok eng s' \<and>
        connections s' = filter (\<lambda>c. conn_id c \<notin> set is) (connections s)"
proof (induction "is" arbitrary: s)
  case (Cons i "is")
  obtain s1 where s1: "connection_close i s = (Inr (), s1)" "server_ok eng s1"
    "connections s1 = filter (\<lambda>c. conn_id c \<noteq> i) (connections s)"
    using close_run [OF Cons.prems] by blast
  from Cons.IH [OF s1(2)] s1 show ?case by (fastforce simp: bind_def conj_commute intro: filter_cong)
qed (simp add: ret_def)

text \<open>\<open>stopServer\<close> on a running server closes every connection: it does not throw, and afterwards
  nobody is connected, the server is the only user and the only one who can still listen to a
  queue; stopping it again does nothing.\<close>

theorem stopServer_closes_all:
  assumes "server_ok eng s" and "acceptor s" and "\<not> srv_is_stoped s"
  shows "\<exists>s'. stopServer s = (Inr (), s') \<and> connections s' = [] \<and> (\<forall>i. ub_exists (clients s') i \<longleftrightarrow> i = ServerID) \<and>
           (\<forall>q i. b_listeners (broker_of s') q i \<noteq> None \<longrightarrow> i = ServerID) \<and> stopServer s' = (Inr (), s')"
proof -
  let ?s0 = "s\<lparr>acceptor := False\<rparr>"
  have "server_ok eng ?s0"
    using assms(1) by (simp add: server_ok_def node_ok_def sorted_tables_def broker_of_def cache_ok_def queueIsExists_def)
  from close_all [OF this, of "map conn_id (connections s)"] obtain s1 where
    s1: "for_each (map conn_id (connections s)) connection_close ?s0 = (Inr (), s1)" "server_ok eng s1"
    "connections s1 = []" by (auto simp: filter_empty_conv)
  let ?s' = "s1\<lparr>connections := [], srv_is_stoped := True\<rparr>"
  have "stopServer s = (Inr (), ?s')"
    using assms(2,3) s1(1) by (simp add: stopServer_def bind_def modify_def)
  moreover have users: "\<forall>i. ub_exists (clients s1) i \<longleftrightarrow> i = ServerID"
    using s1(2,3) by (simp add: server_ok_def conns_ok_def)
  moreover have "broker_of ?s' = broker_of s1" by (simp add: broker_of_def)
  with s1(2) users have "\<forall>q i. b_listeners (broker_of ?s') q i \<noteq> None \<longrightarrow> i = ServerID"
    unfolding server_ok_def subscribers_known_def by (metis broker_of_sel(3))
  ultimately show ?thesis
    by (intro exI [of _ ?s']) (simp add: stopServer_def ret_def)
qed

theorem stopServer_closes_all_witness:
  "\<exists>s'. stopServer busy = (Inr (), s') \<and> connections s' = []"
proof -
  have "acceptor s = acceptor (snd (node_exec c s))" "srv_is_stoped s = srv_is_stoped (snd (node_exec c s))"
    for c and s :: "string server"
    by (subst only_tables_exec [of s c, unfolded only_tables_def], simp)+
  then have "acceptor busy \<and> \<not> srv_is_stoped busy"
    unfolding busy_def two_clients_def
    by (simp flip: \<open>\<And>s c. acceptor s = acceptor (snd (node_exec c s))\<close>
        \<open>\<And>s c. srv_is_stoped s = srv_is_stoped (snd (node_exec c s))\<close> del: node_exec.simps)
       (simp add: handle_accept_state started_eq Server_def ret_def)
  with stopServer_closes_all [OF busy_run(1)] show ?thesis by blast
qed

subsection \<open>Where the server does something else than it says\<close>

text \<open>\<open>Server::unsubscribe\<close> subscribes: it makes the server a listener of the queue with an empty
  tag, which matches everything, whether or not the server was one before.\<close>

theorem server_unsubscribe_subscribes:
  assumes "server_ok eng s"
  shows "fst (Server_unsubscribe q s) = Inr () \<and>
         (\<exists>l. b_listeners (broker_of (snd (Server_unsubscribe q s))) q ServerID = Some l \<and>
              ql_settings l = mk_sub q [] \<and> (\<not> isowner l \<or> issubscribed l))"
proof -
  have "ub_exists (clients s) ServerID" using assms by (simp add: server_ok_def conns_ok_def)
  then show ?thesis
    unfolding Server_unsubscribe_def changeSubscription_refines
    by (cases "b_listeners (broker_of s) q ServerID") (auto simp: spec_change_def)
qed

theorem server_unsubscribe_subscribes_witness:
  "\<exists>l. b_listeners (broker_of (snd (Server_unsubscribe ''q'' busy))) ''q'' ServerID = Some l"
  using server_unsubscribe_subscribes [OF busy_run(1), of "''q''"] by blast

text \<open>The \<open>2\<^sup>3\<^sup>1\<close>-th connection gets the server's own identifier. When it breaks, the server is
  erased from the users and can no longer create queues.\<close>

theorem server_identifier_collides:
  assumes "server_ok eng s" and "next_id s = 2147483647"
    and s': "s' = snd (connection_close ServerID (snd (handle_accept Accepted s)))"
  shows "\<not> ub_exists (clients s') ServerID \<and>
         Server_createQueue qs s' = (Inl (Throw (ClientNotExists ServerID)), s')"
proof -
  let ?s1 = "snd (handle_accept Accepted s)"
  have "ServerID \<notin> conn_id ` set (connections s)"
    using assms(1) connected_not_server [of "connections s" "next_id s" "clients s" ServerID]
    by (auto simp: server_ok_def)
  then have none: "find (\<lambda>c. conn_id c = ServerID) (connections s) = None" unfolding find_None_ball by force
  have conns: "connections ?s1 = connections s @ [connection_start ServerID]"
    "ub_exists (clients ?s1) ServerID"
    by (simp_all add: handle_accept_state assms(2) ServerID_def)
  have "find (\<lambda>c. conn_id c = ServerID) (connections ?s1) = Some (connection_start ServerID)"
    using none by (simp add: conns connection_start_def find_append)
  then have found: "find_connection ServerID ?s1 = Some (connection_start ServerID)"
    by (simp add: find_connection_def)
  obtain ub where ub: "ub_erase ServerID (clients ?s1) = Inr ub" using users.remove_member conns(2) by blast
  let ?s2 = "?s1\<lparr>connections := set_io ServerID None (connections ?s1)\<rparr>"
  have "find_connection ServerID ?s2 \<noteq> None"
    by (auto simp: find_connection_None conns connection_start_def simp del: not_None_eq)
  moreover have "onDisconnect ServerID ?s2 = (Inr (), snd (eraseClient ServerID (?s2\<lparr>clients := ub\<rparr>)))"
    using ub prod.collapse [of "eraseClient ServerID (?s2\<lparr>clients := ub\<rparr>)"] by (simp add: onDisconnect_def)
  ultimately have "clients s' = ub"
    unfolding s' using found by (auto simp: connection_close_def connection_start_def erase_client_description_def bind_def modify_def)
  with users.remove_iff [OF ub] show ?thesis
    by (simp add: Server_createQueue_def createQueue_def throw_def)
qed

theorem server_identifier_collides_witness:
  "Server_createQueue \<lparr>qs_name = ''q''\<rparr> (snd (connection_close ServerID (snd (handle_accept Accepted
     (started\<lparr>next_id := 2147483647\<rparr>))))) =
   (Inl (Throw (ClientNotExists ServerID)), snd (connection_close ServerID (snd (handle_accept Accepted
     ((started :: string server)\<lparr>next_id := 2147483647\<rparr>)))))"
proof -
  have "server_ok literal_engine (started\<lparr>next_id := 2147483647\<rparr>)"
    using started_ok(1) [of literal_engine]
    by (simp add: server_ok_def node_ok_def sorted_tables_def broker_of_def cache_ok_def queueIsExists_def
        conns_ok_def started_ok(3))
  from server_identifier_collides [OF this _ refl, of "\<lparr>qs_name = ''q''\<rparr>"] show ?thesis by simp
qed

end
