(* ===== verification/Server_Traffic.thy ===== *)
theory Server_Traffic
  imports Server_Delivery
begin

text \<open>
  Everything a server can put on the wire while it handles a message, also when the message is
  malformed or its handling fails: \<open>PUBLISH\<close> frames for subscribers, and one reply to the sender,
  which is an \<open>OK\<close> with the identifier of the request and is sent only if the request succeeded.
\<close>

definition silent_consume :: "('re, 'a) server_scheme consume \<Rightarrow> bool" where
  "silent_consume consume \<longleftrightarrow> (\<forall>c p d i s. outbox (snd (consume c p d i s)) = outbox s)"

text \<open>A buffer that its receiver gets as one message of the given kind.\<close>

definition of_kind :: "MessageKinds \<Rightarrow> byte list \<Rightarrow> bool" where
  "of_kind k buf \<longleftrightarrow> wire_frame buf \<and> header_kind (framed buf) = Inr (kind_code k)"

lemma of_kind_inject: "of_kind k buf \<Longrightarrow> of_kind k' buf \<Longrightarrow> k = k'"
  by (auto simp: of_kind_def)

text \<open>A message that carries the given parameters and data.\<close>

definition carries :: "PublishParams \<Rightarrow> byte list \<Rightarrow> Id \<times> byte list \<Rightarrow> bool" where
  "carries p d e \<longleftrightarrow> of_kind PUBLISH (snd e) \<and> (\<exists>m. Publish_read (framed (snd e)) = Inr (mk_Publish p d m))"

lemma sendData_out:
  assumes "packed nd"
  shows "outbox (snd (sendData i nd s)) = outbox s \<or>
    fst (sendData i nd s) = Inr () \<and> outbox (snd (sendData i nd s)) = outbox s @ [(i, wire_bytes nd)]"
proof (cases "Option.bind (find_connection i s) conn_io")
  case None
  then show ?thesis by (simp add: sendData_def throw_def)
next
  case (Some io)
  have buf: "fst (io_send nd io) = Inr (Some b) \<Longrightarrow> b = wire_bytes nd" for b
    using packed_buffer [OF assms]
    by (auto simp: io_send_def bind_def lift_def modify_def ret_def split: option.splits bool.splits if_splits)
  obtain r io' where r: "io_send nd io = (r, io')" by fastforce
  show ?thesis
  proof (cases r)
    case (Inl e)
    with Some r show ?thesis by (simp add: sendData_def throw_def)
  next
    case (Inr ob)
    with Some r buf show ?thesis by (cases ob) (simp_all add: sendData_def ret_def)
  qed
qed

lemma emits_sendTo:
  assumes "packed nd" and "ok (i, wire_bytes nd)"
  shows "emits outbox ok (sendTo i nd)"
proof (rule emits_one)
  fix s
  show "outbox (snd (sendTo i nd s)) = outbox s \<or> (\<exists>e. ok e \<and> outbox (snd (sendTo i nd s)) = outbox s @ [e])"
    using sendData_out [OF assms(1), of i s] assms(2)
    by (auto simp: sendTo_def throw_def split: option.split)
qed

lemma of_kind_Publish:
  assumes "Publish_toNetworkMessage pb = Inr nd"
  shows "of_kind PUBLISH (wire_bytes nd)"
  using packed_wire [OF packed_Publish [OF assms]] Publish_sent [OF assms] by (simp add: of_kind_def)

lemma carries_Publish:
  assumes "Publish_toNetworkMessage (mk_Publish p d m) = Inr nd"
  shows "carries p d (i, wire_bytes nd)"
  using of_kind_Publish [OF assms] packed_wire [OF packed_Publish [OF assms]] Publish_sent [OF assms] by (auto simp: carries_def)

lemma emits_checkTag: "emits outbox ok (checkTag eng p t)" for ok :: "Id \<times> byte list \<Rightarrow> bool"
proof (rule emits_silent)
  fix s :: "('a, 'b) server_scheme"
  show "outbox (snd (checkTag eng p t s)) = outbox s" using checkTag_frame [of eng p t s] by auto
qed

lemma emits_callConsumer:
  assumes "silent_consume consume"
  shows "emits outbox ok (callConsumer eng consume p d i)"
proof -
  have consume: "emits outbox ok (consume h p d i)" for h
    using assms by (intro emits_silent) (simp add: silent_consume_def)
  have at: "emits outbox ok (eventHandler_at v)" for v by (intro emits_silent) (simp add: eventHandler_at_def)
  have loop: "emits outbox ok (for_each ids (\<lambda>v. bind (eventHandler_at v) (\<lambda>es.
      bind (checkTag eng (snd es) (pub_tag p)) (\<lambda>b.
      if b then (case fst es of None \<Rightarrow> throw (Undef NullDereference) | Some h \<Rightarrow> consume h p d i) else ret ()))))" for ids
    using consume by (intro emits_for_each emits_bind at emits_checkTag) (auto split: option.split)
  show ?thesis unfolding emits_def callConsumer_def
    using emitsD [OF loop] by (auto simp: ret_def split: option.split)
qed

lemma emits_onSendToClient:
  assumes "silent_consume consume"
  shows "emits outbox (carries p d) (onSendToClient eng consume p d i)"
proof (cases "i = ServerID")
  case True
  then show ?thesis using emits_callConsumer [OF assms] by (simp add: onSendToClient_def)
next
  case False
  have send: "emits outbox (carries p d) (bind (lift (Publish_toNetworkMessage (mk_Publish p d m))) (sendTo i))" for m
  proof (cases "Publish_toNetworkMessage (mk_Publish p d m)")
    case (Inr nd)
    then show ?thesis using emits_sendTo [OF packed_Publish [OF Inr], where ok = "carries p d"] carries_Publish [OF Inr]
      by simp
  qed simp
  have "emits outbox (carries p d) (bind (modify (\<lambda>s. s\<lparr>srv_nextMessageId := srv_nextMessageId s + 1\<rparr>))
      (\<lambda>_. bind (lift (Publish_toNetworkMessage (mk_Publish p d m))) (sendTo i)))" for m
    by (rule emits_bind) (auto intro: emits_silent send simp: modify_def)
  from emits_with [where f = "\<lambda>t. bind (modify (\<lambda>s. s\<lparr>srv_nextMessageId := srv_nextMessageId s + 1\<rparr>))
      (\<lambda>_. bind (lift (Publish_toNetworkMessage (mk_Publish p d (srv_nextMessageId t)))) (sendTo i))", OF this]
  show ?thesis using False by (simp add: onSendToClient_def Let_def)
qed

lemma emits_publish:
  assumes "silent_consume consume"
  shows "emits outbox (carries p d) (publish eng (onSendToClient eng consume) p d i)"
proof -
  have "emits outbox (carries p d) (publish_to eng (onSendToClient eng consume) p d kv)" for kv
    unfolding publish_to_def by (auto intro!: emits_bind emits_checkTag emits_onSendToClient [OF assms])
  then have loop: "emits outbox (carries p d) (for_each kvs (publish_to eng (onSendToClient eng consume) p d))" for kvs
    by (rule emits_for_each)
  show ?thesis unfolding emits_def
  proof
    fix s :: "('a, 'b) server_scheme"
    let ?t = "s\<lparr>subscriptions := omap_index [] (pub_queueName p) (subscriptions s)\<rparr>"
    from emitsD [OF loop [of "get_or [] (subscriptions s) (pub_queueName p)"], of ?t]
    show "\<exists>entries. outbox (snd (publish eng (onSendToClient eng consume) p d i s)) = outbox s @ entries \<and>
        list_all (carries p d) entries"
      by (cases "queueIsExists s (pub_queueName p)") (simp_all add: publish_def ret_def)
  qed
qed

lemma emits_node: "emits outbox ok (node_exec c)" for ok :: "Id \<times> byte list \<Rightarrow> bool"
  using only_tables_server(4) [OF only_tables_exec] by (intro emits_silent) blast

section \<open>Replies\<close>

text \<open>What may be sent while the message \<open>nd\<close> of the client \<open>i\<close> is handled with result \<open>r\<close>: the same message for
  subscribers, if it is one, and, on success, the reply.\<close>

definition genuine :: "network_message \<Rightarrow> Id \<times> byte list \<Rightarrow> bool" where
  "genuine nd e \<longleftrightarrow> header_kind nd = Inr (kind_code PUBLISH) \<and>
     (\<exists>q. Publish_read nd = Inr q \<and> carries (toPublishParams q) (p_data q) e)"

lemma genuine_kind: "genuine nd e \<Longrightarrow> of_kind PUBLISH (snd e)"
  by (auto simp: genuine_def carries_def)

definition may_send :: "network_message \<Rightarrow> (byte list \<Rightarrow> bool) \<Rightarrow> Id \<Rightarrow> error + unit \<Rightarrow> Id \<times> byte list \<Rightarrow> bool" where
  "may_send nd reply i r e \<longleftrightarrow> genuine nd e \<or> r = Inr () \<and> fst e = i \<and> reply (snd e)"

lemma sends_reply:
  assumes "emits outbox (genuine nd0) act" and "packed nd" and "reply (wire_bytes nd)"
    and "bind act (\<lambda>_. sendData i nd) s = (r, s')"
  shows "\<exists>entries. outbox s' = outbox s @ entries \<and> list_all (may_send nd0 reply i r) entries"
proof -
  obtain r1 s1 where act: "act s = (r1, s1)" by fastforce
  obtain es where es: "outbox s1 = outbox s @ es" "list_all (genuine nd0) es"
    using emitsD [OF assms(1), of s] act by auto
  then have may: "list_all (may_send nd0 reply i r) es" by (auto simp: may_send_def list_all_iff)
  show ?thesis
  proof (cases r1)
    case (Inl e)
    with act assms(4) es may show ?thesis by (intro exI [of _ es]) (simp add: bind_def)
  next
    case (Inr a)
    with act assms(4) have run: "sendData i nd s1 = (r, s')" by (simp add: bind_def)
    from sendData_out [OF assms(2), of i s1] run consider "outbox s' = outbox s1"
      | "r = Inr ()" "outbox s' = outbox s1 @ [(i, wire_bytes nd)]" by auto
    then show ?thesis
    proof cases
      case 1
      with es may show ?thesis by auto
    next
      case 2
      with es may assms(3) show ?thesis
        by (intro exI [of _ "es @ [(i, wire_bytes nd)]"]) (simp add: may_send_def)
    qed
  qed
qed

definition is_ok :: "u64 \<Rightarrow> byte list \<Rightarrow> bool" where
  "is_ok m buf \<longleftrightarrow> of_kind OK buf \<and> Ok_read (framed buf) = Inr \<lparr>ok_id = m\<rparr>"

lemma sends_ok:
  assumes "emits outbox (genuine nd0) act" and "bind act (\<lambda>_. sendOk i m) s = (r, s')"
  shows "\<exists>entries. outbox s' = outbox s @ entries \<and> list_all (may_send nd0 (is_ok m) i r) entries"
proof -
  let ?nd = "framed (frame (kind_code OK) [u64V m])"
  have nd: "Ok_toNetworkMessage \<lparr>ok_id = m\<rparr> = Inr ?nd" using Ok_packs [of "\<lparr>ok_id = m\<rparr>"] by simp
  have "is_ok m (wire_bytes ?nd)"
    using packed_wire [OF packed_Ok [OF nd]] Ok_sent [OF nd] by (simp add: is_ok_def of_kind_def)
  moreover have "bind act (\<lambda>_. sendData i ?nd) s = (r, s')" using assms(2) by (simp add: sendOk_def nd)
  ultimately show ?thesis by (rule sends_reply [OF assms(1) packed_Ok [OF nd]])
qed

text \<open>The identifier a message asks to be confirmed with.\<close>

definition asks_for :: "network_message \<Rightarrow> u64 \<Rightarrow> bool" where
  "asks_for nd m \<longleftrightarrow>
     (\<exists>kind. header_kind nd = Inr kind \<and>
        kind \<in> kind_code ` {CREATE_QUEUE, SUBSCRIBE, UNSUBSCRIBE, PUBLISH} \<and> request_id nd kind = Inr m)"

definition confirms :: "byte list \<Rightarrow> u64 \<Rightarrow> bool" where
  "confirms buf m \<longleftrightarrow> header_kind (framed buf) = Inr (kind_code OK) \<and> Ok_read (framed buf) = Inr \<lparr>ok_id = m\<rparr>"

text \<open>The messages a client expects, with a body it can read.\<close>

definition reply_type :: "network_message \<Rightarrow> bool" where
  "reply_type nd \<longleftrightarrow>
     header_kind nd = Inr (kind_code PUBLISH) \<and> (\<exists>q. Publish_read nd = Inr q) \<or>
     header_kind nd = Inr (kind_code OK) \<and> (\<exists>q. Ok_read nd = Inr q) \<or>
     header_kind nd = Inr (kind_code LOGIN_CONFIRM) \<and> (\<exists>q. LoginConfirm_read nd = Inr q)"

lemma reply_type_carries: "carries p d e \<Longrightarrow> reply_type (framed (snd e))"
  by (auto simp: carries_def of_kind_def reply_type_def)

definition traffic :: "network_message \<Rightarrow> Id \<Rightarrow> error + unit \<Rightarrow> ('re, 'a) server_scheme \<Rightarrow> ('re, 'a) server_scheme \<Rightarrow> bool" where
  "traffic nd i r s s' \<longleftrightarrow>
     (\<exists>entries. outbox s' = outbox s @ entries \<and> list_all (\<lambda>e. wire_frame (snd e) \<and> reply_type (framed (snd e))) entries \<and>
       (\<forall>j buf m. (j, buf) \<in> set entries \<longrightarrow> confirms buf m \<longrightarrow> r = Inr () \<and> j = i \<and> asks_for nd m) \<and>
       (\<forall>e \<in> set entries. header_kind (framed (snd e)) = Inr (kind_code PUBLISH) \<longrightarrow> genuine nd e))"

lemma traffic_none: "outbox s' = outbox s \<Longrightarrow> traffic nd i r s s'"
  by (simp add: traffic_def)

lemma trafficI:
  assumes "outbox s' = outbox s @ es" and may: "list_all (may_send nd reply i r) es"
    and reply: "\<And>buf. reply buf \<Longrightarrow> wire_frame buf \<and> reply_type (framed buf)" "\<And>buf m. reply buf \<Longrightarrow> confirms buf m \<Longrightarrow> asks_for nd m"
      "\<And>buf. reply buf \<Longrightarrow> header_kind (framed buf) \<noteq> Inr (kind_code PUBLISH)"
  shows "traffic nd i r s s'"
proof -
  have typed: "genuine nd e \<Longrightarrow> reply_type (framed (snd e))" for e using reply_type_carries unfolding genuine_def by blast
  have "wire_frame (snd e) \<and> reply_type (framed (snd e))"
    "header_kind (framed (snd e)) = Inr (kind_code PUBLISH) \<Longrightarrow> genuine nd e" if "e \<in> set es" for e
    using may that reply genuine_kind [of nd e] typed [of e] by (auto simp: list_all_iff may_send_def of_kind_def)
  moreover have "r = Inr () \<and> j = i \<and> asks_for nd m" if "(j, buf) \<in> set es" "confirms buf m" for j buf m
    using may that reply genuine_kind [of nd "(j, buf)"] by (auto simp: list_all_iff may_send_def of_kind_def confirms_def)
  ultimately show ?thesis using assms(1) unfolding traffic_def list_all_iff by blast
qed

lemma traffic_ok:
  assumes "emits outbox (genuine nd) act" and "bind act (\<lambda>_. sendOk i m) s = (r, s')" and "asks_for nd m"
  shows "traffic nd i r s s'"
proof -
  obtain es where es: "outbox s' = outbox s @ es" "list_all (may_send nd (is_ok m) i r) es"
    using sends_ok [OF assms(1,2)] by blast
  show ?thesis by (rule trafficI [OF es]) (use assms(3) in \<open>auto simp: is_ok_def of_kind_def confirms_def reply_type_def\<close>)
qed

lemma traffic_login:
  assumes "emits outbox (genuine nd) act" and "LoginConfirm_toNetworkMessage q = Inr lc"
    and "bind act (\<lambda>_. sendData i lc) s = (r, s')"
  shows "traffic nd i r s s'"
proof -
  have p: "packed lc"
    using assms(2) unfolding packed_def LoginConfirm_toNetworkMessage_def
    by (intro exI [of _ LOGIN_CONFIRM] exI [of _ "[u64V (lc_id q)]"] exI [of _ "[Pod 8]"]) simp
  let ?reply = "\<lambda>buf. of_kind LOGIN_CONFIRM buf \<and> LoginConfirm_read (framed buf) = Inr q"
  have "?reply (wire_bytes lc)"
    using packed_wire [OF p] LoginConfirm_sent [OF assms(2)] by (simp add: of_kind_def)
  from sends_reply [OF assms(1) p, of ?reply, OF this assms(3)] obtain es where
    es: "outbox s' = outbox s @ es" "list_all (may_send nd ?reply i r) es" by blast
  show ?thesis by (rule trafficI [OF es]) (auto simp: of_kind_def confirms_def reply_type_def)
qed

lemma asks_forI:
  "header_kind nd = Inr (kind_code k) \<Longrightarrow> k \<in> {CREATE_QUEUE, SUBSCRIBE, UNSUBSCRIBE, PUBLISH} \<Longrightarrow>
   request_id nd (kind_code k) = Inr m \<Longrightarrow> asks_for nd m"
  unfolding asks_for_def by blast

text \<open>The four requests: read, act, confirm.\<close>

lemma traffic_request:
  assumes "bind (lift rd) (\<lambda>q. bind (act q) (\<lambda>_. sendOk i (mid q))) s = (r, s')"
    and "\<And>q. rd = Inr q \<Longrightarrow> emits outbox (genuine nd) (act q)" and "\<And>q. rd = Inr q \<Longrightarrow> asks_for nd (mid q)"
  shows "traffic nd i r s s'"
proof (cases rd)
  case (Inl e)
  with assms(1) show ?thesis by (simp add: throw_def traffic_none)
next
  case (Inr q)
  with assms show ?thesis by (intro traffic_ok [of nd "act q" i "mid q"]) simp_all
qed

lemma traffic_PUBLISH:
  assumes "silent_consume consume" and "header_kind nd = Inr (kind_code PUBLISH)" and "on_PUBLISH eng consume i nd s = (r, s')"
  shows "traffic nd i r s s'"
proof (rule traffic_request [OF assms(3) [unfolded on_PUBLISH_def]])
  fix q
  assume q: "Publish_read nd = Inr q"
  show "emits outbox (genuine nd) (publish eng (onSendToClient eng consume) (toPublishParams q) (p_data q) i)"
    using q assms(2) by (intro emits_mono [OF emits_publish [OF assms(1)]]) (auto simp: genuine_def)
  show "asks_for nd (p_messageId q)" using q by (intro asks_forI [OF assms(2)]) (simp_all add: request_id_def)
qed

lemma traffic_LOGIN:
  assumes "on_LOGIN i nd s = (r, s')"
  shows "traffic nd i r s s'"
proof (cases "Login_read nd")
  case (Inl e)
  with assms show ?thesis by (simp add: on_LOGIN_def throw_def traffic_none)
next
  case (Inr q)
  obtain lc where lc: "LoginConfirm_toNetworkMessage \<lparr>lc_id = i\<rparr> = Inr lc"
    using login_confirm.packs_iff [of "\<lparr>lc_id = i\<rparr>"] by (auto simp: LoginConfirm_toNetworkMessage_def)
  have "emits outbox (genuine nd) (modify (\<lambda>s. s\<lparr>clients := ub_setLogin i (login_login q) (clients s)\<rparr>))"
    by (rule emits_silent) (simp add: modify_def)
  moreover have "bind (modify (\<lambda>s. s\<lparr>clients := ub_setLogin i (login_login q) (clients s)\<rparr>)) (\<lambda>_. sendData i lc) s = (r, s')"
    using assms Inr by (simp add: on_LOGIN_def lc)
  ultimately show ?thesis using traffic_login [OF _ lc] by blast
qed

lemma onNewMessage_traffic:
  assumes "silent_consume consume" and "onNewMessage eng consume i nd s = (r, s')"
  shows "traffic nd i r s s'"
proof -
  note node = emits_node [where ok = "genuine nd"]
  have create: "emits outbox (genuine nd) (createQueue q i)" for q using node [of "DoCreate q i"] by simp
  have change: "emits outbox (genuine nd) (changeSubscription a p i)" for a p using node [of "DoChange a p i"] by simp
  consider (error) e where "header_kind nd = Inl e"
    | (c) "header_kind nd = Inr (kind_code CREATE_QUEUE)" "on_CREATE_QUEUE i nd s = (r, s')"
    | (s) "header_kind nd = Inr (kind_code SUBSCRIBE)" "on_SUBSCRIBE i nd s = (r, s')"
    | (u) "header_kind nd = Inr (kind_code UNSUBSCRIBE)" "on_UNSUBSCRIBE i nd s = (r, s')"
    | (p) "header_kind nd = Inr (kind_code PUBLISH)" "on_PUBLISH eng consume i nd s = (r, s')"
    | (l) "on_LOGIN i nd s = (r, s')"
    | (other) "s' = s"
    using assms(2) by (cases "header_kind nd") (auto simp: onNewMessage_def throw_def split: if_splits)
  then show ?thesis
  proof cases
    case error
    with assms(2) show ?thesis by (auto simp: onNewMessage_def throw_def intro: traffic_none)
  next
    case c
    from c(2) [unfolded on_CREATE_QUEUE_def] show ?thesis
      by (rule traffic_request) (auto intro: create asks_forI [OF c(1)] simp: request_id_def)
  next
    case s
    from s(2) [unfolded on_SUBSCRIBE_def] show ?thesis
      by (rule traffic_request) (auto intro: change asks_forI [OF s(1)] simp: request_id_def)
  next
    case u
    from u(2) [unfolded on_UNSUBSCRIBE_def] show ?thesis
      by (rule traffic_request) (auto intro: change asks_forI [OF u(1)] simp: request_id_def)
  qed (use traffic_PUBLISH [OF assms(1)] traffic_LOGIN traffic_none in blast)+
qed

lemma filter_key_singleton:
  "distinct (map fst xs) \<Longrightarrow> (k, v) \<in> set xs \<Longrightarrow> filter (\<lambda>e. fst e = k) xs = [(k, v)]"
  by (induction xs) (force simp: filter_empty_conv)+

lemma sent_once:
  assumes "map sent_view sent = map sent_view old @ map (\<lambda>j. (j, Some (p, d))) ids" and "sorted_wrt (<) ids"
    and "j \<in> set ids"
  obtains buf where "filter (\<lambda>e. fst e = j) (drop (length old) sent) = [(j, buf)]" and "sent_view (j, buf) = (j, Some (p, d))"
proof -
  let ?new = "drop (length old) sent"
  have view: "map sent_view ?new = map (\<lambda>j. (j, Some (p, d))) ids"
    using arg_cong [OF assms(1), of "drop (length old)"] by (simp add: drop_map)
  have ids: "map fst ?new = ids"
    using arg_cong [OF view, of "map fst"] by (simp add: comp_def sent_view_def)
  with assms(3) obtain buf where buf: "(j, buf) \<in> set ?new" by (force simp flip: ids)
  have "sent_view (j, buf) \<in> set (map sent_view ?new)" using buf by simp
  then obtain j' where "sent_view (j, buf) = (j', Some (p, d))" unfolding view by auto
  moreover have "fst (sent_view (j, buf)) = j" by (simp add: sent_view_def)
  ultimately have "sent_view (j, buf) = (j, Some (p, d))" by simp
  moreover have "distinct (map fst ?new)" unfolding ids using assms(2) strict_sorted_iff by blast
  ultimately show thesis using that [of buf] filter_key_singleton [of ?new j buf] buf by simp
qed

end
