(* ===== verification/Message_Pool.thy ===== *)
theory Message_Pool
  imports Queries
begin

text \<open>
  \<^verbatim>\<open>libdqueue/imessage_pool.h\<close> and \<^verbatim>\<open>libdqueue/memory_message_pool.h\<close>: the messages a client has
  published and the server has not confirmed. The interface class is the locale \<open>message_pool\<close>;
  the in-memory pool is its interpretation. The pool is an \<open>unordered_map\<close>, so \<open>all()\<close> takes the
  iteration order as an argument.
\<close>

type_synonym MemoryMessagePool = "(u64, Publish) umap"

definition mp_create :: MemoryMessagePool where
  "mp_create = []"

text \<open>\<open>ENSURE\<close> is compiled out; \<open>insert\<close> does not overwrite.\<close>

definition mp_append :: "Publish \<Rightarrow> MemoryMessagePool \<Rightarrow> MemoryMessagePool" where
  "mp_append pub pool = umap_insert (p_messageId pub) pub pool"

definition mp_erase :: "u64 \<Rightarrow> MemoryMessagePool \<Rightarrow> MemoryMessagePool" where
  "mp_erase messageId pool = umap_erase messageId pool"

definition mp_all :: "((u64 \<times> Publish) list \<Rightarrow> (u64 \<times> Publish) list) \<Rightarrow> MemoryMessagePool \<Rightarrow> Publish list" where
  "mp_all it pool = map snd (it pool)"

definition mp_size :: "MemoryMessagePool \<Rightarrow> nat" where
  "mp_size pool = length pool"

text \<open>Each message under its own identifier.\<close>

definition mp_ok :: "MemoryMessagePool \<Rightarrow> bool" where
  "mp_ok pool \<longleftrightarrow> umap_ok pool \<and> (\<forall>i p. map_of pool i = Some p \<longrightarrow> p_messageId p = i)"

section \<open>The interface\<close>

text \<open>Messages published and confirmations received, in the order in which they happen, and which of
  the messages are still to be confirmed.\<close>

primrec published_ids :: "(Publish + u64) list \<Rightarrow> u64 list" where
  "published_ids [] = []"
| "published_ids (e # es) = (case e of Inl p \<Rightarrow> p_messageId p # published_ids es | Inr i \<Rightarrow> published_ids es)"

primrec unconfirmed :: "(Publish + u64) list \<Rightarrow> Publish list \<Rightarrow> Publish list" where
  "unconfirmed [] ps = ps"
| "unconfirmed (e # es) ps =
     unconfirmed es (case e of Inl p \<Rightarrow> ps @ [p] | Inr i \<Rightarrow> filter (\<lambda>p. p_messageId p \<noteq> i) ps)"

locale message_pool =
  fixes pending :: "'p \<Rightarrow> u64 \<Rightarrow> Publish option"
    and append :: "Publish \<Rightarrow> 'p \<Rightarrow> 'p"
    and erase :: "u64 \<Rightarrow> 'p \<Rightarrow> 'p"
    and every :: "'p \<Rightarrow> Publish list"
    and amount :: "'p \<Rightarrow> nat"
    and fresh :: 'p
    and valid :: "'p \<Rightarrow> bool"
  assumes pending_fresh: "pending fresh i = None"
    and pending_append: "pending (append p pool) i =
        (if i = p_messageId p \<and> pending pool i = None then Some p else pending pool i)"
    and pending_erase: "pending (erase i pool) j = (if j = i then None else pending pool j)"
    and every_pending: "valid pool \<Longrightarrow> set (every pool) = {p. pending pool (p_messageId p) = Some p}"
    and every_once: "valid pool \<Longrightarrow> distinct (map p_messageId (every pool)) \<and> length (every pool) = amount pool"
    and valid_fresh: "valid fresh"
    and valid_append: "valid pool \<Longrightarrow> valid (append p pool)"
    and valid_erase: "valid pool \<Longrightarrow> valid (erase i pool)"
begin

definition after :: "(Publish + u64) list \<Rightarrow> 'p \<Rightarrow> 'p" where
  "after es pool = fold (\<lambda>e pool. case e of Inl p \<Rightarrow> append p pool | Inr i \<Rightarrow> erase i pool) es pool"

lemma valid_after: "valid pool \<Longrightarrow> valid (after es pool)"
  unfolding after_def by (induction es arbitrary: pool) (auto simp: valid_append valid_erase split: sum.split)

lemma pending_after:
  assumes "\<And>i p. pending pool i = Some p \<longleftrightarrow> p \<in> set ps \<and> p_messageId p = i"
    and "distinct (published_ids es)" and "set (published_ids es) \<inter> p_messageId ` set ps = {}"
  shows "pending (after es pool) i = Some p \<longleftrightarrow> p \<in> set (unconfirmed es ps) \<and> p_messageId p = i"
  using assms
proof (induction es arbitrary: pool ps)
  case (Cons e es)
  show ?case
  proof (cases e)
    case (Inl q)
    with Cons.prems(3) have new: "\<forall>p \<in> set ps. p_messageId p \<noteq> p_messageId q" by (auto simp: image_iff)
    have "pending pool (p_messageId q) = None"
    proof (rule ccontr)
      assume "pending pool (p_messageId q) \<noteq> None"
      then obtain p where "pending pool (p_messageId q) = Some p" by blast
      with Cons.prems(1) have "p \<in> set ps" "p_messageId p = p_messageId q" by blast+
      with new show False by blast
    qed
    then have "pending (append q pool) i = Some p \<longleftrightarrow> p \<in> set (ps @ [q]) \<and> p_messageId p = i" for i p
      using Cons.prems(1) [of i p] new by (cases "i = p_messageId q") (auto simp: pending_append)
    from Cons.IH [OF this] Cons.prems(2,3) Inl show ?thesis by (auto simp: after_def)
  next
    case (Inr j)
    then have "pending (erase j pool) i = Some p \<longleftrightarrow> p \<in> set (filter (\<lambda>p. p_messageId p \<noteq> j) ps) \<and> p_messageId p = i" for i p
      using Cons.prems(1) by (auto simp: pending_erase)
    from Cons.IH [OF this] Cons.prems(2,3) Inr show ?thesis by (auto simp: after_def)
  qed
qed (simp add: after_def)

lemma every_after:
  "distinct (published_ids es) \<Longrightarrow> set (every (after es fresh)) = set (unconfirmed es [])"
  using pending_after [of fresh "[]" es] valid_after [OF valid_fresh, of es]
  by (auto simp: every_pending pending_fresh)

end

definition pool_run :: "(Publish + u64) list \<Rightarrow> MemoryMessagePool \<Rightarrow> MemoryMessagePool" where
  "pool_run es pool = fold (\<lambda>e pool. case e of Inl p \<Rightarrow> mp_append p pool | Inr i \<Rightarrow> mp_erase i pool) es pool"

lemma mp_ok_simps [simp]:
  "mp_ok mp_create" "mp_ok pool \<Longrightarrow> mp_ok (mp_append p pool)" "mp_ok pool \<Longrightarrow> mp_ok (mp_erase i pool)"
  by (auto simp: mp_ok_def mp_create_def mp_append_def mp_erase_def distinct_delete delete_conv' split: if_splits)

lemma mp_all_ids:
  "mp_ok pool \<Longrightarrow> map p_messageId (mp_all it pool) = map fst (it pool)"
  if "\<And>es. mset (it es) = mset es"
proof -
  assume ok: "mp_ok pool"
  have "set (it pool) = set pool" using that by (metis set_mset_mset)
  with ok have "\<forall>kv \<in> set (it pool). p_messageId (snd kv) = fst kv" by (auto simp: mp_ok_def)
  then show ?thesis by (simp add: mp_all_def)
qed

lemma memory_pool_laws:
  assumes it: "\<And>es. mset (it es) = mset es"
  shows "message_pool map_of mp_append mp_erase (mp_all it) mp_size mp_create mp_ok"
proof
  fix pool assume ok: "mp_ok pool"
  have same: "mset (it pool) = mset pool" by (rule it)
  then have set_it: "set (it pool) = set pool" by (metis set_mset_mset)
  have "(i, p) \<in> set pool \<longleftrightarrow> map_of pool i = Some p" for i p
    using ok by (simp add: mp_ok_def)
  moreover have "map_of pool i = Some p \<Longrightarrow> p_messageId p = i" for i p
    using ok by (auto simp: mp_ok_def)
  ultimately show "set (mp_all it pool) = {p. map_of pool (p_messageId p) = Some p}"
    by (force simp: mp_all_def set_it)
  have "distinct (map fst (it pool))"
    using ok same by (metis mp_ok_def mset_map mset_eq_imp_distinct_iff)
  then show "distinct (map p_messageId (mp_all it pool)) \<and> length (mp_all it pool) = mp_size pool"
    unfolding mp_all_ids [OF it ok] using size_mset [of "it pool"] size_mset [of pool] same
    by (simp add: mp_all_def mp_size_def)
qed (auto, auto simp: mp_create_def mp_append_def mp_erase_def delete_conv')

interpretation memory_pool: message_pool map_of mp_append mp_erase "mp_all id" mp_size mp_create mp_ok
  by (rule memory_pool_laws) simp

section \<open>Properties\<close>

text \<open>C29: whatever the order of publications and confirmations, the pool holds exactly the messages
  that were published and not confirmed since, each once; \<open>all()\<close> returns them in some order and
  \<open>size()\<close> is their number.\<close>

theorem pool_holds_unconfirmed:
  assumes "distinct (published_ids es)" and "\<And>xs. mset (it xs) = mset xs"
  shows "set (mp_all it (pool_run es mp_create)) = set (unconfirmed es []) \<and>
         distinct (map p_messageId (mp_all it (pool_run es mp_create))) \<and>
         mp_size (pool_run es mp_create) = length (mp_all it (pool_run es mp_create))"
proof -
  note laws = memory_pool_laws [of it, OF assms(2)]
  have run: "pool_run es mp_create = message_pool.after mp_append mp_erase es mp_create"
    by (simp add: pool_run_def message_pool.after_def [OF laws])
  show ?thesis
    using message_pool.every_after [OF laws assms(1)]
      message_pool.every_once [OF laws message_pool.valid_after [OF laws mp_ok_simps(1)], of es]
    by (simp add: run)
qed

theorem pool_holds_unconfirmed_witness:
  "set (mp_all rev (pool_run [Inl (mk_Publish (mk_pub ''q'' []) [1] 0), Inl (mk_Publish (mk_pub ''q'' []) [2] 1),
      Inr 0] mp_create)) = {mk_Publish (mk_pub ''q'' []) [2] 1}"
  using pool_holds_unconfirmed [of "[Inl (mk_Publish (mk_pub ''q'' []) [1] 0),
      Inl (mk_Publish (mk_pub ''q'' []) [2] 1), Inr 0]" rev] by (simp add: mk_Publish_def)

end
