(* ===== verification/Client.thy ===== *)
theory Client
  imports Queue_Client Message_Pool Async_IO
begin

text \<open>
  \<^verbatim>\<open>libdqueue/abstract_client.cpp\<close> and \<^verbatim>\<open>libdqueue/client.cpp\<close>. An operation takes a message
  identifier, registers a locked \<open>locker\<close> for it, sends a frame, and (if synchronous) blocks on the
  locker until the matching \<open>OK\<close> unlocks it. An operation of the model is the part before the
  blocking; it returns the locker the caller then waits for, if any. Lockers are objects on the
  heap, known by their address, because the caller and \<open>_queries\<close> share them. Published messages
  are also kept in the message pool and sent again after every (re)connection.

  Resolving, connecting and the completion of reads and writes are events; the bytes handed to
  \<open>async_write\<close> are recorded in \<open>c_outbox\<close>.
\<close>

datatype OperationType = Async | Sync

record AsyncOperationResult =
  ar_locker :: nat

record 're client = "'re iqueue" +
  c_login :: string
  auto_reconnection :: bool
  c_isConnected :: bool
  c_isStoped :: bool
  async_connection :: "async_io option"
  connecting :: nat
  c_nextMessageId :: u64
  messagePool :: MemoryMessagePool
  loginConfirmed :: bool
  c_id :: "Id option"
  c_queries :: "(u64, AsyncOperationResult) omap"
  c_lockers :: "nat \<Rightarrow> bool"
  c_next_locker :: nat
  c_outbox :: "byte list list"

definition Client :: "string \<Rightarrow> bool \<Rightarrow> 're client" where
  "Client login auto =
     \<lparr>recache = [], consumerId = (\<lambda>_. DefaultId), nextConsumersId = 0, eventHandlers = [], queue2handler = [],
      c_login = login, auto_reconnection = auto, c_isConnected = False, c_isStoped = False,
      async_connection = None, connecting = 0, c_nextMessageId = 0, messagePool = mp_create,
      loginConfirmed = False, c_id = None, c_queries = [], c_lockers = (\<lambda>_. False), c_next_locker = 0,
      c_outbox = []\<rparr>"

section \<open>\<open>Client\<close>: sending\<close>

definition Client_send :: "network_message \<Rightarrow> (('re, 'a) client_scheme, unit) proc" where
  "Client_send nd s =
     (case async_connection s of
        None \<Rightarrow> ret () s
      | Some io \<Rightarrow>
          (case io_send nd io of
             (Inl e, io') \<Rightarrow> throw e (s\<lparr>async_connection := Some io'\<rparr>)
           | (Inr None, io') \<Rightarrow> ret () (s\<lparr>async_connection := Some io'\<rparr>)
           | (Inr (Some buf), io') \<Rightarrow>
               ret () (s\<lparr>async_connection := Some io', c_outbox := c_outbox s @ [buf]\<rparr>)))"

definition publish_inner :: "Publish \<Rightarrow> (('re, 'a) client_scheme, unit) proc" where
  "publish_inner pb = bind (lift (Publish_toNetworkMessage pb)) Client_send"

definition getNextId :: "(('re, 'a) client_scheme, u64) proc" where
  "getNextId s = (Inr (c_nextMessageId s), s\<lparr>c_nextMessageId := c_nextMessageId s + 1\<rparr>)"

text \<open>A new locker, entered in \<open>_queries\<close> and locked.\<close>

definition makeNewQResult :: "u64 \<Rightarrow> (('re, 'a) client_scheme, AsyncOperationResult) proc" where
  "makeNewQResult msgId s =
     (let qr = \<lparr>ar_locker = c_next_locker s\<rparr> in
      (Inr qr, s\<lparr>c_next_locker := c_next_locker s + 1,
                 c_queries := omap_put msgId qr (c_queries s),
                 c_lockers := (c_lockers s)(ar_locker qr := True)\<rparr>))"

text \<open>The locker the caller blocks on: none for an asynchronous operation.\<close>

definition wait_for :: "OperationType \<Rightarrow> AsyncOperationResult \<Rightarrow> AsyncOperationResult option" where
  "wait_for ot qr = (if ot = Sync then Some qr else None)"

section \<open>\<open>Client\<close>: the operations\<close>

definition Client_createQueue ::
  "QueueSettings \<Rightarrow> OperationType \<Rightarrow> (('re, 'a) client_scheme, AsyncOperationResult option) proc" where
  "Client_createQueue settings ot =
     bind getNextId (\<lambda>msgId.
     bind (lift (CreateQueue_toNetworkMessage \<lparr>cq_name = qs_name settings, cq_msgId = msgId\<rparr>)) (\<lambda>nd.
     bind (makeNewQResult msgId) (\<lambda>qr.
     bind (Client_send nd) (\<lambda>_.
     ret (Some qr)))))"

definition Client_subscribe ::
  "SubscriptionParams \<Rightarrow> consumer option \<Rightarrow> OperationType \<Rightarrow>
   (('re, 'a) client_scheme, AsyncOperationResult option) proc" where
  "Client_subscribe settings h ot =
     bind (addHandler settings h) (\<lambda>_.
     bind getNextId (\<lambda>msgId.
     bind (lift (ChangeSubscribe_toNetworkMessage (mk_ChangeSubscribe settings msgId))) (\<lambda>nd.
     bind (lift (set_header_kind nd (kind_code SUBSCRIBE))) (\<lambda>nd.
     bind (makeNewQResult msgId) (\<lambda>qr.
     bind (Client_send nd) (\<lambda>_.
     ret (wait_for ot qr)))))))"

definition Client_unsubscribe ::
  "string \<Rightarrow> OperationType \<Rightarrow> (('re, 'a) client_scheme, AsyncOperationResult option) proc" where
  "Client_unsubscribe qname ot =
     bind getNextId (\<lambda>msgId.
     bind (lift (ChangeSubscribe_toNetworkMessage (mk_ChangeSubscribe (mk_sub qname []) msgId))) (\<lambda>nd.
     bind (lift (set_header_kind nd (kind_code UNSUBSCRIBE))) (\<lambda>nd.
     bind (makeNewQResult msgId) (\<lambda>qr.
     bind (Client_send nd) (\<lambda>_.
     ret (wait_for ot qr))))))"

definition Client_publish ::
  "PublishParams \<Rightarrow> byte list \<Rightarrow> OperationType \<Rightarrow> (('re, 'a) client_scheme, AsyncOperationResult option) proc" where
  "Client_publish settings data ot =
     bind getNextId (\<lambda>msgId.
     bind (modify (\<lambda>s. s\<lparr>messagePool := mp_append (mk_Publish settings data msgId) (messagePool s)\<rparr>)) (\<lambda>_.
     bind (makeNewQResult msgId) (\<lambda>qr.
     bind (publish_inner (mk_Publish settings data msgId)) (\<lambda>_.
     ret (wait_for ot qr)))))"

section \<open>\<open>Client\<close>: the callbacks\<close>

definition Client_onConnect ::
  "((u64 \<times> Publish) list \<Rightarrow> (u64 \<times> Publish) list) \<Rightarrow> (('re, 'a) client_scheme, unit) proc" where
  "Client_onConnect it =
     bind (modify (\<lambda>s. s\<lparr>loginConfirmed := False\<rparr>)) (\<lambda>_ s.
     bind (lift (Login_toNetworkMessage \<lparr>login_login = c_login s\<rparr>)) (\<lambda>nd.
     bind (Client_send nd) (\<lambda>_ s.
     for_each (mp_all it (messagePool s)) publish_inner s)) s)"

definition Client_on_PUBLISH ::
  "'re engine \<Rightarrow> ('re, 'a) client_scheme consume \<Rightarrow> network_message \<Rightarrow> (('re, 'a) client_scheme, unit) proc" where
  "Client_on_PUBLISH eng consume d =
     bind (lift (Publish_read d)) (\<lambda>cs s.
     case c_id s of
       None \<Rightarrow> throw (Undef UninitialisedRead) s
     | Some i \<Rightarrow> callConsumer eng consume (toPublishParams cs) (p_data cs) i s)"

definition Client_on_OK :: "network_message \<Rightarrow> (('re, 'a) client_scheme, unit) proc" where
  "Client_on_OK d =
     bind (lift (Ok_read d)) (\<lambda>cs s.
     case map_of (c_queries s) (ok_id cs) of
       None \<Rightarrow> throw (Throw (UnknownQuery (ok_id cs))) s
     | Some qr \<Rightarrow>
         ret () (s\<lparr>messagePool := mp_erase (ok_id cs) (messagePool s),
                   c_lockers := (c_lockers s)(ar_locker qr := False),
                   c_queries := omap_erase (ok_id cs) (c_queries s)\<rparr>))"

definition Client_on_LOGIN_CONFIRM :: "network_message \<Rightarrow> (('re, 'a) client_scheme, unit) proc" where
  "Client_on_LOGIN_CONFIRM d =
     bind (lift (LoginConfirm_read d)) (\<lambda>lc.
     modify (\<lambda>s. s\<lparr>c_id := Some (lc_id lc), loginConfirmed := True\<rparr>))"

definition Client_onNewMessage ::
  "'re engine \<Rightarrow> ('re, 'a) client_scheme consume \<Rightarrow> network_message \<Rightarrow> (('re, 'a) client_scheme, unit) proc" where
  "Client_onNewMessage eng consume d =
     bind (lift (header_kind d)) (\<lambda>kind.
     if kind = kind_code PUBLISH then Client_on_PUBLISH eng consume d
     else if kind = kind_code OK then Client_on_OK d
     else if kind = kind_code LOGIN_CONFIRM then Client_on_LOGIN_CONFIRM d
     else throw (Throw (UnknownKind kind)))"

definition Client_onNetworkError :: "(('re, 'a) client_scheme, unit) proc" where
  "Client_onNetworkError = modify (\<lambda>s. s\<lparr>loginConfirmed := False\<rparr>)"

section \<open>\<open>AbstractClient\<close>: connecting\<close>

text \<open>
  What the environment of a connection attempt says: the protocols of the addresses the host
  resolves to (none if resolving throws), and whether an outstanding read still holds the socket of
  the previous connection. Otherwise replacing \<open>_socket\<close> destroys that socket, and the previous
  connection, which has a weak reference only, can no longer use it.
\<close>

datatype protocol = V4 | V6

record attempt =
  at_endpoints :: "protocol list option"
  at_held :: bool

definition async_connect :: "attempt \<Rightarrow> (('re, 'a) client_scheme, unit) proc" where
  "async_connect at =
     (case at_endpoints at of
        None \<Rightarrow> throw (Throw ResolveError)
      | Some eps \<Rightarrow>
          if dropWhile (\<lambda>p. p \<noteq> V4) eps = [] then throw (Throw HostNotFound)
          else modify (\<lambda>s. s\<lparr>connecting := connecting s + 1,
                 async_connection :=
                   map_option (\<lambda>io. io\<lparr>sock_alive := sock_alive io \<and> at_held at\<rparr>) (async_connection s)\<rparr>))"

definition reconnectOnError :: "attempt \<Rightarrow> (('re, 'a) client_scheme, unit) proc" where
  "reconnectOnError at =
     bind (modify (\<lambda>s. s\<lparr>c_isConnected := False\<rparr>)) (\<lambda>_.
     bind Client_onNetworkError (\<lambda>_ s.
     if \<not> c_isStoped s \<and> auto_reconnection s then async_connect at s else ret () s))"

text \<open>The completion handler of the connection attempt.\<close>

definition on_connected ::
  "((u64 \<times> Publish) list \<Rightarrow> (u64 \<times> Publish) list) \<Rightarrow> bool \<Rightarrow> attempt \<Rightarrow> (('re, 'a) client_scheme, unit) proc" where
  "on_connected it ec at =
     bind (modify (\<lambda>s. s\<lparr>connecting := connecting s - 1\<rparr>)) (\<lambda>_.
     if ec then reconnectOnError at
     else bind (modify (\<lambda>s. s\<lparr>async_connection := Some (io_start AsyncIO), c_isConnected := True\<rparr>)) (\<lambda>_.
          Client_onConnect it))"

definition disconnect :: "(('re, 'a) client_scheme, unit) proc" where
  "disconnect s =
     (if c_isStoped s then ret () s
      else case async_connection s of
             None \<Rightarrow> throw (Undef NullDereference) (s\<lparr>c_isStoped := True\<rparr>)
           | Some io \<Rightarrow> ret () (s\<lparr>c_isStoped := True, async_connection := Some (full_stop io)\<rparr>))"

definition Client_is_connected :: "('re, 'a) client_scheme \<Rightarrow> bool" where
  "Client_is_connected s = loginConfirmed s"

definition messagesInPool :: "('re, 'a) client_scheme \<Rightarrow> nat" where
  "messagesInPool s = mp_size (messagePool s)"

definition Client_getId :: "(('re, 'a) client_scheme, Id) proc" where
  "Client_getId s =
     (case c_id s of None \<Rightarrow> throw (Undef UninitialisedRead) s | Some i \<Rightarrow> ret i s)"

text \<open>\<open>connect\<close> and \<open>waitAll\<close> test a condition and sleep until it holds. The list holds the states their
  successive tests find; the result is the number of times they slept.\<close>

fun sleep_until :: "('s \<Rightarrow> bool) \<Rightarrow> nat \<Rightarrow> 's list \<Rightarrow> nat option" where
  "sleep_until cond sleeps [] = None"
| "sleep_until cond sleeps (s # ss) = (if cond s then Some sleeps else sleep_until cond (sleeps + 1) ss)"

definition all_confirmed :: "('re, 'a) client_scheme \<Rightarrow> bool" where
  "all_confirmed s \<longleftrightarrow> messagesInPool s = 0 \<and> c_queries s = []"

definition Client_waitAll :: "('re, 'a) client_scheme list \<Rightarrow> nat option" where
  "Client_waitAll ss = sleep_until all_confirmed 0 ss"

text \<open>\<open>connect\<close>: \<open>env\<close> gives the states after the connection attempt, in which the tests are made.\<close>

definition Client_connect ::
  "attempt \<Rightarrow> (('re, 'a) client_scheme \<Rightarrow> ('re, 'a) client_scheme list) \<Rightarrow> ('re, 'a) client_scheme \<Rightarrow> error + nat option" where
  "Client_connect at env s =
     (case async_connect at s of
        (Inl e, _) \<Rightarrow> Inl e
      | (Inr _, s') \<Rightarrow> Inr (sleep_until Client_is_connected 0 (env s')))"

lemma sleep_until_cong:
  "(\<And>s. s \<in> set ss \<Longrightarrow> cond s = cond' s) \<Longrightarrow> sleep_until cond n ss = sleep_until cond' n ss"
  by (induction ss arbitrary: n) auto

text \<open>What can happen to a client.\<close>

datatype client_event =
    Do_createQueue QueueSettings OperationType
  | Do_subscribe SubscriptionParams "consumer option" OperationType
  | Do_unsubscribe string OperationType
  | Do_publish PublishParams "byte list" OperationType
  | Receive network_message
  | Connect_attempt attempt
  | Connected bool attempt
  | Failed attempt
  | Do_disconnect

fun client_exec ::
  "'re engine \<Rightarrow> ('re, 'a) client_scheme consume \<Rightarrow> ((u64 \<times> Publish) list \<Rightarrow> (u64 \<times> Publish) list) \<Rightarrow>
   client_event \<Rightarrow> (('re, 'a) client_scheme, AsyncOperationResult option) proc" where
  "client_exec eng consume it (Do_createQueue qs ot) = Client_createQueue qs ot"
| "client_exec eng consume it (Do_subscribe p h ot) = Client_subscribe p h ot"
| "client_exec eng consume it (Do_unsubscribe q ot) = Client_unsubscribe q ot"
| "client_exec eng consume it (Do_publish p d ot) = Client_publish p d ot"
| "client_exec eng consume it (Receive d) = bind (Client_onNewMessage eng consume d) (\<lambda>_. ret None)"
| "client_exec eng consume it (Connect_attempt at) = bind (async_connect at) (\<lambda>_. ret None)"
| "client_exec eng consume it (Connected ec at) = bind (on_connected it ec at) (\<lambda>_. ret None)"
| "client_exec eng consume it (Failed at) = bind (reconnectOnError at) (\<lambda>_. ret None)"
| "client_exec eng consume it Do_disconnect = bind disconnect (\<lambda>_. ret None)"

section \<open>Invariant\<close>

text \<open>
  The bookkeeping of a client, apart from its connection: every pending query has its own locked
  locker and an identifier already given out, nothing else is locked, and every message in the
  pool is a pending query.
\<close>

record ledger =
  l_pool :: MemoryMessagePool
  l_queries :: "(u64, AsyncOperationResult) omap"
  l_lockers :: "nat \<Rightarrow> bool"
  l_next_locker :: nat
  l_next_id :: u64

definition ledger_of :: "('re, 'a) client_scheme \<Rightarrow> ledger" where
  "ledger_of s = \<lparr>l_pool = messagePool s, l_queries = c_queries s, l_lockers = c_lockers s,
     l_next_locker = c_next_locker s, l_next_id = c_nextMessageId s\<rparr>"

lemma ledger_of_sel [simp]:
  "l_pool (ledger_of s) = messagePool s" "l_queries (ledger_of s) = c_queries s"
  "l_lockers (ledger_of s) = c_lockers s" "l_next_locker (ledger_of s) = c_next_locker s"
  "l_next_id (ledger_of s) = c_nextMessageId s"
  by (simp_all add: ledger_of_def)

definition ledger_ok :: "ledger \<Rightarrow> bool" where
  "ledger_ok l \<longleftrightarrow>
     mp_ok (l_pool l) \<and> omap_ok (l_queries l) \<and>
     (\<forall>m qr. map_of (l_queries l) m = Some qr \<longrightarrow>
        m < l_next_id l \<and> ar_locker qr < l_next_locker l \<and> l_lockers l (ar_locker qr)) \<and>
     (\<forall>m qr m' qr'. map_of (l_queries l) m = Some qr \<longrightarrow> map_of (l_queries l) m' = Some qr' \<longrightarrow>
        ar_locker qr = ar_locker qr' \<longrightarrow> m = m') \<and>
     (\<forall>a. l_lockers l a \<longrightarrow> (\<exists>m qr. map_of (l_queries l) m = Some qr \<and> ar_locker qr = a)) \<and>
     (\<forall>m. map_of (l_pool l) m \<noteq> None \<longrightarrow> map_of (l_queries l) m \<noteq> None)"

text \<open>What the operations do to it: an identifier is used up; an operation is opened under it, with
  or without a message for the pool; an operation is confirmed.\<close>

definition bump :: "ledger \<Rightarrow> ledger" where
  "bump l = l\<lparr>l_next_id := l_next_id l + 1\<rparr>"

definition opened :: "Publish option \<Rightarrow> ledger \<Rightarrow> ledger" where
  "opened pb l = (bump l)
     \<lparr>l_pool := (case pb of None \<Rightarrow> l_pool l | Some p \<Rightarrow> mp_append p (l_pool l)),
      l_queries := omap_put (l_next_id l) \<lparr>ar_locker = l_next_locker l\<rparr> (l_queries l),
      l_lockers := (l_lockers l)(l_next_locker l := True), l_next_locker := l_next_locker l + 1\<rparr>"

definition confirmed :: "u64 \<Rightarrow> AsyncOperationResult \<Rightarrow> ledger \<Rightarrow> ledger" where
  "confirmed m qr l = l
     \<lparr>l_pool := mp_erase m (l_pool l), l_queries := omap_erase m (l_queries l),
      l_lockers := (l_lockers l)(ar_locker qr := False)\<rparr>"

lemma ledger_okD:
  assumes "ledger_ok l"
  shows "mp_ok (l_pool l)" and "omap_ok (l_queries l)"
    and "map_of (l_queries l) m = Some qr \<Longrightarrow> m < l_next_id l"
    and "map_of (l_queries l) m = Some qr \<Longrightarrow> ar_locker qr < l_next_locker l"
    and "map_of (l_queries l) m = Some qr \<Longrightarrow> l_lockers l (ar_locker qr)"
    and "map_of (l_queries l) m = Some qr \<Longrightarrow> map_of (l_queries l) m' = Some qr' \<Longrightarrow>
      ar_locker qr = ar_locker qr' \<Longrightarrow> m = m'"
    and "l_lockers l a \<Longrightarrow> \<exists>m qr. map_of (l_queries l) m = Some qr \<and> ar_locker qr = a"
    and "map_of (l_pool l) m = Some p \<Longrightarrow> \<exists>qr. map_of (l_queries l) m = Some qr"
  using assms unfolding ledger_ok_def by blast+

lemma ledger_okI:
  assumes "mp_ok (l_pool l)" and "omap_ok (l_queries l)"
    and "\<And>m qr. map_of (l_queries l) m = Some qr \<Longrightarrow>
      m < l_next_id l \<and> ar_locker qr < l_next_locker l \<and> l_lockers l (ar_locker qr)"
    and "\<And>m qr m' qr'. map_of (l_queries l) m = Some qr \<Longrightarrow> map_of (l_queries l) m' = Some qr' \<Longrightarrow>
      ar_locker qr = ar_locker qr' \<Longrightarrow> m = m'"
    and "\<And>a. l_lockers l a \<Longrightarrow> \<exists>m qr. map_of (l_queries l) m = Some qr \<and> ar_locker qr = a"
    and "\<And>m p. map_of (l_pool l) m = Some p \<Longrightarrow> \<exists>qr. map_of (l_queries l) m = Some qr"
  shows "ledger_ok l"
  unfolding ledger_ok_def using assms by blast

lemma ledger_fresh:
  assumes "ledger_ok l"
  shows "map_of (l_queries l) (l_next_id l) = None" and "\<not> l_lockers l (l_next_locker l)"
    and "map_of (l_pool l) (l_next_id l) = None"
proof -
  show q: "map_of (l_queries l) (l_next_id l) = None"
    using ledger_okD(3) [OF assms, of "l_next_id l"] by (cases "map_of (l_queries l) (l_next_id l)") auto
  show "\<not> l_lockers l (l_next_locker l)"
    using ledger_okD(7) [OF assms, of "l_next_locker l"] ledger_okD(4) [OF assms] by fastforce
  show "map_of (l_pool l) (l_next_id l) = None"
    using ledger_okD(8) [OF assms, of "l_next_id l"] q by (cases "map_of (l_pool l) (l_next_id l)") auto
qed

lemma ledger_ok_bump:
  assumes "ledger_ok l" and "l_next_id l < - 1"
  shows "ledger_ok (bump l)"
proof -
  note less = word_less_plus1 [OF assms(2)]
  show ?thesis
    by (rule ledger_okI)
       (use ledger_okD [OF assms(1)] less in \<open>auto simp: bump_def intro: order.strict_trans\<close>)
qed

lemma ledger_ok_opened:
  assumes "ledger_ok l" and "l_next_id l < - 1" and "\<And>p. pb = Some p \<Longrightarrow> p_messageId p = l_next_id l"
  shows "ledger_ok (opened pb l)"
proof -
  note ok = ledger_okD [OF assms(1)] and fresh = ledger_fresh [OF assms(1)]
  note less = word_less_plus1 [OF assms(2)]
  let ?qr = "\<lparr>ar_locker = l_next_locker l\<rparr>"
  have q: "map_of (l_queries (opened pb l)) m = (if m = l_next_id l then Some ?qr else map_of (l_queries l) m)" for m
    by (simp add: opened_def)
  have new_locker: "map_of (l_queries l) m = Some qr \<Longrightarrow> ar_locker qr \<noteq> l_next_locker l" for m qr
    using ok(4) [of m qr] by auto
  show ?thesis
  proof (rule ledger_okI)
    show "mp_ok (l_pool (opened pb l))" "omap_ok (l_queries (opened pb l))"
      using ok(1,2) by (auto simp: opened_def split: option.split)
    show "m < l_next_id (opened pb l) \<and> ar_locker qr < l_next_locker (opened pb l) \<and> l_lockers (opened pb l) (ar_locker qr)"
      if "map_of (l_queries (opened pb l)) m = Some qr" for m qr
      using that less ok(3-5) unfolding q
      by (auto simp: opened_def bump_def less_Suc_eq intro: order.strict_trans split: if_splits)
    show "m = m'" if "map_of (l_queries (opened pb l)) m = Some qr" "map_of (l_queries (opened pb l)) m' = Some qr'"
      "ar_locker qr = ar_locker qr'" for m m' qr qr'
      using that ok(6) [of m qr m' qr'] new_locker [of m qr] new_locker [of m' qr'] unfolding q
      by (auto split: if_splits)
    show "\<exists>m qr. map_of (l_queries (opened pb l)) m = Some qr \<and> ar_locker qr = a" if "l_lockers (opened pb l) a" for a
    proof (cases "a = l_next_locker l")
      case True
      then show ?thesis by (intro exI [of _ "l_next_id l"] exI [of _ ?qr]) (simp add: q)
    next
      case False
      with that have "l_lockers l a" by (simp add: opened_def)
      with ok(7) fresh(1) show ?thesis unfolding q by (metis option.distinct(1))
    qed
    show "\<exists>qr. map_of (l_queries (opened pb l)) m = Some qr" if "map_of (l_pool (opened pb l)) m = Some p" for m p
      using that ok(8) assms(3) unfolding q
      by (auto simp: opened_def mp_append_def split: option.splits if_splits)
  qed
qed

lemma ledger_ok_confirmed:
  assumes "ledger_ok l" and "map_of (l_queries l) m = Some qr"
  shows "ledger_ok (confirmed m qr l)"
proof -
  note ok = ledger_okD [OF assms(1)]
  have q: "map_of (l_queries (confirmed m qr l)) m' = (if m' = m then None else map_of (l_queries l) m')" for m'
    by (simp add: confirmed_def delete_conv')
  have other: "map_of (l_queries l) m' = Some qr' \<Longrightarrow> m' \<noteq> m \<Longrightarrow> ar_locker qr' \<noteq> ar_locker qr" for m' qr'
    using ok(6) assms(2) by blast
  show ?thesis
  proof (rule ledger_okI)
    show "mp_ok (l_pool (confirmed m qr l))" "omap_ok (l_queries (confirmed m qr l))"
      using ok(1,2) by (simp_all add: confirmed_def)
    show "m' < l_next_id (confirmed m qr l) \<and> ar_locker qr' < l_next_locker (confirmed m qr l) \<and>
        l_lockers (confirmed m qr l) (ar_locker qr')"
      if "map_of (l_queries (confirmed m qr l)) m' = Some qr'" for m' qr'
      using that ok(3-5) other unfolding q by (auto simp: confirmed_def split: if_splits)
    show "m1 = m2" if "map_of (l_queries (confirmed m qr l)) m1 = Some q1" "map_of (l_queries (confirmed m qr l)) m2 = Some q2"
      "ar_locker q1 = ar_locker q2" for m1 m2 q1 q2
      using that ok(6) unfolding q by (auto split: if_splits)
    show "\<exists>m' qr'. map_of (l_queries (confirmed m qr l)) m' = Some qr' \<and> ar_locker qr' = a"
      if "l_lockers (confirmed m qr l) a" for a
    proof -
      from that have a: "l_lockers l a" "a \<noteq> ar_locker qr" by (auto simp: confirmed_def split: if_splits)
      from ok(7) [OF a(1)] a(2) assms(2) show ?thesis unfolding q by (metis option.inject)
    qed
    show "\<exists>qr'. map_of (l_queries (confirmed m qr l)) m' = Some qr'" if "map_of (l_pool (confirmed m qr l)) m' = Some p" for m' p
      using that ok(8) unfolding q by (auto simp: confirmed_def mp_erase_def delete_conv' split: if_splits)
  qed
qed

section \<open>What events do to the ledger\<close>

text \<open>The frame that confirms the operation with identifier \<open>m\<close>.\<close>

definition acknowledges :: "network_message \<Rightarrow> u64 \<Rightarrow> bool" where
  "acknowledges d m \<longleftrightarrow> header_kind d = Inr (kind_code OK) \<and> Ok_read d = Inr \<lparr>ok_id = m\<rparr>"

fun requests :: "client_event \<Rightarrow> bool" where
  "requests (Do_createQueue qs ot) \<longleftrightarrow> True"
| "requests (Do_subscribe p h ot) \<longleftrightarrow> True"
| "requests (Do_unsubscribe q ot) \<longleftrightarrow> True"
| "requests _ \<longleftrightarrow> False"

fun publishes :: "client_event \<Rightarrow> bool" where
  "publishes (Do_publish p d ot) \<longleftrightarrow> True"
| "publishes _ \<longleftrightarrow> False"

inductive ledger_step :: "client_event \<Rightarrow> ledger \<Rightarrow> ledger \<Rightarrow> bool" where
  same: "\<not> publishes e \<Longrightarrow> ledger_step e l l"
| used_up: "requests e \<Longrightarrow> ledger_step e l (bump l)"
| request: "requests e \<Longrightarrow> ledger_step e l (opened None l)"
| published: "ledger_step (Do_publish p d ot) l (opened (Some (mk_Publish p d (l_next_id l))) l)"
| confirmation: "acknowledges d m \<Longrightarrow> map_of (l_queries l) m = Some qr \<Longrightarrow>
    ledger_step (Receive d) l (confirmed m qr l)"

inductive_cases ledger_stepE: "ledger_step e l l'"

text \<open>The application's consumers do not call the client they are called by.\<close>

definition quiet_consume :: "('re, 'a) client_scheme consume \<Rightarrow> bool" where
  "quiet_consume consume \<longleftrightarrow> (\<forall>l c p d i. preserves (\<lambda>s. ledger_of s = l) (consume c p d i))"

lemma ledger_of_simps [simp]:
  "ledger_of (s\<lparr>async_connection := io\<rparr>) = ledger_of s"
  "ledger_of (s\<lparr>c_outbox := ob\<rparr>) = ledger_of s"
  "ledger_of (s\<lparr>loginConfirmed := b\<rparr>) = ledger_of s"
  "ledger_of (s\<lparr>c_isConnected := b\<rparr>) = ledger_of s"
  "ledger_of (s\<lparr>c_isStoped := b\<rparr>) = ledger_of s"
  "ledger_of (s\<lparr>connecting := n\<rparr>) = ledger_of s"
  "ledger_of (s\<lparr>c_id := i\<rparr>) = ledger_of s"
  "ledger_of (s\<lparr>recache := c\<rparr>) = ledger_of s"
  "ledger_of (s\<lparr>eventHandlers := h\<rparr>) = ledger_of s"
  by (simp_all add: ledger_of_def)

abbreviation keeps_ledger :: "(('re, 'a) client_scheme, 'b) proc \<Rightarrow> bool" where
  "keeps_ledger m \<equiv> \<forall>l. preserves (\<lambda>s. ledger_of s = l) m"

lemma ledger_send: "ledger_of (snd (Client_send nd s)) = ledger_of s"
  by (auto simp: Client_send_def ret_def throw_def split: option.split prod.split sum.split)

lemma keeps_ledger_send: "keeps_ledger (Client_send nd)"
  by (simp add: preserves_def ledger_send)

lemma keeps_ledger_publish_inner: "keeps_ledger (publish_inner pb)"
  unfolding publish_inner_def using keeps_ledger_send by (auto intro!: preserves_bind)

lemma keeps_ledger_addHandler: "keeps_ledger (addHandler p h)"
  by (auto simp: preserves_def addHandler_def Let_def ledger_of_def split: option.split)

lemma keeps_ledger_checkTag: "keeps_ledger (checkTag eng p t)"
proof (intro allI preservesI)
  fix l and s :: "('a, 'b) client_scheme"
  assume "ledger_of s = l"
  then show "ledger_of (snd (checkTag eng p t s)) = l"
    using checkTag_frame [of eng p t s] by auto
qed

lemma keeps_ledger_consumer:
  assumes "quiet_consume consume"
  shows "keeps_ledger (callConsumer eng consume p d i)"
proof (intro allI preservesI)
  fix l and s :: "('a, 'b) client_scheme"
  assume ok: "ledger_of s = l"
  have consume: "preserves (\<lambda>s. ledger_of s = l) (consume c p d i)" for c using assms by (simp add: quiet_consume_def)
  have at: "preserves (\<lambda>s. ledger_of s = l) (eventHandler_at v)" for v
    by (simp add: preserves_def eventHandler_at_def)
  have tag: "preserves (\<lambda>s. ledger_of s = l) (checkTag eng q t)" for q t using keeps_ledger_checkTag by blast
  have loop: "preserves (\<lambda>s. ledger_of s = l) (for_each ids (\<lambda>v. bind (eventHandler_at v) (\<lambda>es.
      bind (checkTag eng (snd es) (pub_tag p)) (\<lambda>b.
      if b then (case fst es of None \<Rightarrow> throw (Undef NullDereference) | Some h \<Rightarrow> consume h p d i) else ret ()))))" for ids
    using consume by (intro preserves_for_each preserves_bind at tag) (auto split: option.split)
  from preservesD [OF loop ok] ok show "ledger_of (snd (callConsumer eng consume p d i s)) = l"
    by (simp add: callConsumer_def ret_def split: option.split)
qed

lemma keeps_ledger_resend: "keeps_ledger (for_each ps publish_inner)"
  using keeps_ledger_publish_inner by (intro allI preserves_for_each) blast

lemma keeps_ledger_with:
  "(\<And>s. keeps_ledger (f s)) \<Longrightarrow> preserves (\<lambda>s. ledger_of s = l) (\<lambda>s. f s s)"
  by (simp add: preserves_def)

lemma keeps_ledger_onConnect: "keeps_ledger (Client_onConnect it)"
proof
  fix l
  have modify: "preserves (\<lambda>s. ledger_of s = l) (modify (\<lambda>s. s\<lparr>loginConfirmed := False\<rparr>))" for l
    by (simp add: preserves_def modify_def)
  have rest: "preserves (\<lambda>s. ledger_of s = l) (\<lambda>s. for_each (mp_all it (messagePool s)) publish_inner s)" for l
    by (rule keeps_ledger_with) (rule keeps_ledger_resend)
  have send: "keeps_ledger (bind (lift r) (\<lambda>nd. bind (Client_send nd) (\<lambda>_ s. for_each (mp_all it (messagePool s)) publish_inner s)))" for r
    by (intro allI preserves_bind preserves_lift keeps_ledger_send [rule_format] rest)
  show "preserves (\<lambda>s. ledger_of s = l) (Client_onConnect it)"
    unfolding Client_onConnect_def
    by (rule preserves_bind, rule modify, rule keeps_ledger_with [where f = "\<lambda>s. bind (lift (Login_toNetworkMessage \<lparr>login_login = c_login s\<rparr>)) _"], rule send)
qed

text \<open>The three requests share their steps: take an identifier, encode, register the operation, send.\<close>

lemma ledger_request:
  "ledger_of (snd (bind getNextId (\<lambda>m. bind (lift (f m)) (\<lambda>nd.
     bind (makeNewQResult m) (\<lambda>qr. bind (Client_send nd) (\<lambda>_. ret (g qr))))) s)) =
   (case f (c_nextMessageId s) of Inl _ \<Rightarrow> bump (ledger_of s) | Inr _ \<Rightarrow> opened None (ledger_of s))"
proof (cases "f (c_nextMessageId s)")
  case (Inl e)
  then show ?thesis
    by (simp add: bind_def [of getNextId] getNextId_def throw_def) (simp add: ledger_of_def bump_def)
next
  case (Inr nd)
  then show ?thesis
    by (simp add: bind_def [of getNextId] getNextId_def bind_def [of "makeNewQResult _"] makeNewQResult_def
        Let_def ledger_send)
       (simp add: ledger_of_def opened_def bump_def)
qed

lemma ledger_createQueue:
  "ledger_of (snd (Client_createQueue qs ot s)) \<in> {bump (ledger_of s), opened None (ledger_of s)}"
  unfolding Client_createQueue_def ledger_request by (simp split: sum.split)

lemma ledger_unsubscribe:
  "ledger_of (snd (Client_unsubscribe q ot s)) \<in> {bump (ledger_of s), opened None (ledger_of s)}"
  unfolding Client_unsubscribe_def bind_lift_lift ledger_request by (simp split: sum.split)

lemma ledger_subscribe:
  "ledger_of (snd (Client_subscribe p h ot s)) \<in> {ledger_of s, bump (ledger_of s), opened None (ledger_of s)}"
proof -
  obtain r s' where a: "addHandler p h s = (r, s')" by fastforce
  have keep: "ledger_of s' = ledger_of s"
    using preservesD [OF keeps_ledger_addHandler [rule_format], of s "ledger_of s" p h] a by simp
  show ?thesis
  proof (cases r)
    case (Inl e)
    with a keep show ?thesis by (simp add: Client_subscribe_def bind_def)
  next
    case (Inr u)
    have "snd (Client_subscribe p h ot s) = snd (bind getNextId (\<lambda>msgId. bind (lift (case ChangeSubscribe_toNetworkMessage (mk_ChangeSubscribe p msgId) of
        Inl e \<Rightarrow> Inl e | Inr nd \<Rightarrow> set_header_kind nd (kind_code SUBSCRIBE))) (\<lambda>nd.
        bind (makeNewQResult msgId) (\<lambda>qr. bind (Client_send nd) (\<lambda>_. ret (wait_for ot qr))))) s')"
      unfolding Client_subscribe_def bind_lift_lift by (simp add: bind_def [of "addHandler p h"] a Inr)
    then show ?thesis by (simp add: ledger_request keep split: sum.split)
  qed
qed

lemma ledger_publish_inner: "ledger_of (snd (publish_inner pb s)) = ledger_of s"
  using preservesD [OF keeps_ledger_publish_inner [rule_format], OF refl] .

lemma ledger_publish:
  "ledger_of (snd (Client_publish p d ot s)) =
   opened (Some (mk_Publish p d (c_nextMessageId s))) (ledger_of s)"
  by (simp add: Client_publish_def bind_def [of getNextId] getNextId_def bind_def [of "modify _"] modify_def
      bind_def [of "makeNewQResult _"] makeNewQResult_def Let_def ledger_publish_inner)
     (simp add: ledger_of_def opened_def bump_def)

lemma ledger_on_OK:
  "ledger_of (snd (Client_on_OK d s)) =
   (case Ok_read d of Inl _ \<Rightarrow> ledger_of s | Inr q \<Rightarrow>
    (case map_of (c_queries s) (ok_id q) of None \<Rightarrow> ledger_of s | Some qr \<Rightarrow> confirmed (ok_id q) qr (ledger_of s)))"
  by (cases "Ok_read d")
     (auto simp: Client_on_OK_def throw_def ret_def ledger_of_def confirmed_def split: option.split)

lemma ledger_step_receive:
  assumes "quiet_consume consume"
  shows "ledger_step (Receive d) (ledger_of s) (ledger_of (snd (Client_onNewMessage eng consume d s)))"
proof -
  have same: "ledger_step (Receive d) (ledger_of s) (ledger_of s')" if "ledger_of s' = ledger_of s" for s'
    unfolding that by (rule same) simp
  have pub: "ledger_of (snd (Client_on_PUBLISH eng consume d s)) = ledger_of s"
  proof (cases "Publish_read d")
    case (Inr cs)
    then show ?thesis
      using preservesD [OF keeps_ledger_consumer [OF assms, rule_format, of "ledger_of s"], OF refl]
      by (auto simp: Client_on_PUBLISH_def throw_def split: option.split)
  qed (simp add: Client_on_PUBLISH_def throw_def)
  have login: "ledger_of (snd (Client_on_LOGIN_CONFIRM d s)) = ledger_of s"
    by (cases "LoginConfirm_read d") (simp_all add: Client_on_LOGIN_CONFIRM_def throw_def modify_def)
  show ?thesis
  proof (cases "header_kind d")
    case (Inl e)
    then show ?thesis by (simp add: Client_onNewMessage_def throw_def same)
  next
    case (Inr k)
    note msg = Client_onNewMessage_def [of eng consume d, unfolded Inr, simplified]
    consider (p) "k = kind_code PUBLISH" | (o) "k \<noteq> kind_code PUBLISH" "k = kind_code OK"
      | (l) "k \<noteq> kind_code PUBLISH" "k \<noteq> kind_code OK" "k = kind_code LOGIN_CONFIRM"
      | (u) "k \<noteq> kind_code PUBLISH" "k \<noteq> kind_code OK" "k \<noteq> kind_code LOGIN_CONFIRM"
      by blast
    then show ?thesis
    proof cases
      case p
      with msg pub show ?thesis by (simp add: same)
    next
      case o
      with Inr have "acknowledges d (ok_id q)" if "Ok_read d = Inr q" for q
        using that by (simp add: acknowledges_def)
      with o msg show ?thesis
        by (auto simp: ledger_on_OK intro!: same confirmation split: sum.split option.split)
    next
      case l
      with msg login show ?thesis by (simp add: same)
    next
      case u
      with msg show ?thesis by (simp add: throw_def same)
    qed
  qed
qed

lemma ledger_async_connect [simp]: "ledger_of (snd (async_connect ok s)) = ledger_of s"
  by (simp add: async_connect_def throw_def modify_def split: option.split)

lemma ledger_reconnectOnError [simp]: "ledger_of (snd (reconnectOnError ok s)) = ledger_of s"
  by (simp add: reconnectOnError_def Client_onNetworkError_def bind_def [of "modify _"] modify_def ret_def)

lemma ledger_onConnect [simp]: "ledger_of (snd (Client_onConnect it s)) = ledger_of s"
  using preservesD [OF keeps_ledger_onConnect [rule_format], OF refl] .

lemma ledger_on_connected [simp]: "ledger_of (snd (on_connected it ec ok s)) = ledger_of s"
  by (simp add: on_connected_def bind_def [of "modify _"] modify_def)

lemma ledger_disconnect [simp]: "ledger_of (snd (disconnect s)) = ledger_of s"
  by (simp add: disconnect_def throw_def ret_def split: option.split)

lemma client_exec_ledger:
  assumes "quiet_consume consume"
  shows "ledger_step e (ledger_of s) (ledger_of (snd (client_exec eng consume it e s)))"
proof (cases e)
  case (Do_createQueue qs ot)
  then show ?thesis using ledger_createQueue [of qs ot s] by (auto simp: same used_up request)
next
  case (Do_subscribe p h ot)
  then show ?thesis using ledger_subscribe [of p h ot s] by (auto simp: same used_up request)
next
  case (Do_unsubscribe q ot)
  then show ?thesis using ledger_unsubscribe [of q ot s] by (auto simp: same used_up request)
next
  case (Do_publish p d ot)
  then show ?thesis using published [of p d ot "ledger_of s"] by (simp add: ledger_publish)
next
  case (Receive d)
  then show ?thesis using ledger_step_receive [OF assms] by simp
qed (simp_all add: same)

end
