(* ===== verification/Locker.thy ===== *)
theory Locker
  imports Prelude
begin

text \<open>
  \<^verbatim>\<open>libdqueue/utils/async/locker.h\<close>: a spin lock on an \<open>atomic_flag\<close>. A call of \<open>lock\<close> repeats an atomic
  test-and-set, and yields its time slice after every tenth failure, until the flag was clear. Two
  views of it are given: the loop of one call, as a function of the states in which its successive
  tests find the flag (other threads act in between), and threads that use one locker together, as
  a step relation.
\<close>

record locker =
  locked :: bool

definition mk_locker :: locker where
  "mk_locker = \<lparr>locked = False\<rparr>"

definition LOCKER_MAX_TRY :: nat where
  "LOCKER_MAX_TRY = 10"

definition test_and_set :: "locker \<Rightarrow> bool \<times> locker" where
  "test_and_set l = (locked l, l\<lparr>locked := True\<rparr>)"

definition unlock :: "locker \<Rightarrow> locker" where
  "unlock l = l\<lparr>locked := False\<rparr>"

text \<open>The body of the loop: the new \<open>num_try\<close>, and whether the thread yields.\<close>

definition spin :: "nat \<Rightarrow> nat \<times> bool" where
  "spin num_try = (if num_try + 1 \<ge> LOCKER_MAX_TRY then (0, True) else (num_try + 1, False))"

text \<open>The loop. The list holds the locker as each test finds it; when it ends, the call has not
  returned yet. The result is the locker after the call and the number of yields.\<close>

fun lock_loop :: "nat \<Rightarrow> nat \<Rightarrow> locker list \<Rightarrow> (locker \<times> nat) option" where
  "lock_loop num_try yields [] = None"
| "lock_loop num_try yields (l # ls) =
     (case test_and_set l of
        (True, _) \<Rightarrow>
          (case spin num_try of
             (n, yield) \<Rightarrow> lock_loop n (if yield then yields + 1 else yields) ls)
      | (False, l') \<Rightarrow> Some (l', yields))"

definition lock :: "locker list \<Rightarrow> (locker \<times> nat) option" where
  "lock ls = lock_loop 0 0 ls"

lemma lock_loop_eq:
  "n < 10 \<Longrightarrow> lock_loop n y ls =
     (if \<forall>l \<in> set ls. locked l then None
      else Some (\<lparr>locked = True\<rparr>, y + (n + length (takeWhile locked ls)) div 10))"
proof (induction ls arbitrary: n y)
  case (Cons l ls)
  show ?case
  proof (cases "locked l")
    case True
    have "fst (spin n) < 10" using Cons.prems by (simp add: spin_def LOCKER_MAX_TRY_def)
    from Cons.IH [OF this, of "if snd (spin n) then y + 1 else y"] True Cons.prems show ?thesis
      by (auto simp: test_and_set_def spin_def LOCKER_MAX_TRY_def)
    next
    case False
    then have "l = \<lparr>locked = False\<rparr>" by (cases l) simp
    with Cons.prems show ?thesis by (simp add: test_and_set_def)
  qed
qed simp

lemma lock_waits: "lock ls = None \<longleftrightarrow> (\<forall>l \<in> set ls. locked l)"
  by (simp add: lock_def lock_loop_eq)

section \<open>Threads\<close>

datatype pc = Outside | Spinning nat | Inside

record spin_world =
  lk :: locker
  pc_of :: "nat \<Rightarrow> pc"

inductive lock_step :: "nat \<Rightarrow> spin_world \<Rightarrow> spin_world \<Rightarrow> bool" where
  call: "pc_of w t = Outside \<Longrightarrow> lock_step t w (w\<lparr>pc_of := (pc_of w)(t := Spinning 0)\<rparr>)"
| acquire: "pc_of w t = Spinning n \<Longrightarrow> test_and_set (lk w) = (False, l) \<Longrightarrow>
    lock_step t w (w\<lparr>lk := l, pc_of := (pc_of w)(t := Inside)\<rparr>)"
| retry: "pc_of w t = Spinning n \<Longrightarrow> test_and_set (lk w) = (True, l) \<Longrightarrow>
    lock_step t w (w\<lparr>lk := l, pc_of := (pc_of w)(t := Spinning (fst (spin n)))\<rparr>)"
| release: "pc_of w t = Inside \<Longrightarrow> lock_step t w (w\<lparr>lk := unlock (lk w), pc_of := (pc_of w)(t := Outside)\<rparr>)"

inductive lock_reach :: "spin_world \<Rightarrow> bool" where
  init: "lock_reach \<lparr>lk = mk_locker, pc_of = (\<lambda>_. Outside)\<rparr>"
| step: "lock_reach w \<Longrightarrow> lock_step t w w' \<Longrightarrow> lock_reach w'"

definition lock_inv :: "spin_world \<Rightarrow> bool" where
  "lock_inv w \<longleftrightarrow>
     (locked (lk w) \<longleftrightarrow> (\<exists>t. pc_of w t = Inside)) \<and>
     (\<forall>t u. pc_of w t = Inside \<longrightarrow> pc_of w u = Inside \<longrightarrow> t = u) \<and>
     (\<forall>t n. pc_of w t = Spinning n \<longrightarrow> n < LOCKER_MAX_TRY)"

lemma lock_inv_step: "lock_step t w w' \<Longrightarrow> lock_inv w \<Longrightarrow> lock_inv w'"
proof (induction rule: lock_step.induct)
  case (call w t)
  then show ?case by (auto simp: lock_inv_def LOCKER_MAX_TRY_def) (metis pc.distinct(3))+
next
  case (acquire w t n l)
  then show ?case by (auto simp: lock_inv_def test_and_set_def)
next
  case (retry w t n l)
  then show ?case by (auto simp: lock_inv_def test_and_set_def spin_def LOCKER_MAX_TRY_def) (metis pc.distinct(5))+
next
  case (release w t)
  then show ?case by (auto simp: lock_inv_def unlock_def)
qed

lemma lock_inv_reach: "lock_reach w \<Longrightarrow> lock_inv w"
  by (induction rule: lock_reach.induct) (auto simp: lock_inv_step, simp add: lock_inv_def mk_locker_def)

section \<open>Properties\<close>

text \<open>C34: a call of \<open>lock\<close> returns as soon as one of its tests finds the flag clear, and only then; it
  leaves the flag set, and has yielded once for every ten failed tests.\<close>

theorem lock_returns:
  "lock ls =
     (case dropWhile locked ls of
        [] \<Rightarrow> None
      | _ # _ \<Rightarrow> Some (\<lparr>locked = True\<rparr>, length (takeWhile locked ls) div LOCKER_MAX_TRY))"
  by (auto simp: lock_def lock_loop_eq LOCKER_MAX_TRY_def dropWhile_eq_Nil_conv split: list.split)
     (metis dropWhile_eq_Nil_conv list.distinct(1))

text \<open>C27: mutual exclusion and no deadlock. In every reachable state of threads that use one locker,
  and unlock it only when they hold it, at most one thread is inside; the flag is set exactly while
  one is; the counter of failed tests stays below its bound. A thread that waits gets inside by its
  next test, after the holder, if there is one, has left.\<close>

theorem locker_excludes:
  assumes "lock_reach w"
  shows "(\<forall>t u. pc_of w t = Inside \<longrightarrow> pc_of w u = Inside \<longrightarrow> t = u) \<and>
    (locked (lk w) \<longleftrightarrow> (\<exists>t. pc_of w t = Inside)) \<and>
    (\<forall>t n. pc_of w t = Spinning n \<longrightarrow> n < LOCKER_MAX_TRY \<and>
       (\<exists>w1 w2. (if locked (lk w) then \<exists>h. pc_of w h = Inside \<and> lock_step h w w1 else w1 = w) \<and>
          lock_step t w1 w2 \<and> pc_of w2 t = Inside))"
proof -
  note inv = lock_inv_reach [OF assms, unfolded lock_inv_def]
  have "\<exists>w1 w2. (if locked (lk w) then \<exists>h. pc_of w h = Inside \<and> lock_step h w w1 else w1 = w) \<and>
          lock_step t w1 w2 \<and> pc_of w2 t = Inside" if t: "pc_of w t = Spinning n" for t n
  proof (cases "locked (lk w)")
    case True
    then obtain h where h: "pc_of w h = Inside" using inv by blast
    let ?w1 = "w\<lparr>lk := unlock (lk w), pc_of := (pc_of w)(h := Outside)\<rparr>"
    have "h \<noteq> t" using h t by auto
    with t have "pc_of ?w1 t = Spinning n" "test_and_set (lk ?w1) = (False, (unlock (lk w))\<lparr>locked := True\<rparr>)"
      by (simp_all add: test_and_set_def unlock_def)
    from lock_step.acquire [OF this] release [OF h] h True show ?thesis
      by (intro exI [of _ ?w1] exI) auto
  next
    case False
    then have "test_and_set (lk w) = (False, (lk w)\<lparr>locked := True\<rparr>)" by (simp add: test_and_set_def)
    from lock_step.acquire [OF t this] False show ?thesis by (intro exI [of _ w] exI) auto
  qed
  with inv show ?thesis by blast
qed

lemma two_threads: "lock_reach \<lparr>lk = \<lparr>locked = True\<rparr>, pc_of = (\<lambda>_. Outside)(0 := Inside, 1 := Spinning 0)\<rparr>"
proof -
  note step = lock_reach.step
  have "lock_reach \<lparr>lk = mk_locker, pc_of = (\<lambda>_. Outside)(0 := Spinning 0)\<rparr>"
    using step [OF init call [of _ 0]] by simp
  from step [OF this acquire [of _ 0 0 "\<lparr>locked = True\<rparr>"]]
  have "lock_reach \<lparr>lk = \<lparr>locked = True\<rparr>, pc_of = (\<lambda>_. Outside)(0 := Inside)\<rparr>"
    by (simp add: test_and_set_def mk_locker_def)
  from step [OF this call [of _ 1]] show ?thesis by simp
qed

theorem locker_excludes_witness:
  "\<exists>h w1 w2. lock_step h \<lparr>lk = \<lparr>locked = True\<rparr>, pc_of = (\<lambda>_. Outside)(0 := Inside, 1 := Spinning 0)\<rparr> w1 \<and>
     lock_step 1 w1 w2 \<and> pc_of w2 1 = Inside"
  using locker_excludes [OF two_threads, THEN conjunct2, THEN conjunct2, rule_format, of 1 0] by auto

end
