(* ===== verification/Client_Reliability.thy ===== *)
theory Client_Reliability
  imports Client Locker
begin

text \<open>
  What a client promises over any sequence of calls, frames and network events: its books stay
  consistent, a published message stays in the pool and its publisher waits until the message is
  confirmed, every new connection sends it again, and a confirmation releases exactly one operation.
\<close>

section \<open>Runs\<close>

lemma next_ids [simp]:
  "l_next_id (bump l) = l_next_id l + 1" "l_next_id (opened pb l) = l_next_id l + 1"
  "l_next_id (confirmed m qr l) = l_next_id l"
  by (simp_all add: bump_def opened_def confirmed_def)

lemma ledger_ok_step:
  assumes "ledger_step e l l'" and "ledger_ok l" and "unat (l_next_id l) + 1 < 2 ^ 64"
  shows "ledger_ok l' \<and> unat (l_next_id l') \<le> unat (l_next_id l) + 1"
proof -
  have less: "l_next_id l < - 1"
    using assms(3) by (simp add: word_less_nat_alt unsigned_minus_1_eq_mask mask_eq_exp_minus_1)
  have next_id: "unat (l_next_id l + 1) \<le> unat (l_next_id l) + 1"
    by (simp add: unat_word_ariths)
  have "ledger_ok (opened None l)" "ledger_ok (opened (Some (mk_Publish p d (l_next_id l))) l)" for p d
    using assms(2) less by (auto intro!: ledger_ok_opened)
  with assms(1) show ?thesis
    using ledger_ok_bump [OF assms(2) less] ledger_ok_confirmed [OF assms(2)]
      next_id assms(2)
    by (elim ledger_stepE) auto
qed

lemma ledger_start: "ledger_ok (ledger_of (Client login auto))"
  by (rule ledger_okI) (simp_all add: Client_def ledger_of_def, simp add: mp_create_def)

abbreviation client_run ::
  "'re engine \<Rightarrow> ('re, 'a) client_scheme consume \<Rightarrow> ((u64 \<times> Publish) list \<Rightarrow> (u64 \<times> Publish) list) \<Rightarrow>
   client_event list \<Rightarrow> ('re, 'a) client_scheme \<Rightarrow> ('re, 'a) client_scheme" where
  "client_run eng consume it es s \<equiv> snd (run_seq (client_exec eng consume it) es s)"

lemma ledger_ok_run:
  assumes "quiet_consume consume"
  shows "ledger_ok (ledger_of s) \<Longrightarrow> unat (c_nextMessageId s) + length es < 2 ^ 64 \<Longrightarrow>
    ledger_ok (ledger_of (client_run eng consume it es s)) \<and>
    unat (c_nextMessageId (client_run eng consume it es s)) \<le> unat (c_nextMessageId s) + length es"
proof (induction es arbitrary: s)
  case (Cons e es)
  have "ledger_ok (ledger_of (snd (client_exec eng consume it e s))) \<and>
      unat (c_nextMessageId (snd (client_exec eng consume it e s))) \<le> unat (c_nextMessageId s) + 1"
    using ledger_ok_step [OF client_exec_ledger [OF assms, where e = e and s = s and eng = eng and it = it]] Cons.prems
    by simp
  then show ?case using Cons.IH [of "snd (client_exec eng consume it e s)"] Cons.prems by simp
qed simp

text \<open>The states a client goes through; a caller that waits makes its tests in them.\<close>

primrec client_trace ::
  "'re engine \<Rightarrow> ('re, 'a) client_scheme consume \<Rightarrow> ((u64 \<times> Publish) list \<Rightarrow> (u64 \<times> Publish) list) \<Rightarrow>
   client_event list \<Rightarrow> ('re, 'a) client_scheme \<Rightarrow> ('re, 'a) client_scheme list" where
  "client_trace eng consume it [] s = [s]"
| "client_trace eng consume it (e # es) s = s # client_trace eng consume it es (snd (client_exec eng consume it e s))"

lemma client_trace_start: "s \<in> set (client_trace eng consume it es s)"
  by (cases es) simp_all

lemma ledger_ok_trace:
  assumes "quiet_consume consume"
  shows "ledger_ok (ledger_of s) \<Longrightarrow> unat (c_nextMessageId s) + length es < 2 ^ 64 \<Longrightarrow>
    t \<in> set (client_trace eng consume it es s) \<Longrightarrow> ledger_ok (ledger_of t)"
proof (induction es arbitrary: s)
  case (Cons e es)
  let ?s = "snd (client_exec eng consume it e s)"
  have "ledger_ok (ledger_of ?s)" "unat (c_nextMessageId ?s) + length es < 2 ^ 64"
    using ledger_ok_step [OF client_exec_ledger [OF assms, where e = e and s = s and eng = eng and it = it]] Cons.prems(1,2)
    by auto
  with Cons.IH [of ?s] Cons.prems show ?case by auto
qed simp

lemma confirmed_ledger:
  assumes "acknowledges d m" and "map_of (c_queries s) m = Some qr"
  shows "ledger_of (snd (client_exec eng consume it (Receive d) s)) = confirmed m qr (ledger_of s)"
  using assms by (simp add: acknowledges_def Client_onNewMessage_def ledger_on_OK)

text \<open>Nothing is left to confirm exactly if no locker is locked.\<close>

lemma all_confirmed_unlocked:
  assumes ok: "ledger_ok (ledger_of s)"
  shows "all_confirmed s \<longleftrightarrow> (\<forall>a. \<not> c_lockers s a)"
proof -
  have pool: "messagePool s = []" if "c_queries s = []"
  proof (rule ccontr)
    assume "messagePool s \<noteq> []"
    then obtain m p where "map_of (messagePool s) m = Some p" by (rule map_of_nonempty)
    with ledger_okD(8) [OF ok] that show False by fastforce
  qed
  have locked: "\<exists>a. c_lockers s a" if "c_queries s \<noteq> []"
  proof -
    from that obtain m qr where "map_of (c_queries s) m = Some qr" by (rule map_of_nonempty)
    with ledger_okD(5) [OF ok] show ?thesis by auto
  qed
  have "c_queries s = [] \<longleftrightarrow> (\<forall>a. \<not> c_lockers s a)"
    using locked ledger_okD(7) [OF ok] by fastforce
  with pool show ?thesis by (auto simp: all_confirmed_def messagesInPool_def mp_size_def)
qed

text \<open>An operation stays pending while no frame acknowledges it.\<close>

definition unacknowledged :: "u64 \<Rightarrow> client_event list \<Rightarrow> bool" where
  "unacknowledged m es \<longleftrightarrow> (\<forall>d. Receive d \<in> set es \<longrightarrow> \<not> acknowledges d m)"

lemma pending_step:
  assumes "ledger_step e l l'" and "ledger_ok l" and "unacknowledged m [e]" and "map_of (l_queries l) m = Some qr"
  shows "map_of (l_queries l') m = Some qr \<and> (map_of (l_pool l) m = Some p \<longrightarrow> map_of (l_pool l') m = Some p)"
proof -
  have "m < l_next_id l" using ledger_okD(3) [OF assms(2,4)] .
  then have new: "m \<noteq> l_next_id l" by auto
  from assms(1) show ?thesis
    using assms(3,4) new
    by (elim ledger_stepE)
       (auto simp: bump_def opened_def confirmed_def mp_append_def mp_erase_def delete_conv' unacknowledged_def mk_Publish_def)
qed

lemma pending_run:
  assumes "quiet_consume consume"
  shows "ledger_ok (ledger_of s) \<Longrightarrow> unat (c_nextMessageId s) + length es < 2 ^ 64 \<Longrightarrow> unacknowledged m es \<Longrightarrow>
    map_of (c_queries s) m = Some qr \<Longrightarrow>
    map_of (c_queries (client_run eng consume it es s)) m = Some qr \<and>
    (map_of (messagePool s) m = Some p \<longrightarrow> map_of (messagePool (client_run eng consume it es s)) m = Some p)"
proof (induction es arbitrary: s)
  case (Cons e es)
  note step = client_exec_ledger [OF assms, where e = e and s = s and eng = eng and it = it]
  let ?s = "snd (client_exec eng consume it e s)"
  have un: "unacknowledged m [e]" "unacknowledged m es" using Cons.prems(3) by (simp_all add: unacknowledged_def)
  have ok: "ledger_ok (ledger_of ?s)" "unat (c_nextMessageId ?s) + length es < 2 ^ 64"
    using ledger_ok_step [OF step] Cons.prems by auto
  from pending_step [OF step Cons.prems(1) un(1), where qr = qr and p = p] Cons.prems(4)
  show ?case using Cons.IH [OF ok un(2)] by simp
qed simp

section \<open>Sending\<close>

definition publish_bytes :: "Publish \<Rightarrow> byte list" where
  "publish_bytes pb = (case Publish_toNetworkMessage pb of Inl _ \<Rightarrow> [] | Inr nd \<Rightarrow> wire_bytes nd)"

text \<open>Small enough to be built.\<close>

definition sendable :: "Publish \<Rightarrow> bool" where
  "sendable pb \<longleftrightarrow> Scheme_capacity [StrV (p_qname pb), StrV (p_tag pb), bytesV (p_data pb), u64V (p_messageId pb)] + 6 < 2 ^ 31"

lemma sendable_packed:
  assumes "sendable pb"
  obtains nd where "Publish_toNetworkMessage pb = Inr nd" and "packed nd" and "publish_bytes pb = wire_bytes nd"
proof -
  from assms obtain nd where "Publish_toNetworkMessage pb = Inr nd"
    using publish.packs_iff [of pb] unfolding sendable_def Publish_toNetworkMessage_def by blast
  then show thesis using that packed_Publish by (simp add: publish_bytes_def)
qed

definition connected_by :: "async_io option \<Rightarrow> bool" where
  "connected_by c \<longleftrightarrow> (\<exists>io. c = Some io \<and> live io)"

lemma Client_send_live:
  assumes "connected_by (async_connection s)" and "packed nd"
  shows "\<exists>c. Client_send nd s = (Inr (), s\<lparr>async_connection := c, c_outbox := c_outbox s @ [wire_bytes nd]\<rparr>) \<and>
    connected_by c"
proof -
  from assms(1) obtain io where io: "async_connection s = Some io" "live io" by (auto simp: connected_by_def)
  with io_send_packed [OF io(2) assms(2)] obtain io' where
    "io_send nd io = (Inr (Some (wire_bytes nd)), io')" "live io'" by blast
  with io show ?thesis
    by (intro exI [of _ "Some io'"]) (simp add: Client_send_def connected_by_def ret_def)
qed

lemma resend_live:
  "connected_by (async_connection s) \<Longrightarrow> list_all sendable ps \<Longrightarrow>
   \<exists>c. for_each ps publish_inner s =
     (Inr (), s\<lparr>async_connection := c, c_outbox := c_outbox s @ map publish_bytes ps\<rparr>) \<and> connected_by c"
proof (induction ps arbitrary: s)
  case Nil
  then show ?case by (intro exI [of _ "async_connection s"]) (simp add: ret_def)
next
  case (Cons pb ps)
  obtain nd where nd: "Publish_toNetworkMessage pb = Inr nd" "packed nd" "publish_bytes pb = wire_bytes nd"
    using sendable_packed [of pb] Cons.prems(2) by auto
  obtain c where c: "publish_inner pb s = (Inr (), s\<lparr>async_connection := c, c_outbox := c_outbox s @ [wire_bytes nd]\<rparr>)"
    and live: "connected_by c"
    using Client_send_live [OF Cons.prems(1) nd(2)] by (auto simp: publish_inner_def nd(1))
  from Cons.IH [of "s\<lparr>async_connection := c, c_outbox := c_outbox s @ [wire_bytes nd]\<rparr>"] live Cons.prems(2)
  show ?case by (auto simp: bind_def c nd(3))
qed

lemma onConnect_live:
  assumes "connected_by (async_connection s)" and "Login_toNetworkMessage \<lparr>login_login = c_login s\<rparr> = Inr nd"
    and "list_all sendable (mp_all it (messagePool s))"
  shows "fst (Client_onConnect it s) = Inr () \<and>
    c_outbox (snd (Client_onConnect it s)) =
      c_outbox s @ wire_bytes nd # map publish_bytes (mp_all it (messagePool s))"
proof -
  let ?s = "s\<lparr>loginConfirmed := False\<rparr>"
  obtain c where send: "Client_send nd ?s = (Inr (), ?s\<lparr>async_connection := c, c_outbox := c_outbox s @ [wire_bytes nd]\<rparr>)"
    and c: "connected_by c"
    using Client_send_live [of ?s nd] assms(1) packed_Login [OF assms(2)] by auto
  from resend_live [OF _ assms(3), of "?s\<lparr>async_connection := c, c_outbox := c_outbox s @ [wire_bytes nd]\<rparr>"] c
  show ?thesis
    by (auto simp: Client_onConnect_def bind_def [of "modify _"] modify_def assms(2) bind_def [of "Client_send nd"] send)
qed

lemma on_connected_live:
  assumes "Login_toNetworkMessage \<lparr>login_login = c_login s\<rparr> = Inr nd"
    and "list_all sendable (mp_all it (messagePool s))"
  shows "fst (on_connected it False at s) = Inr () \<and>
    c_outbox (snd (on_connected it False at s)) =
      c_outbox s @ wire_bytes nd # map publish_bytes (mp_all it (messagePool s))"
  using onConnect_live [of "s\<lparr>connecting := connecting s - 1, async_connection := Some (io_start AsyncIO), c_isConnected := True\<rparr>" nd it] assms
  by (simp add: on_connected_def bind_def [of "modify _"] modify_def connected_by_def)

section \<open>Properties\<close>


definition idle_consumer :: "('re, 'a) client_scheme consume" where
  "idle_consumer c p d i = ret ()"

lemma quiet_consume_idle: "quiet_consume idle_consumer"
  by (simp add: quiet_consume_def idle_consumer_def)

lemma acknowledges_Ok: "acknowledges (framed (frame (kind_code OK) [u64V m])) m"
  using Ok_sent [OF Ok_packs, of "\<lparr>ok_id = m\<rparr>"] by (simp add: acknowledges_def)



text \<open>A client that is not connected sends nothing.\<close>

lemma Client_send_unconnected: "async_connection s = None \<Longrightarrow> Client_send nd s = (Inr (), s)"
  by (simp add: Client_send_def ret_def)

lemma publish_inner_unconnected:
  assumes "async_connection s = None" and "sendable pb"
  shows "publish_inner pb s = (Inr (), s)"
proof -
  obtain nd where "Publish_toNetworkMessage pb = Inr nd" using sendable_packed [OF assms(2)] .
  then show ?thesis by (simp add: publish_inner_def Client_send_unconnected [OF assms(1)])
qed

lemma Client_publish_unconnected:
  assumes "async_connection s = None" and "sendable (mk_Publish p d (c_nextMessageId s))"
  shows "Client_publish p d ot s =
    (Inr (wait_for ot \<lparr>ar_locker = c_next_locker s\<rparr>),
     s\<lparr>c_nextMessageId := c_nextMessageId s + 1,
       messagePool := mp_append (mk_Publish p d (c_nextMessageId s)) (messagePool s),
       c_next_locker := c_next_locker s + 1,
       c_queries := omap_put (c_nextMessageId s) \<lparr>ar_locker = c_next_locker s\<rparr> (c_queries s),
       c_lockers := (c_lockers s)(c_next_locker s := True)\<rparr>)"
  using assms(1)
  by (simp add: Client_publish_def bind_def getNextId_def modify_def makeNewQResult_def Let_def ret_def
      publish_inner_unconnected [OF _ assms(2)])

lemma Login_packs: "length login < 2 ^ 30 \<Longrightarrow> \<exists>nd. Login_toNetworkMessage \<lparr>login_login = login\<rparr> = Inr nd"
  using login.packs_iff [of "\<lparr>login_login = login\<rparr>"] by (simp add: Login_toNetworkMessage_def)


text \<open>A confirmation releases exactly the operation it names: its locker was locked and is
  unlocked, its message leaves the pool, every other operation stays pending with its locker locked.
  A confirmation for no pending operation, a repeated one for instance, throws and changes nothing.\<close>

theorem confirmation_releases_one:
  fixes eng :: "'re engine" and consume :: "('re, unit) client_scheme consume" and it login auto es
  defines "s \<equiv> client_run eng consume it es (Client login auto)"
  assumes "quiet_consume consume" and "length es < 2 ^ 64" and "acknowledges d m"
  shows "case map_of (c_queries s) m of
      None \<Rightarrow> client_exec eng consume it (Receive d) s = (Inl (Throw (UnknownQuery m)), s)
    | Some qr \<Rightarrow> c_lockers s (ar_locker qr) \<and>
        (\<exists>s'. client_exec eng consume it (Receive d) s = (Inr None, s') \<and>
          c_lockers s' = (c_lockers s)(ar_locker qr := False) \<and>
          map_of (c_queries s') = (map_of (c_queries s))(m := None) \<and>
          map_of (messagePool s') = (map_of (messagePool s))(m := None) \<and>
          (\<forall>m' qr'. map_of (c_queries s') m' = Some qr' \<longrightarrow> c_lockers s' (ar_locker qr')) \<and>
          client_exec eng consume it (Receive d) s' = (Inl (Throw (UnknownQuery m)), s'))"
proof -
  have ok: "ledger_ok (ledger_of s)"
    using ledger_ok_run [OF assms(2) ledger_start, of login auto es eng it] assms(3) by (simp add: s_def Client_def)
  have recv: "Client_onNewMessage eng consume d t = Client_on_OK d t" for t
    using assms(4) by (simp add: acknowledges_def Client_onNewMessage_def)
  have onOK: "Client_on_OK d t = (case map_of (c_queries t) m of
       None \<Rightarrow> (Inl (Throw (UnknownQuery m)), t)
     | Some qr \<Rightarrow> (Inr (), t\<lparr>messagePool := mp_erase m (messagePool t), c_lockers := (c_lockers t)(ar_locker qr := False),
         c_queries := omap_erase m (c_queries t)\<rparr>))" for t
    using assms(4) by (simp add: acknowledges_def Client_on_OK_def throw_def ret_def split: option.split)
  show ?thesis
  proof (cases "map_of (c_queries s) m")
    case None
    then show ?thesis by (simp add: bind_def recv onOK)
  next
    case (Some qr)
    let ?s' = "s\<lparr>messagePool := mp_erase m (messagePool s), c_lockers := (c_lockers s)(ar_locker qr := False),
         c_queries := omap_erase m (c_queries s)\<rparr>"
    have l: "ledger_of ?s' = confirmed m qr (ledger_of s)" by (simp add: ledger_of_def confirmed_def)
    have "ledger_ok (ledger_of ?s')" unfolding l using ledger_ok_confirmed [OF ok] Some by simp
    from ledger_okD(5) [OF this] have locked: "\<forall>m' qr'. map_of (c_queries ?s') m' = Some qr' \<longrightarrow> c_lockers ?s' (ar_locker qr')"
      by (metis ledger_of_sel(2,3))
    have "client_exec eng consume it (Receive d) s = (Inr None, ?s')"
      "client_exec eng consume it (Receive d) ?s' = (Inl (Throw (UnknownQuery m)), ?s')"
      using Some by (simp_all add: bind_def recv onOK ret_def delete_conv')
    with Some locked ledger_okD(5) [OF ok] show ?thesis
      by (auto simp: delete_conv' fun_eq_iff mp_erase_def)
  qed
qed

theorem confirmation_releases_one_witness:
  "\<exists>s'. client_exec literal_engine idle_consumer id (Receive (framed (frame (kind_code OK) [u64V 0])))
     (client_run literal_engine idle_consumer id [Do_publish (mk_pub ''q'' []) [1] Sync] (Client ''a'' True)) = (Inr None, s') \<and>
     map_of (messagePool s') 0 = None \<and> \<not> c_lockers s' 0"
proof -
  have "sendable (mk_Publish (mk_pub ''q'' []) [1] 0)" by (simp add: sendable_def mk_Publish_def mk_pub_def)
  then have "c_queries (client_run literal_engine idle_consumer id [Do_publish (mk_pub ''q'' []) [1] Sync] (Client ''a'' True)) =
      [(0, \<lparr>ar_locker = 0\<rparr>)]"
    using Client_publish_unconnected [of "Client ''a'' True :: string client" "mk_pub ''q'' []" "[1]" Sync]
    by (simp add: Client_def)
  then show ?thesis
    using confirmation_releases_one [of idle_consumer "[Do_publish (mk_pub ''q'' []) [1] Sync]" _ 0 literal_engine id "''a''" True,
        OF quiet_consume_idle _ acknowledges_Ok]
    by auto
qed

text \<open>Only published messages survive a lost connection. A request to create a queue made while
  the client is not connected is dropped and never sent, also not by the connection established
  next, but its caller blocks on a locker that only a confirmation unlocks; it blocks even if it
  asked for an asynchronous operation.\<close>

theorem request_while_unconnected_is_lost:
  fixes eng :: "'re engine" and consume :: "('re, unit) client_scheme consume" and it login auto qs ot at
  defines "s \<equiv> client_run eng consume it [Do_createQueue qs ot, Connect_attempt at, Connected False at] (Client login auto)"
  assumes "length (qs_name qs) < 2 ^ 30" and "length login < 2 ^ 30" and "it [] = []" and "at_endpoints at = Some [V4]"
  shows "fst (client_exec eng consume it (Do_createQueue qs ot) (Client login auto)) = Inr (Some \<lparr>ar_locker = 0\<rparr>) \<and>
    c_lockers s 0 \<and> (\<exists>nd. Login_toNetworkMessage \<lparr>login_login = login\<rparr> = Inr nd \<and> c_outbox s = [wire_bytes nd])"
proof -
  let ?s0 = "Client login auto :: 're client"
  obtain cq where cq: "CreateQueue_toNetworkMessage \<lparr>cq_name = qs_name qs, cq_msgId = 0\<rparr> = Inr cq"
    using create_queue.packs_iff [of "\<lparr>cq_name = qs_name qs, cq_msgId = 0\<rparr>"] assms(2)
    by (auto simp: CreateQueue_toNetworkMessage_def)
  obtain nd where nd: "Login_toNetworkMessage \<lparr>login_login = login\<rparr> = Inr nd" using Login_packs assms(3) by blast
  let ?s1 = "?s0\<lparr>c_nextMessageId := 1, c_next_locker := Suc 0, c_queries := [(0, \<lparr>ar_locker = 0\<rparr>)],
      c_lockers := (\<lambda>_. False)(0 := True)\<rparr>"
  have create: "Client_createQueue qs ot ?s0 = (Inr (Some \<lparr>ar_locker = 0\<rparr>), ?s1)"
    by (simp add: Client_createQueue_def bind_def [of getNextId] getNextId_def Client_def cq
        bind_def makeNewQResult_def Let_def Client_send_unconnected ret_def)
  have connect: "snd (async_connect at ?s1) = ?s1\<lparr>connecting := Suc 0\<rparr>"
    using assms(5) by (simp add: async_connect_def modify_def Client_def)
  have "c_outbox s = [wire_bytes nd]"
    using on_connected_live [of "?s1\<lparr>connecting := Suc 0\<rparr>" nd it at] nd assms(4)
    by (simp add: s_def create connect) (simp add: Client_def mp_all_def mp_create_def)
  moreover have "l_lockers (ledger_of s) 0"
    by (simp add: s_def create connect del: ledger_of_sel) (simp add: ledger_of_def)
  ultimately show ?thesis using create nd by simp
qed

theorem request_while_unconnected_is_lost_witness:
  "\<exists>nd. c_outbox (client_run literal_engine idle_consumer id [Do_createQueue \<lparr>qs_name = ''q''\<rparr> Async,
      Connect_attempt \<lparr>at_endpoints = Some [V4], at_held = False\<rparr>,
      Connected False \<lparr>at_endpoints = Some [V4], at_held = False\<rparr>] (Client ''a'' True)) = [wire_bytes nd]"
  using request_while_unconnected_is_lost [of "\<lparr>qs_name = ''q''\<rparr>" "''a''" id "\<lparr>at_endpoints = Some [V4], at_held = False\<rparr>"
      literal_engine idle_consumer Async True] by auto

text \<open>C38: one unexpected confirmation makes a client deaf. When a confirmation for no pending operation
  arrives (the second one of a message that was sent twice), its exception leaves the read loop:
  whatever bytes follow, none of the messages in them is handled.\<close>

theorem unexpected_confirmation_deafens:
  assumes "ready io" and "map_of (c_queries s) m = None"
  shows "receive (Client_onNewMessage eng consume) io (frame (kind_code OK) [u64V m] @ rest) s =
    (Inl (Throw (UnknownQuery m)), s)"
proof -
  have nd: "Ok_toNetworkMessage \<lparr>ok_id = m\<rparr> = Inr (framed (frame (kind_code OK) [u64V m]))"
    using Ok_packs [of "\<lparr>ok_id = m\<rparr>"] by simp
  then have "pack OK [u64V m] = Inr (framed (frame (kind_code OK) [u64V m]))" by (simp add: Ok_toNetworkMessage_def)
  then have "wire_frame (frame (kind_code OK) [u64V m])"
    by (rule packed_wire_frame(1) [where ts = "[Pod 8]", rotated]) simp_all
  note step = receive_frame [OF assms(1) this]
  show ?thesis
    unfolding step using Ok_sent [OF nd] assms(2) by (simp add: bind_def Client_onNewMessage_def Client_on_OK_def throw_def lift_def)
qed

theorem unexpected_confirmation_deafens_witness:
  "receive (Client_onNewMessage literal_engine idle_consumer) (io_start AsyncIO)
     (frame (kind_code OK) [u64V 7] @ frame (kind_code OK) [u64V 8]) (Client ''a'' True) =
   (Inl (Throw (UnknownQuery 7)), Client ''a'' True)"
  by (rule unexpected_confirmation_deafens)
     (simp_all add: ready_def io_start_def AsyncIO_def readNextAsync_def Client_def)

section \<open>The blocked caller\<close>

lemma locked_while_unacknowledged:
  assumes "quiet_consume consume"
  shows "ledger_ok (ledger_of s) \<Longrightarrow> unat (c_nextMessageId s) + length es < 2 ^ 64 \<Longrightarrow>
    map_of (c_queries s) m = Some qr \<Longrightarrow>
    (\<forall>t \<in> set (client_trace eng consume it es s). c_lockers t (ar_locker qr)) \<longleftrightarrow> unacknowledged m es"
proof (induction es arbitrary: s)
  case Nil
  with ledger_okD(5) [OF Nil(1), of m qr] show ?case by (simp add: unacknowledged_def)
next
  case (Cons e es)
  let ?s = "snd (client_exec eng consume it e s)"
  note step = client_exec_ledger [OF assms, where e = e and s = s and eng = eng and it = it]
  have here: "c_lockers s (ar_locker qr)" using ledger_okD(5) [OF Cons.prems(1), of m qr] Cons.prems(3) by simp
  have both: "unacknowledged m (e # es) \<longleftrightarrow> unacknowledged m [e] \<and> unacknowledged m es"
    by (auto simp: unacknowledged_def)
  show ?case
  proof (cases "unacknowledged m [e]")
    case True
    have "ledger_ok (ledger_of ?s)" "unat (c_nextMessageId ?s) + length es < 2 ^ 64"
      using ledger_ok_step [OF step] Cons.prems by auto
    moreover have "map_of (c_queries ?s) m = Some qr"
      using pending_step [OF step Cons.prems(1) True] Cons.prems(3) by simp
    ultimately show ?thesis using Cons.IH [of ?s] here both True by simp
  next
    case False
    then obtain d where e: "e = Receive d" "acknowledges d m" by (auto simp: unacknowledged_def)
    have "\<not> l_lockers (ledger_of ?s) (ar_locker qr)"
      unfolding e(1) confirmed_ledger [OF e(2) Cons.prems(3)] by (simp add: confirmed_def)
    with client_trace_start [of ?s eng consume it es] both False show ?thesis by auto
  qed
qed

lemma Client_publish_result:
  "fst (Client_publish p d ot s) = Inr r \<Longrightarrow> r = wait_for ot \<lparr>ar_locker = c_next_locker s\<rparr>"
  by (auto simp: Client_publish_def bind_def getNextId_def modify_def makeNewQResult_def Let_def ret_def
      split: prod.splits sum.splits)



end
