(* ===== verification/Client_Traffic.thy ===== *)
theory Client_Traffic
  imports Server_Traffic Client_Reliability
begin

text \<open>
  Everything a client can put on the wire in one event, also when the event fails: its login,
  messages that are in its pool afterwards, and requests with the identifier taken for them.
\<close>

section \<open>Frames\<close>

definition publish_frame :: "Publish \<Rightarrow> byte list \<Rightarrow> bool" where
  "publish_frame pb buf \<longleftrightarrow> of_kind PUBLISH buf \<and> Publish_read (framed buf) = Inr pb"

definition request_frame :: "u64 \<Rightarrow> byte list \<Rightarrow> bool" where
  "request_frame m buf \<longleftrightarrow>
     (\<exists>k \<in> {CREATE_QUEUE, SUBSCRIBE, UNSUBSCRIBE}. of_kind k buf \<and> request_id (framed buf) (kind_code k) = Inr m)"

definition login_frame :: "byte list \<Rightarrow> bool" where
  "login_frame buf \<longleftrightarrow> of_kind LOGIN buf \<and> (\<exists>q. Login_read (framed buf) = Inr q)"

lemma emits_Client_send:
  assumes "packed nd" and "ok (wire_bytes nd)"
  shows "emits c_outbox ok (Client_send nd)"
proof (rule emits_one)
  fix s
  show "c_outbox (snd (Client_send nd s)) = c_outbox s \<or> (\<exists>e. ok e \<and> c_outbox (snd (Client_send nd s)) = c_outbox s @ [e])"
  proof (cases "async_connection s")
    case (Some io)
    have buf: "fst (io_send nd io) = Inr (Some b) \<Longrightarrow> b = wire_bytes nd" for b
      using packed_buffer [OF assms(1)]
      by (auto simp: io_send_def bind_def lift_def modify_def ret_def split: option.splits bool.splits if_splits)
    obtain r io' where r: "io_send nd io = (r, io')" by fastforce
    show ?thesis
    proof (cases r)
      case (Inr ob)
      with Some r buf assms(2) show ?thesis by (cases ob) (simp_all add: Client_send_def ret_def)
    qed (use Some r in \<open>simp add: Client_send_def throw_def\<close>)
  qed (simp add: Client_send_def ret_def)
qed

lemma emits_publish_inner: "emits c_outbox (publish_frame pb) (publish_inner pb)"
proof (cases "Publish_toNetworkMessage pb")
  case (Inr nd)
  have p: "packed nd" using packed_Publish [OF Inr] .
  have "publish_frame pb (wire_bytes nd)"
    using of_kind_Publish [OF Inr] packed_wire [OF p] Publish_sent [OF Inr] by (simp add: publish_frame_def)
  from emits_Client_send [OF p, of "publish_frame pb", OF this] Inr show ?thesis by (simp add: publish_inner_def)
qed (simp add: publish_inner_def)

text \<open>The frames of the three other requests.\<close>

lemma request_frames:
  "CreateQueue_toNetworkMessage q = Inr nd \<Longrightarrow> packed nd \<and> request_frame (cq_msgId q) (wire_bytes nd)"
  "ChangeSubscribe_toNetworkMessage cs = Inr nd0 \<Longrightarrow> k \<in> {SUBSCRIBE, UNSUBSCRIBE} \<Longrightarrow>
     set_header_kind nd0 (kind_code k) = Inr nd \<Longrightarrow> packed nd \<and> request_frame (cs_msgId cs) (wire_bytes nd)"
proof -
  assume q: "CreateQueue_toNetworkMessage q = Inr nd"
  have p: "packed nd" using packed_CreateQueue [OF q] .
  then show "packed nd \<and> request_frame (cq_msgId q) (wire_bytes nd)"
    using packed_wire [OF p] CreateQueue_sent [OF q] by (simp add: request_frame_def of_kind_def request_id_def)
next
  let ?vs = "[StrV (cs_qname cs), StrV (cs_tag cs), u64V (cs_msgId cs)]"
  assume cs: "ChangeSubscribe_toNetworkMessage cs = Inr nd0" and k: "k \<in> {SUBSCRIBE, UNSUBSCRIBE}"
    and nd: "set_header_kind nd0 (kind_code k) = Inr nd"
  have small: "Scheme_capacity ?vs + 6 < 2 ^ 31"
    using change_subscribe.packed [of cs nd0] cs by (simp add: ChangeSubscribe_toNetworkMessage_def)
  have nd0: "nd0 = framed (frame (kind_code SUBSCRIBE) ?vs)"
    using change_subscribe.packed [of cs nd0] cs by (simp add: ChangeSubscribe_toNetworkMessage_def)
  then have nd': "nd = framed (frame (kind_code k) ?vs)" using nd by simp
  have "pack k ?vs = Inr nd" unfolding nd' using small by (intro pack_small [where ts = "[Str, Str, Pod 8]"]) simp_all
  then have p: "packed nd" unfolding packed_def by (intro exI [of _ k] exI [of _ ?vs] exI [of _ "[Str, Str, Pod 8]"]) simp
  have "header_kind nd = Inr (kind_code k)" unfolding nd' by simp
  moreover have "ChangeSubscribe_read nd = Inr cs"
    using change_subscribe.read_back [of cs "kind_code k"] small
      capacity_bounds_fields [of ?vs "[Str, Str, Pod 8]"] unfolding nd' ChangeSubscribe_read_def by simp
  ultimately show "packed nd \<and> request_frame (cs_msgId cs) (wire_bytes nd)"
    using p packed_wire [OF p] k by (auto simp: request_frame_def of_kind_def request_id_def)
qed

section \<open>Events\<close>

text \<open>What a client says in an event that takes it from \<open>c\<close> to \<open>c'\<close>.\<close>

definition may_say :: "client_event \<Rightarrow> ('re, 'a) client_scheme \<Rightarrow> ('re, 'a) client_scheme \<Rightarrow> byte list \<Rightarrow> bool" where
  "may_say e c c' buf \<longleftrightarrow>
     login_frame buf \<or>
     (\<exists>pb. publish_frame pb buf \<and> map_of (messagePool c') (p_messageId pb) = Some pb) \<or>
     requests e \<and> c_nextMessageId c' = c_nextMessageId c + 1 \<and> request_frame (c_nextMessageId c) buf"

definition says :: "client_event \<Rightarrow> ('re, 'a) client_scheme \<Rightarrow> ('re, 'a) client_scheme \<Rightarrow> bool" where
  "says e c c' \<longleftrightarrow> (\<exists>entries. c_outbox c' = c_outbox c @ entries \<and> list_all (may_say e c c') entries)"

lemma says_nothing: "c_outbox c' = c_outbox c \<Longrightarrow> says e c c'"
  by (simp add: says_def)

text \<open>The application's consumers do not send.\<close>

definition mute_consume :: "('re, 'a) client_scheme consume \<Rightarrow> bool" where
  "mute_consume consume \<longleftrightarrow> (\<forall>c p d i s. c_outbox (snd (consume c p d i s)) = c_outbox s)"

lemma mute_callConsumer:
  assumes "mute_consume consume"
  shows "c_outbox (snd (callConsumer eng consume p d i s)) = c_outbox s"
proof -
  let ?P = "\<lambda>t :: ('a, 'b) client_scheme. c_outbox t = c_outbox s"
  have consume: "preserves ?P (consume c p d i)" for c using assms by (simp add: mute_consume_def preserves_def)
  have at: "preserves ?P (eventHandler_at v)" for v by (simp add: preserves_def eventHandler_at_def)
  have tag: "preserves ?P (checkTag eng q t)" for q t
  proof (rule preservesI)
    fix s' :: "('a, 'b) client_scheme"
    assume "?P s'"
    then show "?P (snd (checkTag eng q t s'))" using checkTag_frame [of eng q t s'] by auto
  qed
  have loop: "preserves ?P (for_each ids (\<lambda>v. bind (eventHandler_at v) (\<lambda>es.
      bind (checkTag eng (snd es) (pub_tag p)) (\<lambda>b.
      if b then (case fst es of None \<Rightarrow> throw (Undef NullDereference) | Some h \<Rightarrow> consume h p d i) else ret ()))))" for ids
    using consume by (intro preserves_for_each preserves_bind at tag) (auto split: option.split)
  from preservesD [OF loop, of s] show ?thesis by (simp add: callConsumer_def ret_def split: option.split)
qed

lemma mute_receive:
  assumes "mute_consume consume"
  shows "c_outbox (snd (Client_onNewMessage eng consume d s)) = c_outbox s"
proof -
  have "c_outbox (snd (Client_on_PUBLISH eng consume d s)) = c_outbox s"
    using mute_callConsumer [OF assms]
    by (cases "Publish_read d") (auto simp: Client_on_PUBLISH_def throw_def split: option.split)
  moreover have "c_outbox (snd (Client_on_OK d s)) = c_outbox s"
    by (cases "Ok_read d") (auto simp: Client_on_OK_def throw_def ret_def split: option.split)
  moreover have "c_outbox (snd (Client_on_LOGIN_CONFIRM d s)) = c_outbox s"
    by (cases "LoginConfirm_read d") (auto simp: Client_on_LOGIN_CONFIRM_def throw_def modify_def)
  ultimately show ?thesis by (cases "header_kind d") (simp_all add: Client_onNewMessage_def throw_def)
qed

text \<open>The three requests.\<close>

lemma says_request:
  assumes "requests e" and "\<And>nd. f (c_nextMessageId s) = Inr nd \<Longrightarrow> packed nd \<and> request_frame (c_nextMessageId s) (wire_bytes nd)"
  shows "says e s (snd (bind getNextId (\<lambda>m. bind (lift (f m)) (\<lambda>nd.
     bind (makeNewQResult m) (\<lambda>qr. bind (Client_send nd) (\<lambda>_. ret (g qr))))) s))"
    (is "says e s ?s'")
proof (cases "f (c_nextMessageId s)")
  case (Inl e')
  then show ?thesis by (intro says_nothing) (simp add: bind_def [of getNextId] getNextId_def throw_def)
next
  case (Inr nd)
  let ?m = "c_nextMessageId s"
  let ?t = "s\<lparr>c_nextMessageId := ?m + 1, c_next_locker := Suc (c_next_locker s),
      c_queries := omap_put ?m \<lparr>ar_locker = c_next_locker s\<rparr> (c_queries s),
      c_lockers := (c_lockers s)(c_next_locker s := True)\<rparr>"
  have s': "?s' = snd (Client_send nd ?t)"
    by (simp add: bind_def [of getNextId] getNextId_def Inr bind_def [of "makeNewQResult _"] makeNewQResult_def Let_def)
  have "c_nextMessageId ?s' = ?m + 1"
    using arg_cong [OF ledger_send [of nd ?t], of l_next_id] unfolding s' by simp
  moreover from emitsD [OF emits_Client_send [where ok = "request_frame ?m"], of nd ?t] assms(2) [OF Inr]
  obtain es where "c_outbox ?s' = c_outbox s @ es" "list_all (request_frame ?m) es" unfolding s' by auto
  ultimately show ?thesis using assms(1) by (auto simp: says_def may_say_def list_all_iff)
qed

lemma says_createQueue: "says (Do_createQueue qs ot) s (snd (Client_createQueue qs ot s))"
  unfolding Client_createQueue_def
  using request_frames(1) [where q = "\<lparr>cq_name = qs_name qs, cq_msgId = c_nextMessageId s\<rparr>"]
  by (intro says_request) simp_all

lemma changes_frame:
  assumes "(case ChangeSubscribe_toNetworkMessage (mk_ChangeSubscribe p m) of
      Inl e \<Rightarrow> Inl e | Inr nd \<Rightarrow> set_header_kind nd (kind_code k)) = Inr nd" and "k \<in> {SUBSCRIBE, UNSUBSCRIBE}"
  shows "packed nd \<and> request_frame m (wire_bytes nd)"
  using assms request_frames(2) [where cs = "mk_ChangeSubscribe p m", OF _ assms(2)]
  by (auto simp: mk_ChangeSubscribe_def split: sum.splits simp del: kind_code.simps)

lemma says_unsubscribe: "says (Do_unsubscribe q ot) s (snd (Client_unsubscribe q ot s))"
  unfolding Client_unsubscribe_def bind_lift_lift
  by (intro says_request) (simp_all add: changes_frame del: kind_code.simps)

lemma addHandler_frame:
  assumes "addHandler p h a = (r, a0)"
  shows "async_connection a0 = async_connection a" "c_nextMessageId a0 = c_nextMessageId a"
    "c_next_locker a0 = c_next_locker a" "c_outbox a0 = c_outbox a"
  using assms by (auto simp: addHandler_def Let_def split: option.splits if_splits)

lemma says_subscribe: "says (Do_subscribe p h ot) s (snd (Client_subscribe p h ot s))"
proof -
  obtain r s0 where a: "addHandler p h s = (r, s0)" by fastforce
  note frame = addHandler_frame [OF a]
  show ?thesis
  proof (cases r)
    case (Inl e)
    with a frame show ?thesis by (intro says_nothing) (simp add: Client_subscribe_def bind_def)
  next
    case (Inr u)
    let ?s' = "snd (bind getNextId (\<lambda>m. bind (lift (case ChangeSubscribe_toNetworkMessage (mk_ChangeSubscribe p m) of
        Inl e \<Rightarrow> Inl e | Inr nd \<Rightarrow> set_header_kind nd (kind_code SUBSCRIBE))) (\<lambda>nd.
        bind (makeNewQResult m) (\<lambda>qr. bind (Client_send nd) (\<lambda>_. ret (wait_for ot qr))))) s0)"
    have "snd (Client_subscribe p h ot s) = ?s'"
      unfolding Client_subscribe_def bind_lift_lift by (simp add: bind_def [of "addHandler p h"] a Inr)
    moreover have "says (Do_subscribe p h ot) s0 ?s'"
      by (intro says_request) (simp_all add: changes_frame del: kind_code.simps)
    ultimately show ?thesis using frame by (simp add: says_def may_say_def [abs_def])
  qed
qed

text \<open>Publishing, and sending the pool again.\<close>

lemma says_publish:
  assumes "ledger_ok (ledger_of s)"
  shows "says (Do_publish p d ot) s (snd (Client_publish p d ot s))"
proof -
  let ?m = "c_nextMessageId s" and ?s' = "snd (Client_publish p d ot s)"
  let ?pb = "mk_Publish p d ?m"
  let ?t = "s\<lparr>c_nextMessageId := ?m + 1, messagePool := mp_append ?pb (messagePool s), c_next_locker := Suc (c_next_locker s),
      c_queries := omap_put ?m \<lparr>ar_locker = c_next_locker s\<rparr> (c_queries s),
      c_lockers := (c_lockers s)(c_next_locker s := True)\<rparr>"
  have s': "?s' = snd (publish_inner ?pb ?t)"
    by (simp add: Client_publish_def bind_def [of getNextId] getNextId_def bind_def [of "modify _"] modify_def
        bind_def [of "makeNewQResult _"] makeNewQResult_def Let_def)
  obtain es where "c_outbox ?s' = c_outbox s @ es" "list_all (publish_frame ?pb) es"
    using emitsD [OF emits_publish_inner, of ?pb ?t] unfolding s' by auto
  moreover have "map_of (messagePool ?s') ?m = Some ?pb"
    using arg_cong [OF ledger_publish [of p d ot s], of l_pool] ledger_fresh(3) [OF assms]
    by (simp add: opened_def mp_append_def)
  moreover have "p_messageId ?pb = ?m" by (simp add: mk_Publish_def)
  ultimately show ?thesis by (auto simp: says_def may_say_def list_all_iff)
qed

lemma emits_login: "emits c_outbox login_frame (bind (lift (Login_toNetworkMessage q)) Client_send)"
proof (cases "Login_toNetworkMessage q")
  case (Inr nd)
  have p: "packed nd" using packed_Login [OF Inr] .
  have "login_frame (wire_bytes nd)" using packed_wire [OF p] Login_sent [OF Inr] by (simp add: login_frame_def of_kind_def)
  from emits_Client_send [OF p, of login_frame, OF this] Inr show ?thesis by simp
qed simp

lemma says_onConnect:
  assumes "ledger_ok (ledger_of s)" and it: "\<And>es. mset (it es) = mset es"
  shows "says e s (snd (Client_onConnect it s))"
proof -
  let ?says = "\<lambda>buf. login_frame buf \<or> (\<exists>pb. publish_frame pb buf \<and> map_of (messagePool s) (p_messageId pb) = Some pb)"
  let ?s0 = "s\<lparr>loginConfirmed := False\<rparr>" and ?login = "Login_toNetworkMessage \<lparr>login_login = c_login s\<rparr>"
  have pool: "set (mp_all it (messagePool s)) = {pb. map_of (messagePool s) (p_messageId pb) = Some pb}"
    using message_pool.every_pending [OF memory_pool_laws [OF it]] ledger_okD(1) [OF assms(1)] by simp
  have again: "emits c_outbox ?says (for_each (mp_all it (messagePool s)) publish_inner)"
  proof (rule emits_for_each)
    fix pb
    assume "pb \<in> set (mp_all it (messagePool s))"
    then show "emits c_outbox ?says (publish_inner pb)"
      unfolding pool by (intro emits_mono [OF emits_publish_inner]) blast
  qed
  obtain r1 s1 where s1: "bind (lift ?login) Client_send ?s0 = (r1, s1)" by fastforce
  have "snd (bind (lift ?login) Client_send ?s0) = s1" using s1 by simp
  then have "ledger_of s1 = ledger_of s"
    using ledger_send [of _ ?s0] by (cases ?login) (auto simp: throw_def)
  then have "l_pool (ledger_of s1) = l_pool (ledger_of s)" by (simp only:)
  then have same: "messagePool s1 = messagePool s" by simp
  have "Client_onConnect it s = bind (bind (lift ?login) Client_send) (\<lambda>_ s. for_each (mp_all it (messagePool s)) publish_inner s) ?s0"
    by (simp add: Client_onConnect_def bind_def [of "modify _"] modify_def bind_assoc)
  then have run: "Client_onConnect it s = (case r1 of Inl e \<Rightarrow> (Inl e, s1) | Inr _ \<Rightarrow> for_each (mp_all it (messagePool s)) publish_inner s1)"
    by (simp add: bind_def [of "bind _ _"] s1 same split: sum.split)
  obtain es1 where es1: "c_outbox s1 = c_outbox s @ es1" "list_all ?says es1"
    using emitsD [OF emits_mono [OF emits_login, of ?says], of "\<lparr>login_login = c_login s\<rparr>" ?s0] s1 by auto
  obtain es2 where es2: "c_outbox (snd (Client_onConnect it s)) = c_outbox s1 @ es2" "list_all ?says es2"
    using emitsD [OF again, of s1] unfolding run by (cases r1) auto
  have "messagePool (snd (Client_onConnect it s)) = messagePool s"
    using arg_cong [OF ledger_onConnect [of it s], of l_pool] by (simp only: ledger_of_sel)
  with es1 es2 show ?thesis unfolding says_def may_say_def by (intro exI [of _ "es1 @ es2"]) (auto simp: list_all_iff)
qed

lemma client_exec_says:
  assumes "mute_consume consume" and it: "\<And>es. mset (it es) = mset es" and "ledger_ok (ledger_of s)"
  shows "says e s (snd (client_exec eng consume it e s))"
proof -
  have connect: "c_outbox (snd (async_connect at t)) = c_outbox t" for at and t :: "('a, 'b) client_scheme"
    by (auto simp: async_connect_def throw_def modify_def split: option.split)
  then have reconnect: "c_outbox (snd (reconnectOnError at t)) = c_outbox t" for at and t :: "('a, 'b) client_scheme"
    by (simp add: reconnectOnError_def Client_onNetworkError_def bind_def [of "modify _"] modify_def ret_def)
  show ?thesis
  proof (cases e)
    case (Connected ec at)
    let ?s = "s\<lparr>connecting := connecting s - 1, async_connection := Some (io_start AsyncIO), c_isConnected := True\<rparr>"
    have "says e ?s (snd (Client_onConnect it ?s))" using assms(3) by (intro says_onConnect [OF _ it]) simp
    with Connected reconnect [of at] show ?thesis
      by (cases ec) (simp_all add: on_connected_def bind_def [of "modify _"] modify_def says_def may_say_def [abs_def])
  qed (use says_createQueue says_subscribe says_unsubscribe says_publish [OF assms(3)] mute_receive [OF assms(1)] connect reconnect in
      \<open>simp_all add: says_nothing disconnect_def ret_def throw_def split: option.split\<close>)
qed

text \<open>A connected client hands the frame of the message to its socket.\<close>

lemma Client_publish_live:
  assumes "connected_by (async_connection a)" and "Publish_toNetworkMessage (mk_Publish p d (c_nextMessageId a)) = Inr nd"
    and "packed nd"
  shows "\<exists>c. Client_publish p d ot a =
    (Inr (wait_for ot \<lparr>ar_locker = c_next_locker a\<rparr>),
     a\<lparr>c_nextMessageId := c_nextMessageId a + 1,
       messagePool := mp_append (mk_Publish p d (c_nextMessageId a)) (messagePool a),
       c_next_locker := Suc (c_next_locker a),
       c_queries := omap_put (c_nextMessageId a) \<lparr>ar_locker = c_next_locker a\<rparr> (c_queries a),
       c_lockers := (c_lockers a)(c_next_locker a := True),
       async_connection := c, c_outbox := c_outbox a @ [wire_bytes nd]\<rparr>) \<and>
    connected_by c"
proof -
  let ?a = "a\<lparr>c_nextMessageId := c_nextMessageId a + 1,
       messagePool := mp_append (mk_Publish p d (c_nextMessageId a)) (messagePool a),
       c_next_locker := Suc (c_next_locker a),
       c_queries := omap_put (c_nextMessageId a) \<lparr>ar_locker = c_next_locker a\<rparr> (c_queries a),
       c_lockers := (c_lockers a)(c_next_locker a := True)\<rparr>"
  obtain c where "Client_send nd ?a = (Inr (), ?a\<lparr>async_connection := c, c_outbox := c_outbox a @ [wire_bytes nd]\<rparr>)"
    "connected_by c" using Client_send_live [of ?a nd] assms(1,3) by auto
  then show ?thesis
    by (intro exI [of _ c])
       (simp add: Client_publish_def bind_def getNextId_def modify_def makeNewQResult_def Let_def ret_def
          publish_inner_def lift_def assms(2))
qed

text \<open>The frame of a subscription: setting its kind once more does not change it.\<close>

lemma subscribe_frame:
  assumes "length (sub_queueName p) + length (sub_tag p) + 22 < 2 ^ 31"
  obtains nd where "ChangeSubscribe_toNetworkMessage (mk_ChangeSubscribe p m) = Inr nd" and "packed nd"
    and "set_header_kind nd (kind_code SUBSCRIBE) = Inr nd"
proof -
  let ?vs = "[StrV (sub_queueName p), StrV (sub_tag p), u64V m]"
  let ?nd = "framed (frame (kind_code SUBSCRIBE) ?vs)"
  have "pack SUBSCRIBE ?vs = Inr ?nd" using assms by (intro pack_small [where ts = "[Str, Str, Pod 8]"]) simp_all
  moreover from this have "packed ?nd"
    unfolding packed_def by (intro exI [of _ SUBSCRIBE] exI [of _ ?vs] exI [of _ "[Str, Str, Pod 8]"]) simp
  ultimately show thesis
    using that [of ?nd] by (simp add: ChangeSubscribe_toNetworkMessage_def mk_ChangeSubscribe_def)
qed

lemma Client_subscribe_run:
  assumes "connected_by (async_connection a)" and "addHandler p h a = (Inr (), a0)"
    and "length (sub_queueName p) + length (sub_tag p) + 22 < 2 ^ 31"
  shows "\<exists>nd c. ChangeSubscribe_toNetworkMessage (mk_ChangeSubscribe p (c_nextMessageId a)) = Inr nd \<and> packed nd \<and> connected_by c \<and>
    Client_subscribe p h ot a = (Inr (wait_for ot \<lparr>ar_locker = c_next_locker a\<rparr>),
      a0\<lparr>c_nextMessageId := c_nextMessageId a + 1, c_next_locker := Suc (c_next_locker a),
        c_queries := omap_put (c_nextMessageId a) \<lparr>ar_locker = c_next_locker a\<rparr> (c_queries a0),
        c_lockers := (c_lockers a0)(c_next_locker a := True), async_connection := c, c_outbox := c_outbox a @ [wire_bytes nd]\<rparr>)"
proof -
  obtain nd where nd: "ChangeSubscribe_toNetworkMessage (mk_ChangeSubscribe p (c_nextMessageId a)) = Inr nd" "packed nd"
    "set_header_kind nd (kind_code SUBSCRIBE) = Inr nd"
    using subscribe_frame [OF assms(3)] .
  let ?a = "a0\<lparr>c_nextMessageId := c_nextMessageId a + 1, c_next_locker := Suc (c_next_locker a),
     c_queries := omap_put (c_nextMessageId a) \<lparr>ar_locker = c_next_locker a\<rparr> (c_queries a0),
     c_lockers := (c_lockers a0)(c_next_locker a := True)\<rparr>"
  obtain c where "Client_send nd ?a = (Inr (), ?a\<lparr>async_connection := c, c_outbox := c_outbox a @ [wire_bytes nd]\<rparr>)"
    and c: "connected_by c"
    using Client_send_live [of ?a nd] assms(1) nd(2) addHandler_frame [OF assms(2)] by auto
  then have "Client_subscribe p h ot a = (Inr (wait_for ot \<lparr>ar_locker = c_next_locker a\<rparr>),
      ?a\<lparr>async_connection := c, c_outbox := c_outbox a @ [wire_bytes nd]\<rparr>)"
    using nd addHandler_frame [OF assms(2)]
    by (simp add: Client_subscribe_def bind_def assms(2) getNextId_def lift_def makeNewQResult_def Let_def ret_def
        del: kind_code.simps)
  with nd c show ?thesis by (intro exI [of _ nd] exI [of _ c]) simp
qed

lemma Client_subscribe_live:
  assumes "connected_by (async_connection a)" and "addHandler p h a = (Inr (), a0)"
    and "length (sub_queueName p) + length (sub_tag p) + 22 < 2 ^ 31"
  obtains a' nd where "Client_subscribe p h ot a = (Inr (wait_for ot \<lparr>ar_locker = c_next_locker a\<rparr>), a')"
    and "ChangeSubscribe_toNetworkMessage (mk_ChangeSubscribe p (c_nextMessageId a)) = Inr nd" and "packed nd"
    and "c_outbox a' = c_outbox a @ [wire_bytes nd]"
    and "map_of (c_queries a') (c_nextMessageId a) = Some \<lparr>ar_locker = c_next_locker a\<rparr>"
    and "connected_by (async_connection a')"
  using Client_subscribe_run [OF assms, of ot] by fastforce

end
