(* ===== verification/System.thy ===== *)
theory System
  imports Client_Traffic
begin

text \<open>
  A server and any number of clients, with messages on their way in both directions, as one
  transition system. The channels hold whole messages: that a byte stream between two connections
  is such a channel, however it is cut, is shown in \<open>Async_IO\<close>. Clients call, connections are made
  and lost, the server and the clients handle what has arrived, in any order.

  \<open>handled\<close>, \<open>published\<close>, \<open>announced\<close> and \<open>issued\<close> record what happened, for the statements below: the
  messages the server has handled without an error, the messages each client has published by
  their identifiers, those the server's own application has published, and the identifiers each
  client has registered an operation for.
\<close>

section \<open>The system\<close>

record 're system =
  srv :: "'re server"
  client_at :: "nat \<Rightarrow> 're client"
  current :: "nat \<Rightarrow> Id option"
  peer :: "Id \<Rightarrow> nat option"
  up :: "Id \<Rightarrow> network_message list"
  down :: "Id \<Rightarrow> network_message list"
  refused :: "Id set"
  deaf :: "Id set"
  handled :: "(Id \<times> network_message) list"
  published :: "nat \<Rightarrow> u64 \<Rightarrow> Publish option"
  announced :: "(PublishParams \<times> byte list) set"
  issued :: "nat \<Rightarrow> u64 set"

definition fresh_system :: "(nat \<Rightarrow> string) \<Rightarrow> (nat \<Rightarrow> bool) \<Rightarrow> 're system" where
  "fresh_system login auto =
     \<lparr>srv = started, client_at = (\<lambda>k. Client (login k) (auto k)), current = (\<lambda>_. None), peer = (\<lambda>_. None),
      up = (\<lambda>_. []), down = (\<lambda>_. []), refused = {}, deaf = {}, handled = [], published = (\<lambda>_ _. None),
      announced = {}, issued = (\<lambda>_. {})\<rparr>"

primrec log_call :: "client_event \<Rightarrow> u64 \<Rightarrow> (u64 \<Rightarrow> Publish option) \<Rightarrow> (u64 \<Rightarrow> Publish option)" where
  "log_call (Do_publish p d ot) m pl = pl(m \<mapsto> mk_Publish p d m)"
| "log_call (Do_createQueue qs ot) m pl = pl"
| "log_call (Do_subscribe p h ot) m pl = pl"
| "log_call (Do_unsubscribe q ot) m pl = pl"
| "log_call (Receive d) m pl = pl"
| "log_call (Connect_attempt at) m pl = pl"
| "log_call (Connected ec at) m pl = pl"
| "log_call (Failed at) m pl = pl"
| "log_call Do_disconnect m pl = pl"

text \<open>Client \<open>k\<close> goes to \<open>c\<close>, and what it wrote goes to its current connection, if it has one.\<close>

definition client_does :: "nat \<Rightarrow> client_event \<Rightarrow> 're client \<Rightarrow> 're system \<Rightarrow> 're system" where
  "client_does k e c s = s
     \<lparr>client_at := (client_at s)(k := c),
      up := (case current s k of None \<Rightarrow> up s
             | Some i \<Rightarrow> (up s)(i := up s i @ map framed (drop (length (c_outbox (client_at s k))) (c_outbox c)))),
      published := (published s)(k := log_call e (c_nextMessageId (client_at s k)) (published s k)),
      issued := (issued s)(k := issued s k \<union> dom (map_of (c_queries c)))\<rparr>"

text \<open>The server goes to \<open>sv\<close>, and what it wrote to a connection is on its way to the client there.\<close>

definition server_does :: "'re server \<Rightarrow> 're system \<Rightarrow> 're system" where
  "server_does sv s = s
     \<lparr>srv := sv,
      down := (\<lambda>i. down s i @ map (framed \<circ> snd) (filter (\<lambda>e. fst e = i) (drop (length (outbox (srv s))) (outbox sv))))\<rparr>"

text \<open>Events of one side that need nothing from the other.\<close>

fun own_client_event :: "client_event \<Rightarrow> bool" where
  "own_client_event (Receive d) \<longleftrightarrow> False"
| "own_client_event (Connected ec at) \<longleftrightarrow> ec"
| "own_client_event _ \<longleftrightarrow> True"

fun own_server_event :: "server_event \<Rightarrow> bool" where
  "own_server_event (Accept r) \<longleftrightarrow> r \<noteq> Accepted"
| "own_server_event (Message i d) \<longleftrightarrow> False"
| "own_server_event (Network_error i) \<longleftrightarrow> False"
| "own_server_event _ \<longleftrightarrow> True"

primrec local_publications :: "server_event \<Rightarrow> (PublishParams \<times> byte list) set" where
  "local_publications (Accept r) = {}"
| "local_publications (Message i nd) = {}"
| "local_publications (Network_error i) = {}"
| "local_publications (Local_create qs) = {}"
| "local_publications (Local_subscribe p h) = {}"
| "local_publications (Local_unsubscribe q) = {}"
| "local_publications (Local_publish p d) = {(p, d)}"

text \<open>
  The steps. A message whose handler throws is the last one read from its connection (\<open>refused\<close>,
  \<open>deaf\<close>). A connection that is lost loses what is on its way; its client notices when it gets its
  own error event.
\<close>

inductive sys_step ::
  "'re engine \<Rightarrow> 're server consume \<Rightarrow> (nat \<Rightarrow> 're client consume) \<Rightarrow> ((u64 \<times> Publish) list \<Rightarrow> (u64 \<times> Publish) list) \<Rightarrow>
   're system \<Rightarrow> 're system \<Rightarrow> bool" for eng sc cc it where
  call: "own_client_event e \<Longrightarrow>
    sys_step eng sc cc it s (client_does k e (snd (client_exec eng (cc k) it e (client_at s k))) s)"
| join: "accepting (srv s) \<Longrightarrow> scast (next_id (srv s)) = i \<Longrightarrow> peer s i = None \<Longrightarrow>
    sys_step eng sc cc it s
      (client_does k (Connected False at) (snd (client_exec eng (cc k) it (Connected False at) (client_at s k)))
        (server_does (snd (handle_accept Accepted (srv s)))
          (s\<lparr>peer := (peer s)(i \<mapsto> k), current := (current s)(k \<mapsto> i), up := (up s)(i := []), down := (down s)(i := [])\<rparr>)))"
| serve: "up s i = nd # rest \<Longrightarrow> i \<notin> refused s \<Longrightarrow> find_connection i (srv s) \<noteq> None \<Longrightarrow>
    onNewMessage eng sc i nd (srv s) = (r, sv) \<Longrightarrow>
    sys_step eng sc cc it s
      (server_does sv
        (s\<lparr>up := (up s)(i := rest), handled := handled s @ (if r = Inr () then [(i, nd)] else []),
           refused := (if r = Inr () then refused s else insert i (refused s))\<rparr>))"
| deliver: "down s i = nd # rest \<Longrightarrow> i \<notin> deaf s \<Longrightarrow> peer s i = Some k \<Longrightarrow>
    client_exec eng (cc k) it (Receive nd) (client_at s k) = (r, c) \<Longrightarrow>
    sys_step eng sc cc it s
      (client_does k (Receive nd) c
        (s\<lparr>down := (down s)(i := rest), deaf := (if \<exists>e. r = Inl e then insert i (deaf s) else deaf s)\<rparr>))"
| lose: "peer s i = Some k \<Longrightarrow>
    sys_step eng sc cc it s
      (server_does (snd (connection_close i (srv s)))
        (s\<lparr>up := (up s)(i := []), down := (down s)(i := []), current := (current s)(k := (if current s k = Some i then None else current s k))\<rparr>))"
| internal: "own_server_event e \<Longrightarrow>
    sys_step eng sc cc it s
      (server_does (snd (server_exec eng sc e (srv s))) (s\<lparr>announced := announced s \<union> local_publications e\<rparr>))"

inductive reachable ::
  "'re engine \<Rightarrow> 're server consume \<Rightarrow> (nat \<Rightarrow> 're client consume) \<Rightarrow> ((u64 \<times> Publish) list \<Rightarrow> (u64 \<times> Publish) list) \<Rightarrow>
   nat \<Rightarrow> 're system \<Rightarrow> bool" for eng sc cc it where
  start: "reachable eng sc cc it 0 (fresh_system login auto)"
| step: "reachable eng sc cc it n s \<Longrightarrow> sys_step eng sc cc it s s' \<Longrightarrow> reachable eng sc cc it (Suc n) s'"

end
