(* ===== verification/System_Invariant.thy ===== *)
theory System_Invariant
  imports System
begin

text \<open>
  The invariant of the system of \<open>System\<close> and the proof that every step keeps it: messages on their way
  to the server are what their client says they are, confirmations on their way to a client are for
  requests the server has handled, messages on their way to a client have been published, and
  nothing a client has published or asked for is lost.
\<close>

section \<open>One client\<close>

text \<open>A message from a client with the given counter and publications is honest if it asks only for
  identifiers the client has used, and, for the identifier of a publication, with that publication;
  and if it is a publication, the client has made it.\<close>

definition honest :: "u64 \<Rightarrow> (u64 \<Rightarrow> Publish option) \<Rightarrow> network_message \<Rightarrow> bool" where
  "honest nid pl nd \<longleftrightarrow>
     (\<forall>m. asks_for nd m \<longrightarrow> m < nid \<and>
        (\<forall>pb. pl m = Some pb \<longrightarrow> header_kind nd = Inr (kind_code PUBLISH) \<and> Publish_read nd = Inr pb)) \<and>
     (header_kind nd = Inr (kind_code PUBLISH) \<longrightarrow> (\<forall>pb. Publish_read nd = Inr pb \<longrightarrow> pl (p_messageId pb) = Some pb))"

definition client_inv :: "nat \<Rightarrow> 're client \<Rightarrow> (u64 \<Rightarrow> Publish option) \<Rightarrow> bool" where
  "client_inv n c pl \<longleftrightarrow>
     ledger_ok (ledger_of c) \<and> unat (c_nextMessageId c) \<le> n \<and>
     (\<forall>m. pl m \<noteq> None \<longrightarrow> m < c_nextMessageId c) \<and> map_of (messagePool c) \<subseteq>\<^sub>m pl"

lemma asks_for_request: "request_frame m buf \<Longrightarrow> asks_for (framed buf) m' \<Longrightarrow> m' = m"
  by (auto simp: request_frame_def of_kind_def asks_for_def)

lemma asks_for_publish:
  assumes "publish_frame pb buf"
  shows "asks_for (framed buf) m \<Longrightarrow> m = p_messageId pb" and "header_kind (framed buf) = Inr (kind_code PUBLISH)"
    and "Publish_read (framed buf) = Inr pb"
  using assms by (auto simp: publish_frame_def of_kind_def asks_for_def request_id_def)

lemma asks_for_login: "login_frame buf \<Longrightarrow> \<not> asks_for (framed buf) m"
  by (auto simp: login_frame_def of_kind_def asks_for_def)

text \<open>The messages a server expects, with a body it can read.\<close>

definition request_type :: "network_message \<Rightarrow> bool" where
  "request_type nd \<longleftrightarrow>
     header_kind nd = Inr (kind_code LOGIN) \<and> (\<exists>q. Login_read nd = Inr q) \<or>
     header_kind nd = Inr (kind_code CREATE_QUEUE) \<and> (\<exists>q. CreateQueue_read nd = Inr q) \<or>
     header_kind nd = Inr (kind_code SUBSCRIBE) \<and> (\<exists>q. ChangeSubscribe_read nd = Inr q) \<or>
     header_kind nd = Inr (kind_code UNSUBSCRIBE) \<and> (\<exists>q. ChangeSubscribe_read nd = Inr q) \<or>
     header_kind nd = Inr (kind_code PUBLISH) \<and> (\<exists>q. Publish_read nd = Inr q)"

lemma map_sum_Inr_iff: "map_sum id f r = Inr m \<longleftrightarrow> (\<exists>q. r = Inr q \<and> f q = m)"
  by (cases r) simp_all

lemma request_type_said:
  assumes "may_say e c c' buf"
  shows "request_type (framed buf)"
  using assms
  by (auto simp: may_say_def login_frame_def publish_frame_def request_frame_def request_type_def of_kind_def request_id_def
      map_sum_Inr_iff)

lemma honest_mono:
  assumes "honest nid pl nd" and "nid \<le> nid'" and "\<And>m. m < nid \<Longrightarrow> pl' m = pl m"
  shows "honest nid' pl' nd"
proof -
  have "asks_for nd (p_messageId pb)" if "header_kind nd = Inr (kind_code PUBLISH)" "Publish_read nd = Inr pb" for pb
    using that by (intro asks_forI [OF that(1)]) (simp_all add: request_id_def)
  moreover have "m < nid' \<and> pl' m = pl m" if "asks_for nd m" for m
    using that assms unfolding honest_def by (meson order_less_le_trans)
  ultimately show ?thesis using assms(1) by (simp add: honest_def)
qed

text \<open>What one event does to the ledger and the publications.\<close>

lemma ledger_step_log:
  assumes "ledger_step e l l'" and "ledger_ok l" and "unat (l_next_id l) + 1 < 2 ^ 64"
  shows "l_next_id l \<le> l_next_id l'" and "m < l_next_id l \<Longrightarrow> log_call e (l_next_id l) pl m = pl m"
    and "log_call e (l_next_id l) pl m \<noteq> pl m \<Longrightarrow>
      m < l_next_id l' \<and> map_of (l_pool l') m = log_call e (l_next_id l) pl m"
    and "map_of (l_pool l') m = Some pb \<Longrightarrow> map_of (l_pool l) m = Some pb \<or> log_call e (l_next_id l) pl m = Some pb"
    and "map_of (l_pool l') m = None \<Longrightarrow> map_of (l_pool l) m = Some pb \<Longrightarrow> \<exists>d. e = Receive d \<and> acknowledges d m"
    and "map_of (l_queries l') m = None \<Longrightarrow> map_of (l_queries l) m = Some qr \<Longrightarrow> \<exists>d. e = Receive d \<and> acknowledges d m"
    and "map_of (l_queries l) m = None \<Longrightarrow> map_of (l_queries l') m = Some qr \<Longrightarrow> m = l_next_id l"
proof -
  have less: "l_next_id l < l_next_id l + 1"
    using assms(3) by (intro word_less_plus1) (simp add: word_less_nat_alt unsigned_minus_1_eq_mask mask_eq_exp_minus_1)
  note fresh = ledger_fresh [OF assms(2)]
  show "l_next_id l \<le> l_next_id l'" using assms(1) less by (elim ledger_stepE) auto
  show "m < l_next_id l \<Longrightarrow> log_call e (l_next_id l) pl m = pl m" by (cases e) auto
  show "m < l_next_id l' \<and> map_of (l_pool l') m = log_call e (l_next_id l) pl m" if "log_call e (l_next_id l) pl m \<noteq> pl m"
  proof -
    from that obtain p d ot where e: "e = Do_publish p d ot" by (cases e) auto
    with that have "m = l_next_id l" by (auto split: if_splits)
    moreover have "l' = opened (Some (mk_Publish p d (l_next_id l))) l"
      using assms(1) unfolding e by (elim ledger_stepE) auto
    ultimately show ?thesis using e less fresh(3) by (simp add: opened_def mp_append_def)
  qed
  show "map_of (l_pool l) m = Some pb \<or> log_call e (l_next_id l) pl m = Some pb" if "map_of (l_pool l') m = Some pb"
    using assms(1) that by (elim ledger_stepE) (auto simp: bump_def opened_def confirmed_def mp_append_def mp_erase_def delete_conv' mk_Publish_def split: if_splits)
  show "\<exists>d. e = Receive d \<and> acknowledges d m" if "map_of (l_pool l') m = None" "map_of (l_pool l) m = Some pb"
    using assms(1) that by (elim ledger_stepE) (auto simp: bump_def opened_def confirmed_def mp_append_def mp_erase_def delete_conv' split: if_splits)
  show "\<exists>d. e = Receive d \<and> acknowledges d m" if "map_of (l_queries l') m = None" "map_of (l_queries l) m = Some qr"
    using assms(1) that by (elim ledger_stepE) (auto simp: bump_def opened_def confirmed_def delete_conv' split: if_splits)
  show "m = l_next_id l" if "map_of (l_queries l) m = None" "map_of (l_queries l') m = Some qr"
    using assms(1) that by (elim ledger_stepE) (auto simp: bump_def opened_def confirmed_def delete_conv' split: if_splits)
qed

lemma client_inv_step:
  fixes c :: "'re client" and eng e
  assumes "quiet_consume consume" and "mute_consume consume" and it: "\<And>es. mset (it es) = mset es"
    and inv: "client_inv n c pl" and n: "Suc n < 2 ^ 64"
  defines "c' \<equiv> snd (client_exec eng consume it e c)"
  defines "pl' \<equiv> log_call e (c_nextMessageId c) pl"
  shows "client_inv (Suc n) c' pl'"
    and "honest (c_nextMessageId c) pl nd \<Longrightarrow> honest (c_nextMessageId c') pl' nd"
    and "\<exists>es. c_outbox c' = c_outbox c @ es \<and> (\<forall>buf \<in> set es. honest (c_nextMessageId c') pl' (framed buf) \<and> request_type (framed buf))"
proof -
  note step = client_exec_ledger [OF assms(1), of e c eng it, folded c'_def]
  have ok: "ledger_ok (ledger_of c)" and small: "unat (l_next_id (ledger_of c)) + 1 < 2 ^ 64"
    and used: "\<And>m. pl m \<noteq> None \<Longrightarrow> m < c_nextMessageId c" and pool: "map_of (messagePool c) \<subseteq>\<^sub>m pl"
    using inv n by (auto simp: client_inv_def)
  note log = ledger_step_log(1) [OF step ok small, unfolded ledger_of_sel]
    ledger_step_log(2-4) [OF step ok small, unfolded ledger_of_sel, where pl = pl, folded pl'_def]
  have ok': "ledger_ok (ledger_of c')" "unat (c_nextMessageId c') \<le> unat (c_nextMessageId c) + 1"
    using ledger_ok_step [OF step ok small] by simp_all
  have old: "pl' m = Some pb" if "pl m = Some pb" for m pb using log(2) [of m] used [of m] that by simp
  have used': "m < c_nextMessageId c'" if "pl' m \<noteq> None" for m
    using that used [of m] log(1) log(3) [of m] by (cases "pl' m = pl m") auto
  have pool': "pl' m = Some pb" if "map_of (messagePool c') m = Some pb" for m pb
    using log(4) [OF that] old pool by (auto simp: map_le_def dom_def)
  show "client_inv (Suc n) c' pl'"
    using ok' inv used' pool' by (auto simp: client_inv_def map_le_def)
  show "honest (c_nextMessageId c) pl nd \<Longrightarrow> honest (c_nextMessageId c') pl' nd"
    using honest_mono log(1,2) by blast
  have "honest (c_nextMessageId c') pl' (framed buf)" if say: "may_say e c c' buf" for buf
    using say unfolding may_say_def
  proof (elim disjE exE conjE)
    assume "login_frame buf"
    then show ?thesis by (auto simp: honest_def asks_for_login login_frame_def of_kind_def)
  next
    fix pb
    assume frame: "publish_frame pb buf" and "map_of (messagePool c') (p_messageId pb) = Some pb"
    then have "pl' (p_messageId pb) = Some pb" by (intro pool')
    then show ?thesis
      using asks_for_publish [OF frame] used' [of "p_messageId pb"] by (auto simp: honest_def)
  next
    assume e: "requests e" and next_id: "c_nextMessageId c' = c_nextMessageId c + 1" and frame: "request_frame (c_nextMessageId c) buf"
    have "pl' = pl" using e by (cases e) (simp_all add: pl'_def)
    then have "pl' (c_nextMessageId c) = None" using used by fastforce
    moreover have "c_nextMessageId c < c_nextMessageId c'"
      using log(1) next_id by (simp add: order_less_le)
    ultimately show ?thesis using asks_for_request [OF frame] frame by (auto simp: honest_def request_frame_def of_kind_def)
  qed
  with client_exec_says [OF assms(2) it ok, of e eng] show
    "\<exists>es. c_outbox c' = c_outbox c @ es \<and> (\<forall>buf \<in> set es. honest (c_nextMessageId c') pl' (framed buf) \<and> request_type (framed buf))"
    using request_type_said unfolding c'_def says_def list_all_iff by blast
qed

section \<open>The invariant\<close>

text \<open>The server has handled, on a connection of client \<open>k\<close>, a request for the identifier; a publication.\<close>

definition executed :: "'re system \<Rightarrow> nat \<Rightarrow> u64 \<Rightarrow> bool" where
  "executed s k m \<longleftrightarrow> (\<exists>i nd. (i, nd) \<in> set (handled s) \<and> peer s i = Some k \<and> asks_for nd m)"

definition received :: "'re system \<Rightarrow> nat \<Rightarrow> Publish \<Rightarrow> bool" where
  "received s k pb \<longleftrightarrow> (\<exists>i nd. (i, nd) \<in> set (handled s) \<and> peer s i = Some k \<and>
     header_kind nd = Inr (kind_code PUBLISH) \<and> Publish_read nd = Inr pb)"

text \<open>Messages on their way to the server, and the handled ones, are honest; a confirmation on its way
  to a client is for a request handled on the same connection; and what has been published is in
  the pool or received.\<close>

definition wires_honest :: "'re system \<Rightarrow> bool" where
  "wires_honest s \<longleftrightarrow> (\<forall>i nd. nd \<in> set (up s i) \<or> (i, nd) \<in> set (handled s) \<longrightarrow>
     (\<exists>k. peer s i = Some k \<and> honest (c_nextMessageId (client_at s k)) (published s k) nd))"

definition confirmations_true :: "'re system \<Rightarrow> bool" where
  "confirmations_true s \<longleftrightarrow> (\<forall>i nd m. nd \<in> set (down s i) \<longrightarrow> acknowledges nd m \<longrightarrow>
     (\<exists>nd0. (i, nd0) \<in> set (handled s) \<and> asks_for nd0 m))"

text \<open>Every message on its way to a client has been published, with the same parameters and data.\<close>

definition origin :: "'re system \<Rightarrow> PublishParams \<Rightarrow> byte list \<Rightarrow> bool" where
  "origin s p d \<longleftrightarrow> (p, d) \<in> announced s \<or> (\<exists>k m. published s k m = Some (mk_Publish p d m))"

definition messages_genuine :: "'re system \<Rightarrow> bool" where
  "messages_genuine s \<longleftrightarrow> (\<forall>i nd q. nd \<in> set (down s i) \<longrightarrow> header_kind nd = Inr (kind_code PUBLISH) \<longrightarrow>
     Publish_read nd = Inr q \<longrightarrow> origin s (toPublishParams q) (p_data q))"

definition wires_typed :: "'re system \<Rightarrow> bool" where
  "wires_typed s \<longleftrightarrow> (\<forall>i. list_all request_type (up s i) \<and> list_all reply_type (down s i))"

definition nothing_lost :: "'re system \<Rightarrow> bool" where
  "nothing_lost s \<longleftrightarrow>
     (\<forall>k m pb. published s k m = Some pb \<longrightarrow> map_of (messagePool (client_at s k)) m = Some pb \<or> received s k pb) \<and>
     (\<forall>k m. m \<in> issued s k \<longrightarrow> map_of (c_queries (client_at s k)) m \<noteq> None \<or> executed s k m)"

definition sys_inv :: "nat \<Rightarrow> 're system \<Rightarrow> bool" where
  "sys_inv n s \<longleftrightarrow>
     (\<forall>k. client_inv n (client_at s k) (published s k)) \<and>
     (\<forall>k i. current s k = Some i \<longrightarrow> peer s i = Some k) \<and>
     wires_honest s \<and> confirmations_true s \<and> nothing_lost s \<and> messages_genuine s \<and> wires_typed s"

lemma sys_invD:
  assumes "sys_inv n s"
  shows "client_inv n (client_at s k) (published s k)" "current s k = Some i \<Longrightarrow> peer s i = Some k"
    "wires_honest s" "confirmations_true s" "nothing_lost s" "messages_genuine s" "wires_typed s"
  using assms by (auto simp: sys_inv_def)

lemma client_inv_Suc: "client_inv n c pl \<Longrightarrow> client_inv (Suc n) c pl"
  by (auto simp: client_inv_def)

lemma sys_inv_Suc: "sys_inv n s \<Longrightarrow> sys_inv (Suc n) s"
  by (auto simp: sys_inv_def client_inv_Suc)

lemma sys_inv_start: "sys_inv 0 (fresh_system login auto)"
  by (auto simp: sys_inv_def fresh_system_def client_inv_def ledger_start wires_honest_def confirmations_true_def nothing_lost_def messages_genuine_def wires_typed_def)
     (simp_all add: Client_def mp_create_def)

section \<open>Every step keeps the invariant\<close>

lemma honest_sender:
  assumes "wires_honest s" and "(i, nd) \<in> set (handled s)" and "peer s i = Some k" and "asks_for nd m"
  shows "m < c_nextMessageId (client_at s k)" and "published s k m = Some pb \<Longrightarrow> received s k pb"
  using assms unfolding wires_honest_def honest_def received_def by force+

lemma nothing_lostD:
  assumes "nothing_lost s"
  shows "published s k m = Some pb \<Longrightarrow> map_of (messagePool (client_at s k)) m = Some pb \<or> received s k pb"
    and "m \<in> issued s k \<Longrightarrow> map_of (c_queries (client_at s k)) m \<noteq> None \<or> executed s k m"
  using assms by (simp_all add: nothing_lost_def del: not_None_eq)

lemma client_inv_bounds:
  "client_inv n c pl \<Longrightarrow> Suc n < 2 ^ 64 \<Longrightarrow> ledger_ok (ledger_of c) \<and> unat (l_next_id (ledger_of c)) + 1 < 2 ^ 64"
  by (auto simp: client_inv_def)

text \<open>In an event of client \<open>k\<close>, a message leaves the pool and an operation is finished only by a
  confirmation, so after the server has handled it.\<close>

lemma pool_or_received:
  fixes s :: "'re system" and eng it e consume k
  defines "c' \<equiv> snd (client_exec eng consume it e (client_at s k))"
  assumes "quiet_consume consume" and inv: "sys_inv n s" and n: "Suc n < 2 ^ 64"
    and ack: "\<And>d m. e = Receive d \<Longrightarrow> acknowledges d m \<Longrightarrow> executed s k m"
    and pool: "map_of (messagePool c') \<subseteq>\<^sub>m log_call e (c_nextMessageId (client_at s k)) (published s k)"
    and pub: "log_call e (c_nextMessageId (client_at s k)) (published s k) m = Some pb"
  shows "map_of (messagePool c') m = Some pb \<or> received s k pb"
proof (cases "published s k m = Some pb")
  case True
  have ok: "ledger_ok (ledger_of (client_at s k))" and small: "unat (l_next_id (ledger_of (client_at s k))) + 1 < 2 ^ 64"
    using client_inv_bounds [OF sys_invD(1) [OF inv] n] by auto
  note gone = ledger_step_log(5) [OF client_exec_ledger [OF assms(2), of e _ eng it] ok small, unfolded ledger_of_sel, folded c'_def]
  show ?thesis
  proof (cases "map_of (messagePool c') m")
    case (Some pb')
    with pool pub show ?thesis by (auto simp: map_le_def dom_def)
  next
    case None
    show ?thesis
    proof (cases "map_of (messagePool (client_at s k)) m = Some pb")
      case inside: True
      from gone [OF None inside] ack have "executed s k m" by blast
      with honest_sender(2) [OF sys_invD(3) [OF inv]] True show ?thesis unfolding executed_def by blast
    qed (use nothing_lostD(1) [OF sys_invD(5) [OF inv] True] in blast)
  qed
next
  case False
  have ok: "ledger_ok (ledger_of (client_at s k))" and small: "unat (l_next_id (ledger_of (client_at s k))) + 1 < 2 ^ 64"
    using client_inv_bounds [OF sys_invD(1) [OF inv] n] by auto
  from ledger_step_log(3) [OF client_exec_ledger [OF assms(2), of e _ eng it] ok small, unfolded ledger_of_sel, folded c'_def,
      where pl = "published s k" and m = m] False pub
  show ?thesis by auto
qed

lemma pending_or_executed:
  fixes s :: "'re system" and eng it e consume k
  assumes "quiet_consume consume" and inv: "sys_inv n s" and n: "Suc n < 2 ^ 64"
    and ack: "\<And>d m. e = Receive d \<Longrightarrow> acknowledges d m \<Longrightarrow> executed s k m" and "m \<in> issued s k"
  shows "map_of (c_queries (snd (client_exec eng consume it e (client_at s k)))) m \<noteq> None \<or> executed s k m"
proof -
  have ok: "ledger_ok (ledger_of (client_at s k))" and small: "unat (l_next_id (ledger_of (client_at s k))) + 1 < 2 ^ 64"
    using client_inv_bounds [OF sys_invD(1) [OF inv] n] by auto
  note gone = ledger_step_log(6) [OF client_exec_ledger [OF assms(1), of e _ eng it] ok small, unfolded ledger_of_sel]
  from nothing_lostD(2) [OF sys_invD(5) [OF inv] assms(5)] consider qr where "map_of (c_queries (client_at s k)) m = Some qr"
    | "executed s k m" by blast
  then show ?thesis using gone [of m] ack by cases blast+
qed

lemma log_call_other: "m \<noteq> i \<Longrightarrow> log_call e i pl m = pl m"
  by (cases e) simp_all

lemma messages_genuine_mono:
  assumes "messages_genuine s" and "announced s \<subseteq> announced s'" and "\<And>i. set (down s' i) \<subseteq> set (down s i)"
    and "\<And>k m pb. published s k m = Some pb \<Longrightarrow> published s' k m = Some pb"
  shows "messages_genuine s'"
proof -
  have "origin s p d \<Longrightarrow> origin s' p d" for p d using assms(2,4) unfolding origin_def by blast
  with assms(1,3) show ?thesis unfolding messages_genuine_def by blast
qed

lemma sys_inv_client:
  fixes s :: "'re system" and eng e
  assumes "quiet_consume consume" and "mute_consume consume" and it: "\<And>es. mset (it es) = mset es"
    and inv: "sys_inv n s" and n: "Suc n < 2 ^ 64"
    and ack: "\<And>d m. e = Receive d \<Longrightarrow> acknowledges d m \<Longrightarrow> executed s k m"
  shows "sys_inv (Suc n) (client_does k e (snd (client_exec eng consume it e (client_at s k))) s)"
proof -
  let ?c = "client_at s k" and ?c' = "snd (client_exec eng consume it e (client_at s k))"
  let ?pl' = "log_call e (c_nextMessageId (client_at s k)) (published s k)"
  let ?s' = "client_does k e ?c' s"
  note one = client_inv_step [OF assms(1,2) it sys_invD(1) [OF inv, of k] n, where eng = eng and e = e]
  have same [simp]: "peer ?s' = peer s" "handled ?s' = handled s" "current ?s' = current s" "down ?s' = down s"
    "executed ?s' = executed s" "received ?s' = received s"
    by (simp_all add: client_does_def executed_def received_def fun_eq_iff)
  have at: "client_at ?s' j = (if j = k then ?c' else client_at s j)"
    "published ?s' j = (if j = k then ?pl' else published s j)"
    "issued ?s' j = (if j = k then issued s k \<union> dom (map_of (c_queries ?c')) else issued s j)" for j
    by (simp_all add: client_does_def)
  have "wires_honest ?s'"
    unfolding wires_honest_def
  proof (intro allI impI)
    fix i nd
    assume "nd \<in> set (up ?s' i) \<or> (i, nd) \<in> set (handled ?s')"
    then consider "nd \<in> set (up s i) \<or> (i, nd) \<in> set (handled s)"
      | "current s k = Some i" "nd \<in> framed ` set (drop (length (c_outbox ?c)) (c_outbox ?c'))"
      by (auto simp: client_does_def split: option.splits if_splits)
    then show "\<exists>j. peer ?s' i = Some j \<and> honest (c_nextMessageId (client_at ?s' j)) (published ?s' j) nd"
    proof cases
      case 1
      then obtain j where "peer s i = Some j" "honest (c_nextMessageId (client_at s j)) (published s j) nd"
        using sys_invD(3) [OF inv] unfolding wires_honest_def by blast
      with one(2) [of nd] show ?thesis by (auto simp: at)
    next
      case 2
      with one(3) have "honest (c_nextMessageId ?c') ?pl' nd" by auto
      with 2 sys_invD(2) [OF inv] show ?thesis by (auto simp: at)
    qed
  qed
  moreover have "confirmations_true ?s'" using sys_invD(4) [OF inv] by (simp add: confirmations_true_def)
  moreover have "nothing_lost ?s'"
    using one(1) pool_or_received [OF assms(1) inv n ack, where eng = eng and it = it]
      pending_or_executed [OF assms(1) inv n ack, where eng = eng and it = it]
      nothing_lostD [OF sys_invD(5) [OF inv]]
    unfolding nothing_lost_def at by (simp add: client_inv_def del: not_None_eq) blast
  moreover have "messages_genuine ?s'"
  proof (rule messages_genuine_mono [OF sys_invD(6) [OF inv]])
    show "published ?s' j m = Some pb" if "published s j m = Some pb" for j m pb
      using that sys_invD(1) [OF inv, of k] log_call_other [of m "c_nextMessageId ?c" e "published s k"]
      by (auto simp: at client_inv_def)
  qed (simp_all add: client_does_def)
  moreover have "wires_typed ?s'"
    using sys_invD(7) [OF inv] one(3) by (auto simp: wires_typed_def client_does_def list_all_iff split: option.split)
  moreover have "client_inv (Suc n) (client_at ?s' j) (published ?s' j)" for j
    using one(1) client_inv_Suc [OF sys_invD(1) [OF inv]] by (simp add: at)
  ultimately show ?thesis using sys_invD(2) [OF inv] by (auto simp: sys_inv_def)
qed

lemma sys_inv_server:
  assumes inv: "sys_inv n s" and out: "outbox sv = outbox (srv s) @ entries"
    and "\<And>j buf m. (j, buf) \<in> set entries \<Longrightarrow> confirms buf m \<Longrightarrow> \<exists>nd. (j, nd) \<in> set (handled s) \<and> asks_for nd m"
    and "\<And>e. e \<in> set entries \<Longrightarrow> header_kind (framed (snd e)) = Inr (kind_code PUBLISH) \<Longrightarrow> \<exists>p d. carries p d e \<and> origin s p d"
    and "list_all (\<lambda>e. reply_type (framed (snd e))) entries"
  shows "sys_inv n (server_does sv s)"
proof -
  let ?s' = "server_does sv s"
  have same: "client_at ?s' = client_at s" "peer ?s' = peer s" "handled ?s' = handled s" "current ?s' = current s" "up ?s' = up s"
    "published ?s' = published s" "issued ?s' = issued s" "executed ?s' = executed s" "received ?s' = received s" "origin ?s' = origin s"
    by (simp_all add: server_does_def executed_def received_def origin_def fun_eq_iff)
  have "confirmations_true ?s'"
    using sys_invD(4) [OF inv] assms(3) unfolding confirmations_true_def same
    by (auto simp: server_does_def out acknowledges_def confirms_def)
  moreover have "messages_genuine ?s'"
    unfolding messages_genuine_def same
  proof (intro allI impI)
    fix i nd q
    assume nd: "nd \<in> set (down ?s' i)" and kind: "header_kind nd = Inr (kind_code PUBLISH)" and q: "Publish_read nd = Inr q"
    from nd consider "nd \<in> set (down s i)" | e where "e \<in> set entries" "nd = framed (snd e)"
      by (auto simp: server_does_def out)
    then show "origin s (toPublishParams q) (p_data q)"
    proof cases
      case 1
      with sys_invD(6) [OF inv] kind q show ?thesis unfolding messages_genuine_def by blast
    next
      case 2
      with assms(4) [of e] kind obtain p d where "carries p d e" "origin s p d" by blast
      with 2 q show ?thesis by (auto simp: carries_def)
    qed
  qed
  moreover have "wires_typed ?s'"
    using sys_invD(7) [OF inv] assms(5) by (auto simp: wires_typed_def server_does_def out list_all_iff)
  ultimately show ?thesis using inv by (simp add: sys_inv_def wires_honest_def nothing_lost_def same)
qed

lemma server_publishes:
  assumes "emits outbox (\<lambda>e. \<exists>p d. carries p d e \<and> origin s p d) act" and inv: "sys_inv n s"
  shows "sys_inv n (server_does (snd (act (srv s))) s)"
proof -
  obtain es where es: "outbox (snd (act (srv s))) = outbox (srv s) @ es" "list_all (\<lambda>e. \<exists>p d. carries p d e \<and> origin s p d) es"
    using emitsD [OF assms(1)] by blast
  have "\<not> confirms buf m" if "(j, buf) \<in> set es" for j buf m
    using es(2) that by (fastforce simp: list_all_iff carries_def of_kind_def confirms_def)
  moreover have "list_all (\<lambda>e. reply_type (framed (snd e))) es" using es(2) reply_type_carries unfolding list_all_iff by blast
  ultimately show ?thesis using es(2) by (intro sys_inv_server [OF inv es(1)]) (auto simp: list_all_iff)
qed

lemma emits_own_event:
  assumes "silent_consume sc" and "own_server_event e"
  shows "emits outbox (\<lambda>f. \<exists>p d. carries p d f \<and> (p, d) \<in> local_publications e) (server_exec eng sc e)" (is "emits _ ?ok _")
proof -
  note node = emits_node [where ok = ?ok]
  have change: "emits outbox ?ok (changeSubscription a p i)" for a p i using node [of "DoChange a p i"] by simp
  have create: "emits outbox ?ok (createQueue q i)" for q i using node [of "DoCreate q i"] by simp
  have handler: "emits outbox ?ok (addHandler p h)" for p h
    by (rule emits_silent) (auto simp: addHandler_def Let_def split: option.split)
  show ?thesis
  proof (cases e)
    case (Accept r)
    with assms(2) show ?thesis
      by (cases r) (auto intro!: emits_silent simp: handle_accept_def bind_def modify_def ret_def throw_def)
  next
    case (Local_subscribe p h)
    show ?thesis using emits_bind [OF handler change] by (simp add: Local_subscribe Server_subscribe_def)
  next
    case (Local_publish p d)
    then have "emits outbox ?ok (publish eng (onSendToClient eng sc) p d ServerID)"
      by (intro emits_mono [OF emits_publish [OF assms(1)]]) auto
    then show ?thesis by (simp add: Local_publish Server_publish_def)
  qed (use assms(2) create change in \<open>simp_all add: Server_createQueue_def Server_unsubscribe_def\<close>)
qed

lemma emits_accept: "emits outbox ok (handle_accept r)" for ok :: "Id \<times> byte list \<Rightarrow> bool"
  by (rule emits_silent)
     (auto simp: handle_accept_def take_id_def onNewConnection_def start_accept_def bind_def modify_def ret_def throw_def
       split: accept_result.split)

lemma emits_close: "emits outbox ok (connection_close i)" for ok :: "Id \<times> byte list \<Rightarrow> bool"
proof (rule emits_silent)
  fix s :: "('a, 'b) server_scheme"
  have erase: "outbox (snd (eraseClient i t)) = outbox t" for t :: "('a, 'b) server_scheme"
    using only_tables_server(4) [OF only_tables_exec [of t "DoErase i"]] by simp
  have gone: "outbox (snd (onDisconnect i t)) = outbox t" for t :: "('a, 'b) server_scheme"
    using erase by (auto simp: onDisconnect_def throw_def split: sum.split)
  have "outbox (snd (erase_client_description i t)) = outbox t" for t :: "('a, 'b) server_scheme"
    using gone [of t] by (auto simp: erase_client_description_def bind_def throw_def modify_def split: prod.split sum.split)
  then show "outbox (snd (connection_close i s)) = outbox s"
    by (simp add: connection_close_def ret_def split: option.split)
qed

text \<open>The steps of the network alone.\<close>

lemma handled_stays:
  assumes "set (handled s) \<subseteq> set (handled s')" and "\<And>i nd. (i, nd) \<in> set (handled s) \<Longrightarrow> peer s' i = peer s i"
  shows "executed s k m \<Longrightarrow> executed s' k m" and "received s k pb \<Longrightarrow> received s' k pb"
  using assms unfolding executed_def received_def by (metis subset_iff)+

lemma nothing_lost_mono:
  assumes "nothing_lost s" and "set (handled s) \<subseteq> set (handled s')" and "\<And>i nd. (i, nd) \<in> set (handled s) \<Longrightarrow> peer s' i = peer s i"
    and "client_at s' = client_at s" "published s' = published s" "issued s' = issued s"
  shows "nothing_lost s'"
proof -
  have "executed s k m \<Longrightarrow> executed s' k m" "received s k pb \<Longrightarrow> received s' k pb" for k m pb
    using handled_stays [OF assms(2), of k] assms(3) by blast+
  with nothing_lostD [OF assms(1)] show ?thesis
    unfolding nothing_lost_def by (simp add: assms(4-6) del: not_None_eq) blast
qed

lemma sys_inv_join:
  assumes inv: "sys_inv n s" and new: "peer s i = None"
  shows "sys_inv n (s\<lparr>peer := (peer s)(i \<mapsto> k), current := (current s)(k \<mapsto> i), up := (up s)(i := []), down := (down s)(i := [])\<rparr>)"
    (is "sys_inv n ?s'")
proof -
  have handled_old: "(i, nd) \<notin> set (handled s)" for nd using sys_invD(3) [OF inv] new unfolding wires_honest_def by fastforce
  have old: "current s j \<noteq> Some i" for j using sys_invD(2) [OF inv, of j i] new by auto
  have "nothing_lost ?s'" using handled_old by (intro nothing_lost_mono [OF sys_invD(5) [OF inv]]) auto
  moreover have "wires_honest ?s'" using sys_invD(3) [OF inv] handled_old by (auto simp: wires_honest_def)
  moreover have "confirmations_true ?s'" using sys_invD(4) [OF inv] by (auto simp: confirmations_true_def)
  moreover have "messages_genuine ?s'" by (rule messages_genuine_mono [OF sys_invD(6) [OF inv]]) auto
  moreover have "wires_typed ?s'" using sys_invD(7) [OF inv] by (auto simp: wires_typed_def)
  ultimately show ?thesis using inv old sys_invD(2) [OF inv] by (auto simp: sys_inv_def)
qed

text \<open>Messages get handled, get lost or are taken from a channel, and a connection is given up.\<close>

definition drained :: "'re system \<Rightarrow> 're system \<Rightarrow> bool" where
  "drained s s' \<longleftrightarrow>
     client_at s' = client_at s \<and> peer s' = peer s \<and> published s' = published s \<and> issued s' = issued s \<and>
     announced s \<subseteq> announced s' \<and>
     (\<forall>i. set (up s' i) \<subseteq> set (up s i) \<and> set (down s' i) \<subseteq> set (down s i)) \<and>
     (\<forall>k i. current s' k = Some i \<longrightarrow> current s k = Some i) \<and>
     set (handled s) \<subseteq> set (handled s') \<and>
     (\<forall>i nd. (i, nd) \<in> set (handled s') \<longrightarrow> (i, nd) \<in> set (handled s) \<or> nd \<in> set (up s i))"

lemma sys_inv_drained:
  assumes inv: "sys_inv n s" and d: "drained s s'"
  shows "sys_inv n s'"
proof -
  have same: "client_at s' = client_at s" "peer s' = peer s" "published s' = published s" "issued s' = issued s"
    and more: "set (handled s) \<subseteq> set (handled s')" using d by (simp_all add: drained_def)
  have "wires_honest s'" using sys_invD(3) [OF inv] d unfolding wires_honest_def drained_def by (metis subset_iff)
  moreover have "confirmations_true s'"
    using sys_invD(4) [OF inv] d unfolding confirmations_true_def drained_def by (metis subset_iff)
  moreover have "nothing_lost s'" using same by (intro nothing_lost_mono [OF sys_invD(5) [OF inv] more]) simp_all
  moreover have "messages_genuine s'" using d by (intro messages_genuine_mono [OF sys_invD(6) [OF inv]]) (auto simp: drained_def)
  moreover have "wires_typed s'"
    using sys_invD(7) [OF inv] d unfolding wires_typed_def drained_def list_all_iff by (metis subset_iff)
  moreover have "current s' k = Some i \<Longrightarrow> peer s' i = Some k" for k i
    using sys_invD(2) [OF inv, of k i] d by (simp add: drained_def)
  ultimately show ?thesis using sys_invD(1) [OF inv] by (simp add: sys_inv_def same)
qed

lemma sys_inv_serve:
  assumes "silent_consume sc" and inv: "sys_inv n s" and up: "up s i = nd # rest" and run: "onNewMessage eng sc i nd (srv s) = (r, sv)"
  shows "sys_inv n (server_does sv (s\<lparr>up := (up s)(i := rest), handled := handled s @ (if r = Inr () then [(i, nd)] else []),
    refused := (if r = Inr () then refused s else insert i (refused s))\<rparr>))" (is "sys_inv n (server_does sv ?s1)")
proof -
  have inv1: "sys_inv n ?s1" using up by (intro sys_inv_drained [OF inv]) (auto simp: drained_def)
  obtain es where es: "outbox sv = outbox (srv s) @ es"
    and only: "\<And>j buf m. (j, buf) \<in> set es \<Longrightarrow> confirms buf m \<Longrightarrow> r = Inr () \<and> j = i \<and> asks_for nd m"
    and genuine: "\<And>e. e \<in> set es \<Longrightarrow> header_kind (framed (snd e)) = Inr (kind_code PUBLISH) \<Longrightarrow> genuine nd e"
    and typed: "list_all (\<lambda>e. reply_type (framed (snd e))) es"
    using onNewMessage_traffic [OF assms(1) run] unfolding traffic_def list_all_iff by blast
  have sent: "origin ?s1 (toPublishParams q) (p_data q)"
    if "header_kind nd = Inr (kind_code PUBLISH)" "Publish_read nd = Inr q" for q
  proof -
    from sys_invD(3) [OF inv] up obtain k where "honest (c_nextMessageId (client_at s k)) (published s k) nd"
      unfolding wires_honest_def by (metis list.set_intros(1))
    with that have "published s k (p_messageId q) = Some q" by (simp add: honest_def)
    then have "published ?s1 k (p_messageId q) = Some (mk_Publish (toPublishParams q) (p_data q) (p_messageId q))"
      by (simp add: mk_Publish_def toPublishParams_def mk_pub_def)
    then show ?thesis unfolding origin_def by blast
  qed
  show ?thesis
  proof (rule sys_inv_server [OF inv1])
    show "outbox sv = outbox (srv ?s1) @ es" using es by simp
    show "\<exists>nd. (j, nd) \<in> set (handled ?s1) \<and> asks_for nd m" if "(j, buf) \<in> set es" "confirms buf m" for j buf m
      using only [OF that] by auto
    show "\<exists>p d. carries p d e \<and> origin ?s1 p d"
      if "e \<in> set es" "header_kind (framed (snd e)) = Inr (kind_code PUBLISH)" for e
      using genuine [OF that] sent unfolding genuine_def by blast
    show "list_all (\<lambda>e. reply_type (framed (snd e))) es" by (rule typed)
  qed
qed

lemma sys_inv_step:
  assumes "silent_consume sc" and "\<And>k. quiet_consume (cc k)" and "\<And>k. mute_consume (cc k)"
    and it: "\<And>es. mset (it es) = mset es" and "sys_step eng sc cc it s s'" and inv: "sys_inv n s" and n: "Suc n < 2 ^ 64"
  shows "sys_inv (Suc n) s'"
  using assms(5)
proof cases
  case (call e k)
  have "\<not> (\<exists>d. e = Receive d)" using call(2) by auto
  then show ?thesis unfolding call(1) using sys_inv_client [OF assms(2,3) it inv n] by blast
next
  case (join i k at)
  let ?s1 = "s\<lparr>peer := (peer s)(i \<mapsto> k), current := (current s)(k \<mapsto> i), up := (up s)(i := []), down := (down s)(i := [])\<rparr>"
  have "sys_inv n (server_does (snd (handle_accept Accepted (srv ?s1))) ?s1)"
    by (rule server_publishes [OF emits_accept sys_inv_join [OF inv join(4)]])
  from sys_inv_client [OF assms(2,3) it this n, of "Connected False at" k eng] show ?thesis
    unfolding join(1) by (simp add: server_does_def)
next
  case (serve i nd rest r sv)
  show ?thesis unfolding serve(1) by (rule sys_inv_Suc [OF sys_inv_serve [OF assms(1) inv serve(2,5)]])
next
  case (deliver i nd rest k r c)
  let ?s1 = "s\<lparr>down := (down s)(i := rest), deaf := (if \<exists>e. r = Inl e then insert i (deaf s) else deaf s)\<rparr>"
  have "sys_inv n ?s1" using deliver(2) by (intro sys_inv_drained [OF inv]) (auto simp: drained_def)
  moreover have "executed ?s1 k m" if "acknowledges nd m" for m
    using sys_invD(4) [OF inv] that deliver(2,4) unfolding confirmations_true_def executed_def by force
  ultimately have "sys_inv (Suc n) (client_does k (Receive nd) (snd (client_exec eng (cc k) it (Receive nd) (client_at ?s1 k))) ?s1)"
    by (intro sys_inv_client [OF assms(2,3) it _ n]) auto
  with deliver(5) show ?thesis unfolding deliver(1) by simp
next
  case (lose i k)
  let ?s1 = "s\<lparr>up := (up s)(i := []), down := (down s)(i := []), current := (current s)(k := (if current s k = Some i then None else current s k))\<rparr>"
  have "sys_inv n ?s1" by (rule sys_inv_drained [OF inv]) (auto simp: drained_def split: if_splits)
  from sys_inv_Suc [OF server_publishes [OF emits_close [of _ i] this]] show ?thesis unfolding lose(1) by simp
next
  case (internal e)
  let ?s1 = "s\<lparr>announced := announced s \<union> local_publications e\<rparr>"
  have "sys_inv n ?s1" by (rule sys_inv_drained [OF inv]) (auto simp: drained_def)
  moreover have "emits outbox (\<lambda>f. \<exists>p d. carries p d f \<and> origin ?s1 p d) (server_exec eng sc e)"
    by (rule emits_mono [OF emits_own_event [OF assms(1) internal(2)]]) (auto simp: origin_def)
  ultimately show ?thesis unfolding internal(1) using server_publishes [of ?s1 "server_exec eng sc e"] by (auto intro: sys_inv_Suc)
qed

lemma sys_inv_reachable:
  assumes "silent_consume sc" and "\<And>k. quiet_consume (cc k)" and "\<And>k. mute_consume (cc k)"
    and "\<And>es. mset (it es) = mset es" and "reachable eng sc cc it n s" and "n < 2 ^ 64"
  shows "sys_inv n s"
  using assms(5,6)
proof induction
  case (step n s s')
  then show ?case using sys_inv_step [OF assms(1-4) step(2)] by simp
qed (rule sys_inv_start)

end
