(* ===== verification/System_Properties.thy ===== *)
theory System_Properties
  imports System_Invariant
begin

text \<open>
  What the system of a server and its clients guarantees in every reachable state, with any
  interleaving of calls, connections, losses of connections and deliveries.
\<close>

section \<open>Every server state of the system is one of a server run\<close>

text \<open>The server of the system goes through a run of its own events, at most one in each step, so that what
  holds for runs of the server holds here.\<close>

lemma server_does_srv [simp]: "srv (server_does sv s) = sv" "srv (client_does k e c s) = srv s"
  by (simp_all add: server_does_def client_does_def)

lemma step_server_event:
  assumes "sys_step eng sc cc it s s'"
  shows "srv s' = srv s \<or> (\<exists>e. srv s' = snd (server_exec eng sc e (srv s)))"
  using assms
proof cases
  case (join i k at)
  then have "srv s' = snd (server_exec eng sc (Accept Accepted) (srv s))" by simp
  then show ?thesis by blast
next
  case (serve i nd rest r sv)
  then have "srv s' = snd (server_exec eng sc (Message i nd) (srv s))" by auto
  then show ?thesis by blast
next
  case (lose i k)
  then have "srv s' = snd (server_exec eng sc (Network_error i) (srv s))" by simp
  then show ?thesis by blast
qed auto

lemma reachable_server_run:
  assumes "reachable eng sc cc it n s"
  shows "\<exists>es. length es \<le> n \<and> srv s = snd (run_seq (server_exec eng sc) es started)"
  using assms
proof induction
  case (start login auto)
  show ?case by (intro exI [of _ "[]"]) (simp add: fresh_system_def)
next
  case (step n s s')
  then obtain es where es: "length es \<le> n" "srv s = snd (run_seq (server_exec eng sc) es started)" by blast
  from step_server_event [OF step(2)] show ?case
  proof (elim disjE exE)
    fix e
    assume "srv s' = snd (server_exec eng sc e (srv s))"
    with es show ?thesis by (intro exI [of _ "es @ [e]"]) (simp add: snd_run_seq_append)
  qed (use es in \<open>intro exI [of _ es], simp\<close>)
qed

lemma reachable_server_ok:
  assumes "consume_safe eng sc" and "reachable eng sc cc it n s" and "n < 2 ^ 31"
  shows "server_ok eng (srv s)"
proof -
  obtain es where es: "length es \<le> n" "srv s = snd (run_seq (server_exec eng sc) es started)"
    using reachable_server_run [OF assms(2)] by blast
  have "length (filter is_accept es) < 2 ^ 31" using es(1) assms(3) length_filter_le [of is_accept es] by linarith
  then show ?thesis unfolding es(2) by (intro server_ok_seq [OF assms(1) started_ok(1)]) (simp add: started_ok(2))
qed

section \<open>A run\<close>

text \<open>The consumers used below.\<close>

lemma idle_consumers: "silent_consume silent" "quiet_consume idle_consumer" "mute_consume idle_consumer"
  by (simp_all add: silent_consume_def silent_def mute_consume_def idle_consumer_def quiet_consume_idle ret_def)

text \<open>A client with an empty pool connects, and creates a queue.\<close>

lemma client_connects:
  assumes "messagePool c = []" and "Login_toNetworkMessage \<lparr>login_login = c_login c\<rparr> = Inr nd"
  obtains c' where "client_exec eng consume id (Connected False at) c = (Inr None, c')"
    and "c_outbox c' = c_outbox c @ [wire_bytes nd]" and "connected_by (async_connection c')"
proof -
  let ?c = "c\<lparr>connecting := connecting c - 1, async_connection := Some (io_start AsyncIO), c_isConnected := True, loginConfirmed := False\<rparr>"
  obtain x where send: "Client_send nd ?c = (Inr (), ?c\<lparr>async_connection := x, c_outbox := c_outbox c @ [wire_bytes nd]\<rparr>)"
    and x: "connected_by x"
    using Client_send_live [of ?c nd] packed_Login [OF assms(2)] by (auto simp: connected_by_def)
  have "client_exec eng consume id (Connected False at) c =
      (Inr None, ?c\<lparr>async_connection := x, c_outbox := c_outbox c @ [wire_bytes nd]\<rparr>)"
    using send assms
    by (simp add: on_connected_def Client_onConnect_def bind_def modify_def lift_def ret_def mp_all_def)
  then show thesis using that x by simp
qed

lemma client_creates:
  assumes "connected_by (async_connection c)" and "CreateQueue_toNetworkMessage \<lparr>cq_name = qs_name qs, cq_msgId = c_nextMessageId c\<rparr> = Inr nd"
  obtains c' where "Client_createQueue qs ot c = (Inr (Some \<lparr>ar_locker = c_next_locker c\<rparr>), c')"
    and "c_outbox c' = c_outbox c @ [wire_bytes nd]" and "connected_by (async_connection c')"
proof -
  let ?c = "c\<lparr>c_nextMessageId := c_nextMessageId c + 1, c_next_locker := Suc (c_next_locker c),
     c_queries := omap_put (c_nextMessageId c) \<lparr>ar_locker = c_next_locker c\<rparr> (c_queries c),
     c_lockers := (c_lockers c)(c_next_locker c := True)\<rparr>"
  obtain x where "Client_send nd ?c = (Inr (), ?c\<lparr>async_connection := x, c_outbox := c_outbox c @ [wire_bytes nd]\<rparr>)"
    and x: "connected_by x"
    using Client_send_live [of ?c nd] assms(1) packed_CreateQueue [OF assms(2)] by auto
  then have "Client_createQueue qs ot c =
      (Inr (Some \<lparr>ar_locker = c_next_locker c\<rparr>), ?c\<lparr>async_connection := x, c_outbox := c_outbox c @ [wire_bytes nd]\<rparr>)"
    using assms(2) by (simp add: Client_createQueue_def bind_def getNextId_def lift_def makeNewQResult_def Let_def ret_def)
  then show thesis using that x by simp
qed

text \<open>A server logs a client in.\<close>

lemma login_request:
  assumes "server_ok eng s" and "find_connection i s \<noteq> None" and "Login_toNetworkMessage q = Inr nd" and "consume_safe eng consume"
  obtains s' where "onNewMessage eng consume i nd s = (Inr (), s')" and "server_ok eng s'"
    and "broker_of s' = broker_of s" and "map conn_id (connections s') = map conn_id (connections s)"
proof -
  obtain lc where lc: "LoginConfirm_toNetworkMessage \<lparr>lc_id = i\<rparr> = Inr lc"
    using login_confirm.packs_iff [of "\<lparr>lc_id = i\<rparr>"] by (auto simp: LoginConfirm_toNetworkMessage_def)
  have packed: "packed lc"
    using lc unfolding packed_def LoginConfirm_toNetworkMessage_def
    by (intro exI [of _ LOGIN_CONFIRM] exI [of _ "[u64V i]"] exI [of _ "[Pod 8]"]) simp
  let ?s = "s\<lparr>clients := ub_setLogin i (login_login q) (clients s)\<rparr>"
  have steady: "steady eng (next_id s) s" using assms(1) by (simp add: steady_def)
  then have ok: "server_ok eng ?s" using steady_login [OF _ assms(2), of eng "next_id s"] by (simp add: steady_def)
  have "ub_exists (clients s) i" using assms(1,2) by (auto simp: server_ok_def conns_ok_def find_connection_None)
  then have broker: "broker_of ?s = broker_of s" by (auto simp: broker_of_def fun_eq_iff)
  obtain cs where send: "sendData i lc ?s = (Inr (), ?s\<lparr>connections := cs, outbox := outbox ?s @ [(i, wire_bytes lc)]\<rparr>)"
    and cs: "map conn_id cs = map conn_id (connections s)"
    using sendData_live [OF ok _ packed, of i] assms(2) by (auto simp: find_connection_def)
  have run: "onNewMessage eng consume i nd s = (Inr (), ?s\<lparr>connections := cs, outbox := outbox ?s @ [(i, wire_bytes lc)]\<rparr>)"
    using send Login_sent [OF assms(3)] lc by (simp add: onNewMessage_def on_LOGIN_def bind_def [of "modify _"] modify_def)
  from that [OF run] steady_message [OF assms(4) steady assms(2), of nd] run broker cs show thesis
    by (simp add: steady_def broker_of_def)
qed

text \<open>A client connects, creates a queue, subscribes to it and publishes; the server has handled all but the
  publication.\<close>

lemma demo_client:
  obtains c1 c2 c3 c4 :: "string client" and ndl ndc nds ndp m1 m2
  where "client_exec literal_engine idle_consumer id (Connected False at) (Client ''a'' True) = (Inr None, c1)" and "c_outbox c1 = [wire_bytes ndl]"
    and "snd (Client_createQueue \<lparr>qs_name = ''q''\<rparr> Async c1) = c2" and "c_outbox c2 = c_outbox c1 @ [wire_bytes ndc]"
    and "snd (Client_subscribe (mk_sub ''q'' []) None Async c2) = c3" and "c_outbox c3 = c_outbox c2 @ [wire_bytes nds]"
    and "snd (Client_publish (mk_pub ''q'' []) [7] Async c3) = c4" and "c_outbox c4 = c_outbox c3 @ [wire_bytes ndp]"
    and "Login_toNetworkMessage \<lparr>login_login = ''a''\<rparr> = Inr ndl"
    and "CreateQueue_toNetworkMessage \<lparr>cq_name = ''q'', cq_msgId = m1\<rparr> = Inr ndc"
    and "ChangeSubscribe_toNetworkMessage (mk_ChangeSubscribe (mk_sub ''q'' []) m2) = Inr nds"
    and "Publish_toNetworkMessage (mk_Publish (mk_pub ''q'' []) [7] (c_nextMessageId c3)) = Inr ndp"
    and "packed ndl" and "packed ndc" and "packed nds" and "packed ndp"
proof -
  obtain ndl where ndl: "Login_toNetworkMessage \<lparr>login_login = ''a''\<rparr> = Inr ndl" using Login_packs [of "''a''"] by auto
  have fresh: "messagePool (Client ''a'' True :: string client) = []"
    "Login_toNetworkMessage \<lparr>login_login = c_login (Client ''a'' True :: string client)\<rparr> = Inr ndl"
    "c_outbox (Client ''a'' True :: string client) = []" using ndl by (simp_all add: Client_def mp_create_def)
  obtain c1 where c1: "client_exec literal_engine idle_consumer id (Connected False at) (Client ''a'' True :: string client) = (Inr None, c1)"
    "c_outbox c1 = c_outbox (Client ''a'' True :: string client) @ [wire_bytes ndl]" "connected_by (async_connection c1)"
    using client_connects [OF fresh(1,2)] .
  have "length ''q'' < 2 ^ 30" by simp
  then obtain ndc where ndc: "CreateQueue_toNetworkMessage \<lparr>cq_name = ''q'', cq_msgId = c_nextMessageId c1\<rparr> = Inr ndc"
    using create_queue.packs_iff [of "\<lparr>cq_name = ''q'', cq_msgId = c_nextMessageId c1\<rparr>"] by (auto simp: CreateQueue_toNetworkMessage_def)
  then have "CreateQueue_toNetworkMessage \<lparr>cq_name = qs_name \<lparr>qs_name = ''q''\<rparr>, cq_msgId = c_nextMessageId c1\<rparr> = Inr ndc" by simp
  then obtain c2 where c2: "Client_createQueue \<lparr>qs_name = ''q''\<rparr> Async c1 = (Inr (Some \<lparr>ar_locker = c_next_locker c1\<rparr>), c2)"
    "c_outbox c2 = c_outbox c1 @ [wire_bytes ndc]" "connected_by (async_connection c2)"
    using client_creates [OF c1(3)] by blast
  have "addHandler (mk_sub ''q'' []) None c2 = (Inr (), c2)" by (simp add: addHandler_def)
  moreover have "length (sub_queueName (mk_sub ''q'' [])) + length (sub_tag (mk_sub ''q'' [])) + 22 < 2 ^ 31" by (simp add: mk_sub_def)
  ultimately obtain c3 nds where c3: "Client_subscribe (mk_sub ''q'' []) None Async c2 = (Inr (wait_for Async \<lparr>ar_locker = c_next_locker c2\<rparr>), c3)"
    "ChangeSubscribe_toNetworkMessage (mk_ChangeSubscribe (mk_sub ''q'' []) (c_nextMessageId c2)) = Inr nds" "packed nds"
    "c_outbox c3 = c_outbox c2 @ [wire_bytes nds]"
    "map_of (c_queries c3) (c_nextMessageId c2) = Some \<lparr>ar_locker = c_next_locker c2\<rparr>" "connected_by (async_connection c3)"
    using Client_subscribe_live [OF c2(3)] by blast
  obtain ndp where ndp: "Publish_toNetworkMessage (mk_Publish (mk_pub ''q'' []) [7] (c_nextMessageId c3)) = Inr ndp" "packed ndp"
    by (rule Publish_packs [of "mk_pub ''q'' []" "[7]"]) (simp add: short_def)
  have "c_outbox (snd (Client_publish (mk_pub ''q'' []) [7] Async c3)) = c_outbox c3 @ [wire_bytes ndp]"
    using Client_publish_live [OF c3(6) ndp, of Async] by auto
  with c1(1,2) c2(1,2) c3(1,4) fresh(3) show thesis
    by (intro that [OF c1(1) _ _ c2(2) _ c3(4) refl _ ndl ndc c3(2) ndp(1) packed_Login [OF ndl] packed_CreateQueue [OF ndc] c3(3) ndp(2)]) simp_all
qed

abbreviation demo_start :: "string server" where
  "demo_start \<equiv> snd (handle_accept Accepted started)"

lemma demo_start_ok:
  "server_ok literal_engine demo_start" "map conn_id (connections demo_start) = [0]"
  "broker_of demo_start = \<lparr>b_queues = Map.empty, b_listeners = \<lambda>_. Map.empty, b_members = (\<lambda>i. i = ServerID \<or> i = 0), b_next = 0\<rparr>"
proof -
  show "server_ok literal_engine demo_start" by (rule handle_accept_ok [OF started_ok(1)]) (simp add: started_ok(2))
qed (auto simp: handle_accept_state started_eq Server_def connection_start_def broker_of_def get_or_def fun_eq_iff)

lemma demo_server:
  assumes "Login_toNetworkMessage \<lparr>login_login = l\<rparr> = Inr ndl"
    and "CreateQueue_toNetworkMessage \<lparr>cq_name = ''q'', cq_msgId = m1\<rparr> = Inr ndc"
    and "ChangeSubscribe_toNetworkMessage (mk_ChangeSubscribe (mk_sub ''q'' []) m2) = Inr nds"
  obtains s1 s2 s3 where "onNewMessage literal_engine silent 0 ndl demo_start = (Inr (), s1)"
    and "onNewMessage literal_engine silent 0 ndc s1 = (Inr (), s2)" and "onNewMessage literal_engine silent 0 nds s2 = (Inr (), s3)"
    and "map conn_id (connections s1) = [0]" and "map conn_id (connections s2) = [0]" and "map conn_id (connections s3) = [0]"
    and "b_queues (broker_of s3) ''q'' \<noteq> None"
    and "b_listeners (broker_of s3) ''q'' = [0 \<mapsto> \<lparr>isowner = True, issubscribed = True, ql_settings = mk_sub ''q'' []\<rparr>]"
proof -
  have connected: "find_connection 0 s \<noteq> None" if "map conn_id (connections s) = [0]" for s :: "string server"
    using that by (auto simp: find_connection_def find_None_ball)
  obtain s1 where s1: "onNewMessage literal_engine silent 0 ndl demo_start = (Inr (), s1)" "server_ok literal_engine s1"
    "broker_of s1 = broker_of demo_start" "map conn_id (connections s1) = map conn_id (connections demo_start)"
    using login_request [OF demo_start_ok(1) connected [OF demo_start_ok(2)] assms(1) silent_safe] .
  note c1 = s1(4) [unfolded demo_start_ok(2)] and b1 = s1(3) [unfolded demo_start_ok(3)]
  have "fst (spec_exec (DoCreate \<lparr>qs_name = ''q''\<rparr> 0) (broker_of s1)) = Inr ()"
    unfolding b1 by (simp add: spec_create_def spec_change_def)
  from node_request_succeeds [OF s1(2) connected [OF c1] this, of m1] obtain s2 where
    s2: "bind (node_exec (DoCreate \<lparr>qs_name = ''q''\<rparr> 0)) (\<lambda>_. sendOk 0 m1) s1 = (Inr (), s2)" "server_ok literal_engine s2"
    "broker_of s2 = snd (spec_exec (DoCreate \<lparr>qs_name = ''q''\<rparr> 0) (broker_of s1))"
    "map conn_id (connections s2) = map conn_id (connections s1)" by blast
  note c2 = s2(4) [unfolded c1] and b2 = s2(3) [unfolded b1]
  have "fst (spec_exec (DoChange Subscribe (mk_sub ''q'' []) 0) (broker_of s2)) = Inr ()"
    unfolding b2 by (simp add: spec_create_def spec_change_def)
  from node_request_succeeds [OF s2(2) connected [OF c2] this, of m2] obtain s3 where
    s3: "bind (node_exec (DoChange Subscribe (mk_sub ''q'' []) 0)) (\<lambda>_. sendOk 0 m2) s2 = (Inr (), s3)" "server_ok literal_engine s3"
    "broker_of s3 = snd (spec_exec (DoChange Subscribe (mk_sub ''q'' []) 0) (broker_of s2))"
    "map conn_id (connections s3) = map conn_id (connections s2)" by blast
  note c3 = s3(4) [unfolded c2] and b3 = s3(3) [unfolded b2]
  have run: "onNewMessage literal_engine silent 0 ndc s1 = (Inr (), s2)" "onNewMessage literal_engine silent 0 nds s2 = (Inr (), s3)"
    using s2(1) s3(1) by (simp_all add: create_request [OF assms(2)] subscribe_request [OF assms(3)])
  have "b_queues (broker_of s3) ''q'' \<noteq> None"
    "b_listeners (broker_of s3) ''q'' = [0 \<mapsto> \<lparr>isowner = True, issubscribed = True, ql_settings = mk_sub ''q'' []\<rparr>]"
    unfolding b3 by (auto simp: spec_create_def spec_change_def mk_sub_def fun_eq_iff)
  then show thesis by (rule that [OF s1(1) run c1 c2 c3])
qed

text \<open>One call, and one message handled by the server, in the system.\<close>

lemma call_goes_out:
  assumes "reachable eng sc cc it n s" and "own_client_event e" and "current s k = Some i"
    and "snd (client_exec eng (cc k) it e (client_at s k)) = c"
    and "c_outbox c = c_outbox (client_at s k) @ [wire_bytes nd]" and "packed nd"
  obtains s' where "reachable eng sc cc it (Suc n) s'" and "client_at s' k = c" and "current s' k = Some i"
    and "up s' i = up s i @ [nd]" and "refused s' = refused s" and "srv s' = srv s"
    and "published s' k = log_call e (c_nextMessageId (client_at s k)) (published s k)"
proof -
  let ?s' = "client_does k e (snd (client_exec eng (cc k) it e (client_at s k))) s"
  have "reachable eng sc cc it (Suc n) ?s'" by (rule reachable.step [OF assms(1) sys_step.call [OF assms(2)]])
  then show thesis using assms(3-5) packed_wire [OF assms(6)] by (intro that [of ?s']) (simp_all add: client_does_def)
qed

lemma message_is_served:
  assumes "reachable eng sc cc it n s" and "up s i = nd # rest" and "i \<notin> refused s" and "find_connection i (srv s) \<noteq> None"
    and "onNewMessage eng sc i nd (srv s) = (Inr (), sv)"
  obtains s' where "reachable eng sc cc it (Suc n) s'" and "up s' i = rest" and "refused s' = refused s" and "srv s' = sv"
    and "published s' = published s"
proof -
  let ?s' = "server_does sv (s\<lparr>up := (up s)(i := rest), handled := handled s @ [(i, nd)]\<rparr>)"
  have "sys_step eng sc cc it s ?s'" using sys_step.serve [OF assms(2-5), of cc it] by simp
  from reachable.step [OF assms(1) this] show thesis by (intro that [of ?s']) (simp_all add: server_does_def)
qed

abbreviation demo_reachable :: "nat \<Rightarrow> string system \<Rightarrow> bool" where
  "demo_reachable \<equiv> reachable literal_engine silent (\<lambda>_. idle_consumer) id"

lemma demo_join:
  assumes "client_exec literal_engine idle_consumer id (Connected False at) (Client ''a'' True :: string client) = (r, c)"
    and "c_outbox c = [wire_bytes nd]" and "packed nd"
  obtains s where "demo_reachable 1 s" and "client_at s 0 = c" and "current s 0 = Some 0" and "up s 0 = [nd]"
    and "refused s = {}" and "srv s = demo_start" and "published s 0 = Map.empty"
proof -
  let ?s0 = "fresh_system (\<lambda>_. ''a'') (\<lambda>_. True) :: string system" and ?e = "Connected False at"
  let ?s1 = "client_does 0 ?e (snd (client_exec literal_engine idle_consumer id ?e (client_at ?s0 0)))
      (server_does (snd (handle_accept Accepted (srv ?s0)))
        (?s0\<lparr>peer := (peer ?s0)(0 \<mapsto> 0), current := (current ?s0)(0 \<mapsto> 0), up := (up ?s0)(0 := []), down := (down ?s0)(0 := [])\<rparr>))"
  have "sys_step literal_engine silent (\<lambda>_. idle_consumer) id ?s0 ?s1"
    by (rule sys_step.join) (simp_all add: fresh_system_def started_eq Server_def)
  from reachable.step [OF reachable.start this] have run: "demo_reachable 1 ?s1" unfolding One_nat_def .
  have c0: "client_at ?s0 0 = Client ''a'' True" "c_outbox (Client ''a'' True :: string client) = []"
    by (simp_all add: fresh_system_def Client_def)
  show thesis
    by (rule that [OF run])
       (use assms packed_wire [OF assms(3)] in
         \<open>simp_all add: c0 client_does_def server_does_def del: client_exec.simps\<close>, simp_all add: fresh_system_def fun_eq_iff)
qed

lemma demo_calls:
  obtains s ndl ndc nds ndp m1 m2 m3
  where "demo_reachable 4 s" and "up s 0 = [ndl, ndc, nds, ndp]" and "refused s = {}" and "srv s = demo_start"
    and "published s 0 m3 = Some (mk_Publish (mk_pub ''q'' []) [7] m3)"
    and "Login_toNetworkMessage \<lparr>login_login = ''a''\<rparr> = Inr ndl"
    and "CreateQueue_toNetworkMessage \<lparr>cq_name = ''q'', cq_msgId = m1\<rparr> = Inr ndc"
    and "ChangeSubscribe_toNetworkMessage (mk_ChangeSubscribe (mk_sub ''q'' []) m2) = Inr nds"
    and "Publish_toNetworkMessage (mk_Publish (mk_pub ''q'' []) [7] m3) = Inr ndp"
proof -
  let ?at = "\<lparr>at_endpoints = Some [V4], at_held = False\<rparr>" and ?exec = "client_exec literal_engine idle_consumer id"
  obtain c1 c2 c3 c4 :: "string client" and ndl ndc nds ndp m1 m2 where
    c1: "?exec (Connected False ?at) (Client ''a'' True) = (Inr None, c1)" "c_outbox c1 = [wire_bytes ndl]"
    and c2: "snd (Client_createQueue \<lparr>qs_name = ''q''\<rparr> Async c1) = c2" "c_outbox c2 = c_outbox c1 @ [wire_bytes ndc]"
    and c3: "snd (Client_subscribe (mk_sub ''q'' []) None Async c2) = c3" "c_outbox c3 = c_outbox c2 @ [wire_bytes nds]"
    and c4: "snd (Client_publish (mk_pub ''q'' []) [7] Async c3) = c4" "c_outbox c4 = c_outbox c3 @ [wire_bytes ndp]"
    and nd: "Login_toNetworkMessage \<lparr>login_login = ''a''\<rparr> = Inr ndl"
      "CreateQueue_toNetworkMessage \<lparr>cq_name = ''q'', cq_msgId = m1\<rparr> = Inr ndc"
      "ChangeSubscribe_toNetworkMessage (mk_ChangeSubscribe (mk_sub ''q'' []) m2) = Inr nds"
      "Publish_toNetworkMessage (mk_Publish (mk_pub ''q'' []) [7] (c_nextMessageId c3)) = Inr ndp"
    and packed: "packed ndl" "packed ndc" "packed nds" "packed ndp"
    using demo_client [of ?at] .
  obtain s1 where s1: "demo_reachable 1 s1" "client_at s1 0 = c1" "current s1 0 = Some 0" "up s1 0 = [ndl]" "refused s1 = {}"
    "srv s1 = demo_start" "published s1 0 = Map.empty"
    using demo_join [OF c1 packed(1)] .
  obtain s2 where s2: "demo_reachable (Suc 1) s2" "client_at s2 0 = c2" "current s2 0 = Some 0" "up s2 0 = up s1 0 @ [ndc]"
    "refused s2 = refused s1" "srv s2 = srv s1"
    using call_goes_out [OF s1(1) _ s1(3) _ _ packed(2), of "Do_createQueue \<lparr>qs_name = ''q''\<rparr> Async" c2] c2 s1(2) by auto
  obtain s3 where s3: "demo_reachable (Suc (Suc 1)) s3" "client_at s3 0 = c3" "current s3 0 = Some 0" "up s3 0 = up s2 0 @ [nds]"
    "refused s3 = refused s2" "srv s3 = srv s2"
    using call_goes_out [OF s2(1) _ s2(3) _ _ packed(3), of "Do_subscribe (mk_sub ''q'' []) None Async" c3] c3 s2(2) by auto
  obtain s4 where s4: "demo_reachable (Suc (Suc (Suc 1))) s4" "up s4 0 = up s3 0 @ [ndp]" "refused s4 = refused s3" "srv s4 = srv s3"
    "published s4 0 = log_call (Do_publish (mk_pub ''q'' []) [7] Async) (c_nextMessageId (client_at s3 0)) (published s3 0)"
    using call_goes_out [OF s3(1) _ s3(3) _ _ packed(4), of "Do_publish (mk_pub ''q'' []) [7] Async" c4] c4 s3(2) by auto
  have "demo_reachable 4 s4" using s4(1) by (simp add: numeral_eq_Suc)
  then show thesis by (rule that [OF _ _ _ _ _ nd]) (use s1 s2 s3 s4 in simp_all)
qed

lemma demo_served:
  obtains s nd m where "demo_reachable 7 s" and "up s 0 = [nd]" and "refused s = {}" and "find_connection 0 (srv s) \<noteq> None"
    and "header_kind nd = Inr (kind_code PUBLISH)" and "Publish_read nd = Inr (mk_Publish (mk_pub ''q'' []) [7] m)"
    and "published s 0 m = Some (mk_Publish (mk_pub ''q'' []) [7] m)" and "queueIsExists (srv s) ''q''"
    and "b_listeners (broker_of (srv s)) ''q'' = [0 \<mapsto> \<lparr>isowner = True, issubscribed = True, ql_settings = mk_sub ''q'' []\<rparr>]"
proof -
  have connected: "find_connection 0 s \<noteq> None" if "map conn_id (connections s) = [0]" for s :: "string server"
    using that by (auto simp: find_connection_def find_None_ball)
  obtain s ndl ndc nds ndp m1 m2 m3 where s: "demo_reachable 4 s" "up s 0 = [ndl, ndc, nds, ndp]" "refused s = {}" "srv s = demo_start"
    "published s 0 m3 = Some (mk_Publish (mk_pub ''q'' []) [7] m3)"
    and nd: "Login_toNetworkMessage \<lparr>login_login = ''a''\<rparr> = Inr ndl"
      "CreateQueue_toNetworkMessage \<lparr>cq_name = ''q'', cq_msgId = m1\<rparr> = Inr ndc"
      "ChangeSubscribe_toNetworkMessage (mk_ChangeSubscribe (mk_sub ''q'' []) m2) = Inr nds"
      "Publish_toNetworkMessage (mk_Publish (mk_pub ''q'' []) [7] m3) = Inr ndp"
    using demo_calls .
  obtain v1 v2 v3 where v: "onNewMessage literal_engine silent 0 ndl demo_start = (Inr (), v1)"
    "onNewMessage literal_engine silent 0 ndc v1 = (Inr (), v2)" "onNewMessage literal_engine silent 0 nds v2 = (Inr (), v3)"
    and c: "map conn_id (connections v1) = [0]" "map conn_id (connections v2) = [0]" "map conn_id (connections v3) = [0]"
    and b: "b_queues (broker_of v3) ''q'' \<noteq> None"
      "b_listeners (broker_of v3) ''q'' = [0 \<mapsto> \<lparr>isowner = True, issubscribed = True, ql_settings = mk_sub ''q'' []\<rparr>]"
    using demo_server [OF nd(1-3)] .
  obtain s1 where s1: "demo_reachable (Suc 4) s1" "up s1 0 = [ndc, nds, ndp]" "refused s1 = refused s" "srv s1 = v1" "published s1 = published s"
    using message_is_served [OF s(1,2)] s(3,4) v(1) connected [OF demo_start_ok(2)] by auto
  obtain s2 where s2: "demo_reachable (Suc (Suc 4)) s2" "up s2 0 = [nds, ndp]" "refused s2 = refused s1" "srv s2 = v2" "published s2 = published s1"
    using message_is_served [OF s1(1,2)] s(3) s1(3,4) v(2) connected [OF c(1)] by auto
  obtain s3 where s3: "demo_reachable (Suc (Suc (Suc 4))) s3" "up s3 0 = [ndp]" "refused s3 = refused s2" "srv s3 = v3" "published s3 = published s2"
    using message_is_served [OF s2(1,2)] s(3) s1(3) s2(3,4) v(3) connected [OF c(2)] by auto
  have "demo_reachable 7 s3" using s3(1) by (simp add: numeral_eq_Suc)
  moreover have "queueIsExists v3 ''q''" using b(1) by (auto simp: queueIsExists_def)
  ultimately show thesis
    using that [of s3 ndp m3] Publish_sent [OF nd(4)] s s1 s2 s3 b(2) connected [OF c(3)] by (simp del: not_None_eq broker_of_sel kind_code.simps)
qed

text \<open>What a server that handles a publication sends.\<close>

lemma sent_view_reads:
  assumes "sent_view (j, buf) = (j, Some (p, d))"
  shows "header_kind (framed buf) = Inr (kind_code PUBLISH) \<and>
    (\<exists>q. Publish_read (framed buf) = Inr q \<and> toPublishParams q = p \<and> p_data q = d)"
  using assms by (auto simp: sent_view_def split: if_splits sum.splits)

lemma publication_served:
  assumes "server_ok eng s" and "find_connection i s \<noteq> None"
    and nd: "header_kind nd = Inr (kind_code PUBLISH)" "Publish_read nd = Inr (mk_Publish p d m)" and "short p d"
    and "queueIsExists s (pub_queueName p)" and "\<not> spec_receives eng (broker_of s) p ServerID"
    and "\<And>j e. \<not> spec_rejected eng (broker_of s) p j e"
  shows "\<exists>sv entries. onNewMessage eng sc i nd s = (Inr (), sv) \<and>
    drop (length (outbox s)) (outbox sv) = entries @ [(i, frame (kind_code OK) [u64V m])] \<and>
    (\<forall>j. spec_receives eng (broker_of s) p j \<longrightarrow>
      (\<exists>buf. filter (\<lambda>e. fst e = j) entries = [(j, buf)] \<and> sent_view (j, buf) = (j, Some (p, d))))"
proof -
  obtain nd1 where nd1: "Publish_toNetworkMessage (mk_Publish p d m) = Inr nd1" using Publish_packs [OF assms(5)] by blast
  have same: "onNewMessage eng sc i nd = onNewMessage eng sc i nd1"
    unfolding publish_request [OF nd1] using nd by (simp add: onNewMessage_def on_PUBLISH_def)
  obtain sv ids sent where run: "onNewMessage eng sc i nd s = (Inr (), sv)" "sorted_wrt (<) ids"
    "set ids = {j. spec_receives eng (broker_of s) p j}" "outbox sv = sent @ [(i, frame (kind_code OK) [u64V m])]"
    "map sent_view sent = map sent_view (outbox s) @ map (\<lambda>j. (j, Some (p, d))) ids"
    using server_publish_run [OF assms(1,2,5-8) nd1, of sc] unfolding same by blast
  let ?new = "drop (length (outbox s)) sent"
  have once: "\<exists>buf. filter (\<lambda>e. fst e = j) ?new = [(j, buf)] \<and> sent_view (j, buf) = (j, Some (p, d))"
    if "spec_receives eng (broker_of s) p j" for j
  proof -
    from that run(3) have "j \<in> set ids" by simp
    then show ?thesis using sent_once [OF run(5,2)] by blast
  qed
  have "length (outbox s) \<le> length sent" using arg_cong [OF run(5), of length] by simp
  then have "drop (length (outbox s)) (outbox sv) = ?new @ [(i, frame (kind_code OK) [u64V m])]" unfolding run(4) by simp
  with run(1) once show ?thesis by blast
qed

lemma demo_targets:
  assumes "b_listeners b ''q'' = [0 \<mapsto> \<lparr>isowner = True, issubscribed = True, ql_settings = mk_sub ''q'' []\<rparr>]"
  shows "spec_receives literal_engine b (mk_pub ''q'' []) 0" "\<not> spec_rejected literal_engine b (mk_pub ''q'' []) j e"
    "\<not> spec_receives literal_engine b (mk_pub ''q'' []) ServerID"
  using assms by (auto simp: spec_receives_def spec_rejected_def target_test_def tag_matches_def mk_pub_def mk_sub_def ServerID_def split: if_splits)

lemma demo_delivered:
  obtains s nd q where "demo_reachable 8 s" and "nd \<in> set (down s 0)" and "header_kind nd = Inr (kind_code PUBLISH)"
    and "Publish_read nd = Inr q" and "toPublishParams q = mk_pub ''q'' []" and "p_data q = [7]"
proof -
  let ?p = "mk_pub ''q'' []"
  obtain s nd m where s: "demo_reachable 7 s" "up s 0 = [nd]" "refused s = {}" "find_connection 0 (srv s) \<noteq> None"
    "header_kind nd = Inr (kind_code PUBLISH)" "Publish_read nd = Inr (mk_Publish ?p [7] m)"
    "published s 0 m = Some (mk_Publish ?p [7] m)" "queueIsExists (srv s) ''q''"
    "b_listeners (broker_of (srv s)) ''q'' = [0 \<mapsto> \<lparr>isowner = True, issubscribed = True, ql_settings = mk_sub ''q'' []\<rparr>]"
    using demo_served .
  have ok: "server_ok literal_engine (srv s)" by (rule reachable_server_ok [OF silent_safe s(1)]) simp
  have fits: "short ?p [7]" "queueIsExists (srv s) (pub_queueName ?p)" using s(8) by (simp_all add: short_def mk_pub_def)
  obtain sv entries buf where run: "onNewMessage literal_engine silent 0 nd (srv s) = (Inr (), sv)"
    and out: "drop (length (outbox (srv s))) (outbox sv) = entries @ [(0, frame (kind_code OK) [u64V m])]"
    and buf: "filter (\<lambda>e. fst e = 0) entries = [(0, buf)]" "sent_view (0, buf) = (0, Some (?p, [7]))"
    using publication_served [OF ok s(4-6) fits demo_targets(3,2) [OF s(9)], of silent] demo_targets(1) [OF s(9)] by blast
  let ?s' = "server_does sv (s\<lparr>up := (up s)(0 := []), handled := handled s @ [(0, nd)]\<rparr>)"
  have "0 \<notin> refused s" using s(3) by simp
  then have "sys_step literal_engine silent (\<lambda>_. idle_consumer) id s ?s'"
    using sys_step.serve [OF s(2) _ s(4) run, of "\<lambda>_. idle_consumer" id] by simp
  from reachable.step [OF s(1) this] have "demo_reachable 8 ?s'" by (simp add: numeral_eq_Suc)
  moreover have "framed buf \<in> set (down ?s' 0)" by (simp add: server_does_def out buf(1))
  ultimately show thesis using that sent_view_reads [OF buf(2)] by blast
qed

section \<open>Properties\<close>







text \<open>C4: a published message that reaches the server is delivered. In every reachable state, the server can
  handle a publication that is next on a connection; if the queue exists, the server itself is
  no target of it and no tag expression is rejected, every subscriber whose expression matches
  then has the message, once, on its connection, and the publisher has the confirmation on its own.\<close>

theorem served_publication_is_delivered:
  assumes "consume_safe eng sc" and "reachable eng sc cc it n s" and "n < 2 ^ 31"
    and "up s i = nd # rest" and "i \<notin> refused s" and "find_connection i (srv s) \<noteq> None"
    and nd: "header_kind nd = Inr (kind_code PUBLISH)" "Publish_read nd = Inr (mk_Publish p d m)" and "short p d"
    and "queueIsExists (srv s) (pub_queueName p)" and "\<not> spec_receives eng (broker_of (srv s)) p ServerID"
    and "\<And>j e. \<not> spec_rejected eng (broker_of (srv s)) p j e"
  shows "\<exists>s'. sys_step eng sc cc it s s' \<and> handled s' = handled s @ [(i, nd)] \<and>
    (\<exists>okm. okm \<in> set (down s' i) \<and> acknowledges okm m) \<and>
    (\<forall>j. spec_receives eng (broker_of (srv s)) p j \<longrightarrow>
      (\<exists>msg. filter (\<lambda>nd. header_kind nd = Inr (kind_code PUBLISH)) (drop (length (down s j)) (down s' j)) = [msg] \<and>
        (\<exists>q. Publish_read msg = Inr q \<and> toPublishParams q = p \<and> p_data q = d)))"
proof -
  let ?okb = "frame (kind_code OK) [u64V m]"
  obtain sv entries where run: "onNewMessage eng sc i nd (srv s) = (Inr (), sv)"
    and out: "drop (length (outbox (srv s))) (outbox sv) = entries @ [(i, ?okb)]"
    and targets: "\<And>j. spec_receives eng (broker_of (srv s)) p j \<Longrightarrow>
      \<exists>buf. filter (\<lambda>e. fst e = j) entries = [(j, buf)] \<and> sent_view (j, buf) = (j, Some (p, d))"
    using publication_served [OF reachable_server_ok [OF assms(1-3)] assms(6) nd assms(9-12), of sc] by blast
  let ?s' = "server_does sv (s\<lparr>up := (up s)(i := rest), handled := handled s @ [(i, nd)]\<rparr>)"
  have step: "sys_step eng sc cc it s ?s'" using sys_step.serve [OF assms(4-6) run, of cc it] by simp
  have down: "down ?s' j = down s j @ map (framed \<circ> snd) (filter (\<lambda>e. fst e = j) entries) @ (if j = i then [framed ?okb] else [])" for j
    by (simp add: server_does_def out)
  have okm: "acknowledges (framed ?okb) m" by (rule acknowledges_Ok)
  then have other: "header_kind (framed ?okb) \<noteq> Inr (kind_code PUBLISH)" by (simp add: acknowledges_def)
  have "\<exists>msg. filter (\<lambda>nd. header_kind nd = Inr (kind_code PUBLISH)) (drop (length (down s j)) (down ?s' j)) = [msg] \<and>
        (\<exists>q. Publish_read msg = Inr q \<and> toPublishParams q = p \<and> p_data q = d)"
    if target: "spec_receives eng (broker_of (srv s)) p j" for j
  proof -
    obtain buf where buf: "filter (\<lambda>e. fst e = j) entries = [(j, buf)]" "sent_view (j, buf) = (j, Some (p, d))"
      using targets [OF target] by blast
    have "drop (length (down s j)) (down ?s' j) = framed buf # (if j = i then [framed ?okb] else [])"
      unfolding down buf(1) by simp
    with sent_view_reads [OF buf(2)] other show ?thesis by simp
  qed
  moreover have "framed ?okb \<in> set (down ?s' i)" by (simp add: down)
  ultimately show ?thesis using step okm by (intro exI [of _ ?s']) (auto simp: server_does_def)
qed

theorem served_publication_is_delivered_witness:
  "\<exists>s s' msg q. demo_reachable 7 s \<and> sys_step literal_engine silent (\<lambda>_. idle_consumer) id s s' \<and>
     filter (\<lambda>nd. header_kind nd = Inr (kind_code PUBLISH)) (drop (length (down s 0)) (down s' 0)) = [msg] \<and>
     Publish_read msg = Inr q \<and> toPublishParams q = mk_pub ''q'' [] \<and> p_data q = [7]"
proof -
  let ?p = "mk_pub ''q'' []"
  obtain s nd m where s: "demo_reachable 7 s" "up s 0 = [nd]" "refused s = {}" "find_connection 0 (srv s) \<noteq> None"
    "header_kind nd = Inr (kind_code PUBLISH)" "Publish_read nd = Inr (mk_Publish ?p [7] m)"
    "published s 0 m = Some (mk_Publish ?p [7] m)" "queueIsExists (srv s) ''q''"
    "b_listeners (broker_of (srv s)) ''q'' = [0 \<mapsto> \<lparr>isowner = True, issubscribed = True, ql_settings = mk_sub ''q'' []\<rparr>]"
    using demo_served .
  have fits: "(7 :: nat) < 2 ^ 31" "0 \<notin> refused s" "short ?p [7]" "queueIsExists (srv s) (pub_queueName ?p)"
    using s(3,8) by (simp_all add: short_def mk_pub_def)
  from served_publication_is_delivered [OF silent_safe s(1) fits(1) s(2) fits(2) s(4-6) fits(3,4) demo_targets(3,2) [OF s(9)]]
    demo_targets(1) [OF s(9)] s(1) show ?thesis by blast
qed



end
