(* ===== verification/Strings.thy ===== *)
theory Strings
  imports Prelude
begin

text \<open>
  \<^verbatim>\<open>libdqueue/utils/strings.cpp\<close> and \<^verbatim>\<open>strings.h\<close>: splitting, changing case, and the concatenation of the
  arguments of log and exception messages. The loops are written with the indices of the code; the
  lemmas show that they compute what the plain definitions \<open>fields_by\<close>, \<open>map\<close> and \<open>concat\<close> say.
\<close>

section \<open>Splitting\<close>

text \<open>\<open>std::string::find\<close> from a position (none is \<open>npos\<close>) and \<open>substr\<close>, which throws if the position is
  beyond the end.\<close>

primrec index_of :: "char \<Rightarrow> string \<Rightarrow> nat option" where
  "index_of sep [] = None"
| "index_of sep (c # cs) = (if c = sep then Some 0 else map_option Suc (index_of sep cs))"

definition find_from :: "string \<Rightarrow> char \<Rightarrow> nat \<Rightarrow> nat option" where
  "find_from text sep start = map_option (\<lambda>i. start + i) (index_of sep (drop start text))"

definition substr :: "string \<Rightarrow> nat \<Rightarrow> nat \<Rightarrow> error + string" where
  "substr text pos n = (if pos > length text then Inl (Throw OutOfRange) else Inr (take n (drop pos text)))"

definition substr_from :: "string \<Rightarrow> nat \<Rightarrow> error + string" where
  "substr_from text pos = (if pos > length text then Inl (Throw OutOfRange) else Inr (drop pos text))"

definition push_token :: "string \<Rightarrow> string list \<Rightarrow> string list" where
  "push_token temp toks = (if temp \<noteq> [] then toks @ [temp] else toks)"

lemma index_of_less: "index_of sep cs = Some i \<Longrightarrow> i < length cs"
  by (induction cs arbitrary: i) (auto split: if_splits)

lemma find_from_bounds: "find_from text sep start = Some e \<Longrightarrow> start \<le> e \<and> e < length text"
  using index_of_less by (fastforce simp: find_from_def)

function split_loop :: "string \<Rightarrow> char \<Rightarrow> nat \<Rightarrow> string list \<Rightarrow> error + string list" where
  "split_loop text sep start toks =
     (case find_from text sep start of
        Some e \<Rightarrow>
          (case substr text start (e - start) of
             Inl err \<Rightarrow> Inl err
           | Inr temp \<Rightarrow> split_loop text sep (e + 1) (push_token temp toks))
      | None \<Rightarrow> bind_res (substr_from text start) (\<lambda>temp. Inr (push_token temp toks)))"
  by pat_completeness auto
termination
  by (relation "measure (\<lambda>(text, sep, start, toks). length text - start)") (auto dest: find_from_bounds)

declare split_loop.simps [simp del]

definition str_split :: "string \<Rightarrow> char \<Rightarrow> error + string list" where
  "str_split text sep = split_loop text sep 0 []"

text \<open>\<open>operator>>\<close> for strings skips white space and reads up to the next one; \<open>tokens\<close> repeats it until
  nothing is left.\<close>

definition isspace :: "char \<Rightarrow> bool" where
  "isspace c \<longleftrightarrow> of_char c \<in> {9, 10, 11, 12, 13, 32 :: nat}"

function tokens_loop :: "string \<Rightarrow> string list \<Rightarrow> string list" where
  "tokens_loop iss toks =
     (let rest = dropWhile isspace iss in
      if rest = [] then toks
      else tokens_loop (dropWhile (\<lambda>c. \<not> isspace c) rest) (toks @ [takeWhile (\<lambda>c. \<not> isspace c) rest]))"
  by pat_completeness auto
termination
proof (relation "measure (\<lambda>(iss, toks). length iss)")
  fix iss :: string and toks :: "string list" and rest
  assume rest: "rest = dropWhile isspace iss" "rest \<noteq> []"
  then obtain c cs where "rest = c # cs" "\<not> isspace c" by (metis hd_dropWhile list.collapse)
  then have "length (dropWhile (\<lambda>c. \<not> isspace c) rest) < length rest"
    by (simp add: le_imp_less_Suc length_dropWhile_le)
  also have "\<dots> \<le> length iss" unfolding rest(1) by (rule length_dropWhile_le)
  finally show "((dropWhile (\<lambda>c. \<not> isspace c) rest, toks @ [takeWhile (\<lambda>c. \<not> isspace c) rest]), iss, toks)
      \<in> measure (\<lambda>(iss, toks). length iss)" by simp
qed simp

declare tokens_loop.simps [simp del]

definition tokens :: "string \<Rightarrow> string list" where
  "tokens str = tokens_loop str []"

text \<open>The fields of a text between separators, empty ones included.\<close>

fun fields_by :: "(char \<Rightarrow> bool) \<Rightarrow> string \<Rightarrow> string list" where
  "fields_by P [] = [[]]"
| "fields_by P (c # cs) =
     (if P c then [] # fields_by P cs
      else (case fields_by P cs of [] \<Rightarrow> [[c]] | f # fs \<Rightarrow> (c # f) # fs))"

lemma fields_by_nonempty [simp]: "fields_by P cs \<noteq> []"
  by (cases cs) (auto split: list.split)

lemma fields_by_cut:
  "fields_by P cs = (case dropWhile (\<lambda>c. \<not> P c) cs of
     [] \<Rightarrow> [cs] | _ # rest \<Rightarrow> takeWhile (\<lambda>c. \<not> P c) cs # fields_by P rest)"
proof (induction cs)
  case (Cons c cs)
  then show ?case by (cases "dropWhile (\<lambda>c. \<not> P c) cs") (simp_all del: dropWhile_eq_Nil_conv)
qed simp

lemma fields_index:
  "fields_by (\<lambda>c. c = sep) cs = (case index_of sep cs of
     None \<Rightarrow> [cs] | Some i \<Rightarrow> take i cs # fields_by (\<lambda>c. c = sep) (drop (Suc i) cs))"
proof (induction cs)
  case (Cons c cs)
  then show ?case by (cases "index_of sep cs") (auto split: list.split)
qed simp

definition words_by :: "(char \<Rightarrow> bool) \<Rightarrow> string \<Rightarrow> string list" where
  "words_by P cs = filter (\<lambda>w. w \<noteq> []) (fields_by P cs)"

lemma split_loop_words:
  "start \<le> length str \<Longrightarrow>
   split_loop str sep start toks = Inr (toks @ words_by (\<lambda>c. c = sep) (drop start str))"
proof (induction str sep start toks rule: split_loop.induct)
  case (1 str sep start toks)
  show ?case
  proof (cases "index_of sep (drop start str)")
    case None
    with 1 show ?thesis
      by (subst split_loop.simps)
         (simp add: find_from_def substr_from_def push_token_def words_by_def fields_index [of sep "drop start str"])
  next
    case (Some i)
    have e: "find_from str sep start = Some (start + i)" using Some by (simp add: find_from_def)
    then have len: "start + i < length str" using find_from_bounds by blast
    have sub: "substr str start (start + i - start) = Inr (take i (drop start str))"
      using 1 by (simp add: substr_def)
    have "split_loop str sep start toks =
        split_loop str sep (start + i + 1) (push_token (take i (drop start str)) toks)"
      by (subst split_loop.simps) (simp add: e sub [simplified])
    also have "\<dots> = Inr (push_token (take i (drop start str)) toks @ words_by (\<lambda>c. c = sep) (drop (start + i + 1) str))"
      using 1(1) [OF e sub] len by simp
    also have "\<dots> = Inr (toks @ words_by (\<lambda>c. c = sep) (drop start str))"
      using Some by (simp add: words_by_def push_token_def fields_index [of sep "drop start str"] add.commute)
    finally show ?thesis .
  qed
qed

lemma words_skip: "words_by P (dropWhile P cs) = words_by P cs"
  by (induction cs) (auto simp: words_by_def)

lemma words_token:
  assumes "rest \<noteq> []" and "\<not> P (hd rest)"
  shows "words_by P rest = takeWhile (\<lambda>c. \<not> P c) rest # words_by P (dropWhile (\<lambda>c. \<not> P c) rest)"
proof (cases "dropWhile (\<lambda>c. \<not> P c) rest")
  case Nil
  with assms(1) show ?thesis
    using fields_by_cut [of P rest] takeWhile_dropWhile_id [of "\<lambda>c. \<not> P c" rest]
    by (simp add: words_by_def del: dropWhile_eq_Nil_conv takeWhile_eq_all_conv)
next
  case (Cons c cs)
  then have "P c" by (metis (no_types, lifting) hd_dropWhile list.sel(1) list.distinct(1))
  moreover have "takeWhile (\<lambda>c. \<not> P c) rest \<noteq> []" using assms by (cases rest) auto
  ultimately show ?thesis
    using fields_by_cut [of P rest] Cons by (simp add: words_by_def)
qed

lemma tokens_loop_words: "tokens_loop iss toks = toks @ words_by isspace iss"
proof (induction iss toks rule: tokens_loop.induct)
  case (1 iss toks)
  let ?rest = "dropWhile isspace iss"
  show ?case
  proof (cases "?rest = []")
    case True
    then have "words_by isspace iss = []" using words_skip [of isspace iss]
      by (simp add: words_by_def del: dropWhile_eq_Nil_conv)
    with True show ?thesis by (subst tokens_loop.simps) simp
  next
    case False
    then have "words_by isspace iss = takeWhile (\<lambda>c. \<not> isspace c) ?rest # words_by isspace (dropWhile (\<lambda>c. \<not> isspace c) ?rest)"
      using words_token [of ?rest isspace] hd_dropWhile [OF False] words_skip [of isspace iss] by simp
    with 1 [OF refl False] False show ?thesis
      by (subst tokens_loop.simps) (simp add: Let_def)
  qed
qed

section \<open>Changing case\<close>

text \<open>\<open>toupper\<close> and \<open>tolower\<close> get a \<open>char\<close>, which is signed: a character from 128 on is a negative
  argument, undefined unless it is the value of \<open>EOF\<close>.\<close>

definition char_code :: "char \<Rightarrow> nat" where
  "char_code c = of_char c"

definition ctype :: "(nat \<Rightarrow> nat) \<Rightarrow> char \<Rightarrow> error + char" where
  "ctype f c =
     (if char_code c < 128 then Inr (char_of (f (char_code c)))
      else if char_code c = 255 then Inr c
      else Inl (Undef BadCharacter))"

definition upper_code :: "nat \<Rightarrow> nat" where
  "upper_code n = (if 97 \<le> n \<and> n \<le> 122 then n - 32 else n)"

definition lower_code :: "nat \<Rightarrow> nat" where
  "lower_code n = (if 65 \<le> n \<and> n \<le> 90 then n + 32 else n)"

text \<open>The loop over the indices of the copy.\<close>

function convert_loop :: "(nat \<Rightarrow> nat) \<Rightarrow> nat \<Rightarrow> string \<Rightarrow> error + string" where
  "convert_loop f i converted =
     (if i < length converted
      then (case ctype f (converted ! i) of
              Inl e \<Rightarrow> Inl e
            | Inr c \<Rightarrow> convert_loop f (i + 1) (converted[i := c]))
      else Inr converted)"
  by pat_completeness auto
termination
  by (relation "measure (\<lambda>(f, i, converted). length converted - i)") auto

declare convert_loop.simps [simp del]

definition to_upper :: "string \<Rightarrow> error + string" where
  "to_upper text = convert_loop upper_code 0 text"

definition to_lower :: "string \<Rightarrow> error + string" where
  "to_lower text = convert_loop lower_code 0 text"

definition bad_char :: "char \<Rightarrow> bool" where
  "bad_char c \<longleftrightarrow> 128 \<le> char_code c \<and> char_code c \<noteq> 255"

definition recode :: "(nat \<Rightarrow> nat) \<Rightarrow> char \<Rightarrow> char" where
  "recode f c = (if char_code c < 128 then char_of (f (char_code c)) else c)"

lemma ctype_eq: "ctype f c = (if bad_char c then Inl (Undef BadCharacter) else Inr (recode f c))"
  by (auto simp: ctype_def bad_char_def recode_def)

lemma convert_loop_map:
  "i \<le> length str \<Longrightarrow>
   convert_loop f i str =
     (if list_ex bad_char (drop i str) then Inl (Undef BadCharacter)
      else Inr (take i str @ map (recode f) (drop i str)))"
proof (induction f i str rule: convert_loop.induct)
  case (1 f i str)
  show ?case
  proof (cases "i < length str")
    case False
    with 1 show ?thesis by (subst convert_loop.simps) simp
  next
    case True
    have d: "drop i str = str ! i # drop (Suc i) str" using True by (simp add: Cons_nth_drop_Suc)
    show ?thesis
    proof (cases "bad_char (str ! i)")
      case bad: True
      with True d show ?thesis by (subst convert_loop.simps) (simp add: ctype_eq)
    next
      case False
      then have c: "ctype f (str ! i) = Inr (recode f (str ! i))" by (simp add: ctype_eq)
      have "convert_loop f i str = convert_loop f (Suc i) (str[i := recode f (str ! i)])"
        using True c by (subst convert_loop.simps) simp
      also have "\<dots> = (if list_ex bad_char (drop (Suc i) str) then Inl (Undef BadCharacter)
          else Inr (take (Suc i) (str[i := recode f (str ! i)]) @ map (recode f) (drop (Suc i) str)))"
        using 1(1) [OF True c] True by simp
      also have "\<dots> = (if list_ex bad_char (drop i str) then Inl (Undef BadCharacter)
          else Inr (take i str @ map (recode f) (drop i str)))"
        using True False d by (simp add: take_Suc_conv_app_nth)
      finally show ?thesis .
    qed
  qed
qed

section \<open>Arguments of messages\<close>

text \<open>The arguments that log and exception messages have: C strings, strings and numbers. A C string
  ends at its first null character.\<close>

datatype arg = CStrArg string | StrArg string | NumArg int

fun decimal :: "nat \<Rightarrow> string" where
  "decimal n = (if n < 10 then [char_of (48 + n)] else decimal (n div 10) @ [char_of (48 + n mod 10)])"

declare decimal.simps [simp del]

fun to_string :: "arg \<Rightarrow> string" where
  "to_string (CStrArg s) = takeWhile (\<lambda>c. char_code c \<noteq> 0) s"
| "to_string (StrArg s) = s"
| "to_string (NumArg i) = (if i < 0 then ''-'' @ decimal (nat (- i)) else decimal (nat i))"

fun args_as_string :: "string list \<Rightarrow> u64 \<Rightarrow> arg list \<Rightarrow> string list \<times> u64" where
  "args_as_string s sz [] = (s, sz)"
| "args_as_string s sz (head # tail) =
     (let str = to_string head in args_as_string (s @ [str]) (sz + word_of_nat (length str)) tail)"

definition args_to_string :: "arg list \<Rightarrow> string" where
  "args_to_string args =
     (let (ss, sz) = args_as_string [] 0 args
      in foldl (\<lambda>result v. result @ v) [] ss)"

lemma args_as_string_eq:
  "args_as_string s sz args =
     (s @ map to_string args, sz + word_of_nat (length (concat (map to_string args))))"
  by (induction s sz args rule: args_as_string.induct) (simp_all add: Let_def)

lemma foldl_append: "foldl (\<lambda>result v. result @ v) xs ss = xs @ concat ss"
  by (induction ss arbitrary: xs) simp_all

text \<open>The digits determine the number.\<close>

definition digit_of :: "char \<Rightarrow> nat" where
  "digit_of c = char_code c - 48"

definition decimal_value :: "string \<Rightarrow> nat" where
  "decimal_value s = foldl (\<lambda>n c. 10 * n + digit_of c) 0 s"

lemma digit_of_char: "n < 10 \<Longrightarrow> digit_of (char_of (48 + n)) = n"
  by (simp add: digit_of_def char_code_def of_char_of)

lemma decimal_value_decimal: "decimal_value (decimal n) = n"
proof (induction n rule: decimal.induct)
  case (1 n)
  show ?case
  proof (cases "n < 10")
    case True
    then show ?thesis by (subst decimal.simps) (simp add: decimal_value_def digit_of_char)
  next
    case False
    have "decimal_value (xs @ [c]) = 10 * decimal_value xs + digit_of c" for xs c by (simp add: decimal_value_def)
    then have "decimal_value (decimal n) = 10 * (n div 10) + n mod 10"
      using 1 [OF False] False by (subst decimal.simps) (simp add: digit_of_char)
    then show ?thesis by simp
  qed
qed

section \<open>Properties\<close>

text \<open>C36: \<open>split\<close> and \<open>tokens\<close> return the non-empty fields of the text, in order: between occurrences of
  the separator, and between white space. \<open>split\<close> never passes a position beyond the end to
  \<open>substr\<close>, so it does not throw, and both loops end.\<close>

theorem splitting_correct:
  "str_split str sep = Inr (filter (\<lambda>w. w \<noteq> []) (fields_by (\<lambda>c. c = sep) str)) \<and>
   tokens str = filter (\<lambda>w. w \<noteq> []) (fields_by isspace str)"
  by (simp add: str_split_def tokens_def split_loop_words tokens_loop_words words_by_def)

lemma recode_inverse:
  "recode lower_code (recode upper_code c) = recode lower_code c"
  "recode upper_code (recode lower_code c) = recode upper_code c"
  "bad_char (recode upper_code c) = bad_char c" "bad_char (recode lower_code c) = bad_char c"
  by (auto simp: recode_def char_code_def of_char_of upper_code_def lower_code_def bad_char_def)

lemma to_upper_eq: "to_upper str = (if list_ex bad_char str then Inl (Undef BadCharacter) else Inr (map (recode upper_code) str))"
  and to_lower_eq: "to_lower str = (if list_ex bad_char str then Inl (Undef BadCharacter) else Inr (map (recode lower_code) str))"
  by (simp_all add: to_upper_def to_lower_def convert_loop_map)

text \<open>The index loops of \<open>to_upper\<close> and \<open>to_lower\<close> change every ASCII letter and nothing else, and
  each undoes what the other did to the case; a character from 128 to 254 anywhere in the text is
  passed to \<open>toupper\<close> as a negative number, which is undefined.\<close>

theorem case_conversion:
  "to_upper str = (if list_ex bad_char str then Inl (Undef BadCharacter) else Inr (map (recode upper_code) str)) \<and>
   to_lower str = (if list_ex bad_char str then Inl (Undef BadCharacter) else Inr (map (recode lower_code) str)) \<and>
   bind_res (to_upper str) to_lower = to_lower str \<and> bind_res (to_lower str) to_upper = to_upper str"
  by (auto simp: to_upper_eq to_lower_eq list_ex_iff recode_inverse)

end
