(* ===== verification/Logging.thy ===== *)
theory Logging
  imports Strings Locker
begin

text \<open>
  \<^verbatim>\<open>libdqueue/utils/logger.cpp\<close>, \<^verbatim>\<open>logger.h\<close> and \<^verbatim>\<open>exception.h\<close>: the log manager with its one instance, the
  console logger, and the exceptions that are logged when they are made. A logger of the
  application is known by a number, and what it is given is recorded; the two output streams are
  strings. \<open>LogManager::instance\<close> uses double-checked locking; a step relation shows that
  concurrent callers get the same instance.
\<close>

datatype LOG_MESSAGE_KIND = MESSAGE | INFO | FATAL

datatype Verbose = Verbose | Debug | Quiet

datatype ILogger = ConsoleLogger | OtherLogger nat

record log_state =
  lm_instance :: "ILogger option"
  lm_verbose :: Verbose
  lm_cout :: string
  lm_cerr :: string
  lm_other :: "(nat \<times> LOG_MESSAGE_KIND \<times> string) list"

definition endl :: string where
  "endl = [char_of (10 :: nat)]"

definition ConsoleLogger_message :: "LOG_MESSAGE_KIND \<Rightarrow> string \<Rightarrow> log_state \<Rightarrow> log_state" where
  "ConsoleLogger_message kind msg s =
     (if lm_verbose s = Quiet then s
      else (case kind of
              FATAL \<Rightarrow> s\<lparr>lm_cerr := lm_cerr s @ ''[err] '' @ msg @ endl\<rparr>
            | INFO \<Rightarrow> s\<lparr>lm_cout := lm_cout s @ ''[inf] '' @ msg @ endl\<rparr>
            | MESSAGE \<Rightarrow>
                if lm_verbose s = Debug then s\<lparr>lm_cout := lm_cout s @ ''[dbg] '' @ msg @ endl\<rparr> else s))"

definition ILogger_message :: "ILogger \<Rightarrow> LOG_MESSAGE_KIND \<Rightarrow> string \<Rightarrow> log_state \<Rightarrow> log_state" where
  "ILogger_message l kind msg s =
     (case l of
        ConsoleLogger \<Rightarrow> ConsoleLogger_message kind msg s
      | OtherLogger k \<Rightarrow> s\<lparr>lm_other := lm_other s @ [(k, kind, msg)]\<rparr>)"

definition LogManager_start :: "ILogger \<Rightarrow> log_state \<Rightarrow> log_state" where
  "LogManager_start l s = (if lm_instance s = None then s\<lparr>lm_instance := Some l\<rparr> else s)"

definition LogManager_stop :: "log_state \<Rightarrow> log_state" where
  "LogManager_stop s = s\<lparr>lm_instance := None\<rparr>"

definition LogManager_instance :: "log_state \<Rightarrow> ILogger \<times> log_state" where
  "LogManager_instance s =
     (case lm_instance s of
        Some l \<Rightarrow> (l, s)
      | None \<Rightarrow> (ConsoleLogger, s\<lparr>lm_instance := Some ConsoleLogger\<rparr>))"

definition variadic_message :: "LOG_MESSAGE_KIND \<Rightarrow> arg list \<Rightarrow> log_state \<Rightarrow> log_state" where
  "variadic_message kind args s =
     (case LogManager_instance s of (l, s') \<Rightarrow> ILogger_message l kind (args_to_string args) s')"

definition logger :: "arg list \<Rightarrow> log_state \<Rightarrow> log_state" where
  "logger args = variadic_message MESSAGE args"

definition logger_info :: "arg list \<Rightarrow> log_state \<Rightarrow> log_state" where
  "logger_info args = variadic_message INFO args"

definition logger_fatal :: "arg list \<Rightarrow> log_state \<Rightarrow> log_state" where
  "logger_fatal args = variadic_message FATAL args"

section \<open>Exceptions\<close>

record CodePos =
  cp_file :: string
  cp_line :: int
  cp_func :: string

definition CodePos_toString :: "CodePos \<Rightarrow> string" where
  "CodePos_toString pos =
     to_string (CStrArg (cp_file pos)) @ '' line: '' @ to_string (NumArg (cp_line pos)) @
     '' function: '' @ to_string (CStrArg (cp_func pos)) @ endl"

text \<open>What the operating system says about the stack: the number of return addresses, and their
  symbols unless memory ran out.\<close>

record backtrace =
  bt_nptrs :: nat
  bt_symbols :: "string list option"

definition trace_text :: "backtrace \<Rightarrow> string" where
  "trace_text bt =
     endl @ ''backtrace() returned '' @ decimal (bt_nptrs bt) @ '' addresses'' @ endl @
     (case bt_symbols bt of
        None \<Rightarrow> ''backtrace_symbols'' @ endl
      | Some names \<Rightarrow> ''trace:'' @ endl @ concat (map (\<lambda>n. n @ endl) names))"

text \<open>The message is logged as fatal, with the position and the trace; the exception carries the
  expanded arguments only.\<close>

definition create_and_log :: "CodePos \<Rightarrow> backtrace \<Rightarrow> arg list \<Rightarrow> log_state \<Rightarrow> string \<times> log_state" where
  "create_and_log pos bt message s =
     (let expanded_message = args_to_string message;
          str_message = ''FATAL ERROR. The Exception will be thrown! '' @ CodePos_toString pos @
                        '' Message: '' @ expanded_message @ trace_text bt
      in (expanded_message, logger_fatal [StrArg str_message] s))"

section \<open>Concurrent calls of \<open>instance\<close>\<close>

text \<open>Managers are numbered in the order in which they are made.\<close>

datatype ipc = First_test | Want_lock nat | Second_test | Make | Leaving nat | Returned nat

record instance_world =
  i_instance :: "nat option"
  i_made :: nat
  i_lock :: locker
  i_pc :: "nat \<Rightarrow> ipc"

fun instance_step :: "nat \<Rightarrow> instance_world \<Rightarrow> instance_world" where
  "instance_step t w =
     (case i_pc w t of
        First_test \<Rightarrow>
          w\<lparr>i_pc := (i_pc w)(t := (case i_instance w of None \<Rightarrow> Want_lock 0 | Some p \<Rightarrow> Returned p))\<rparr>
      | Want_lock n \<Rightarrow>
          (case test_and_set (i_lock w) of
             (True, l) \<Rightarrow> w\<lparr>i_lock := l, i_pc := (i_pc w)(t := Want_lock (fst (spin n)))\<rparr>
           | (False, l) \<Rightarrow> w\<lparr>i_lock := l, i_pc := (i_pc w)(t := Second_test)\<rparr>)
      | Second_test \<Rightarrow>
          w\<lparr>i_pc := (i_pc w)(t := (case i_instance w of None \<Rightarrow> Make | Some p \<Rightarrow> Leaving p))\<rparr>
      | Make \<Rightarrow>
          w\<lparr>i_instance := Some (i_made w), i_made := i_made w + 1, i_pc := (i_pc w)(t := Leaving (i_made w))\<rparr>
      | Leaving p \<Rightarrow> w\<lparr>i_lock := unlock (i_lock w), i_pc := (i_pc w)(t := Returned p)\<rparr>
      | Returned p \<Rightarrow> w)"

definition instance_start :: instance_world where
  "instance_start = \<lparr>i_instance = None, i_made = 0, i_lock = mk_locker, i_pc = (\<lambda>_. First_test)\<rparr>"

text \<open>A schedule says which thread takes the next step.\<close>

definition instance_run :: "nat list \<Rightarrow> instance_world \<Rightarrow> instance_world" where
  "instance_run = fold instance_step"

fun holds_lock :: "ipc \<Rightarrow> bool" where
  "holds_lock Second_test \<longleftrightarrow> True"
| "holds_lock Make \<longleftrightarrow> True"
| "holds_lock (Leaving p) \<longleftrightarrow> True"
| "holds_lock _ \<longleftrightarrow> False"

definition instance_inv :: "instance_world \<Rightarrow> bool" where
  "instance_inv w \<longleftrightarrow>
     (locked (i_lock w) \<longleftrightarrow> (\<exists>t. holds_lock (i_pc w t))) \<and>
     (\<forall>t u. holds_lock (i_pc w t) \<longrightarrow> holds_lock (i_pc w u) \<longrightarrow> t = u) \<and>
     (\<forall>t. i_pc w t = Make \<longrightarrow> i_instance w = None) \<and>
     (\<forall>t p. i_pc w t = Leaving p \<or> i_pc w t = Returned p \<longrightarrow> i_instance w = Some p) \<and>
     i_made w = (case i_instance w of None \<Rightarrow> 0 | Some _ \<Rightarrow> 1)"

lemma instance_invI:
  assumes "locked (i_lock w) \<longleftrightarrow> (\<exists>t. holds_lock (i_pc w t))"
    and "\<And>t u. holds_lock (i_pc w t) \<Longrightarrow> holds_lock (i_pc w u) \<Longrightarrow> t = u"
    and "\<And>t. i_pc w t = Make \<Longrightarrow> i_instance w = None"
    and "\<And>t p. i_pc w t = Leaving p \<or> i_pc w t = Returned p \<Longrightarrow> i_instance w = Some p"
    and "i_made w = (case i_instance w of None \<Rightarrow> 0 | Some _ \<Rightarrow> 1)"
  shows "instance_inv w"
  unfolding instance_inv_def using assms by blast

lemma instance_invD:
  assumes "instance_inv w"
  shows "locked (i_lock w) \<longleftrightarrow> (\<exists>t. holds_lock (i_pc w t))"
    and "\<And>t u. holds_lock (i_pc w t) \<Longrightarrow> holds_lock (i_pc w u) \<Longrightarrow> t = u"
    and "\<And>t. i_pc w t = Make \<Longrightarrow> i_instance w = None"
    and "\<And>t p. i_pc w t = Leaving p \<or> i_pc w t = Returned p \<Longrightarrow> i_instance w = Some p"
    and "i_made w = (case i_instance w of None \<Rightarrow> 0 | Some _ \<Rightarrow> 1)"
  using assms unfolding instance_inv_def by blast+

text \<open>A step that neither takes nor gives up the lock.\<close>

lemma instance_inv_move:
  assumes "instance_inv w" and "holds_lock pc \<longleftrightarrow> holds_lock (i_pc w t)"
    and "pc = Make \<Longrightarrow> i_instance w = None"
    and "\<And>p. pc = Leaving p \<or> pc = Returned p \<Longrightarrow> i_instance w = Some p"
  shows "instance_inv (w\<lparr>i_pc := (i_pc w)(t := pc)\<rparr>)"
proof -
  define f where "f = (i_pc w)(t := pc)"
  have same: "holds_lock (f u) = holds_lock (i_pc w u)" for u using assms(2) by (simp add: f_def)
  have "f u = Make \<Longrightarrow> i_instance w = None" "f u = Leaving p \<or> f u = Returned p \<Longrightarrow> i_instance w = Some p" for u p
    using assms(3,4) instance_invD(3,4) [OF assms(1)] by (auto simp: f_def split: if_splits)
  then have "instance_inv (w\<lparr>i_pc := f\<rparr>)"
    using instance_invD(1,2,5) [OF assms(1)] by (intro instance_invI) (auto simp: same)
  then show ?thesis by (simp add: f_def)
qed

lemma instance_inv_step:
  assumes "instance_inv w"
  shows "instance_inv (instance_step t w)"
proof (cases "i_pc w t")
  case First_test
  then show ?thesis using assms by (auto intro!: instance_inv_move split: option.split)
next
  case (Want_lock n)
  show ?thesis
  proof (cases "locked (i_lock w)")
    case True
    then have "instance_step t w = w\<lparr>i_pc := (i_pc w)(t := Want_lock (fst (spin n)))\<rparr>"
      using Want_lock by (cases w; cases "i_lock w") (simp add: test_and_set_def)
    then show ?thesis using assms Want_lock by (auto intro!: instance_inv_move)
  next
    case False
    note inv = instance_invD [OF assms]
    have free: "\<not> holds_lock (i_pc w u)" for u using False inv(1) by blast
    have "instance_step t w = w\<lparr>i_lock := (i_lock w)\<lparr>locked := True\<rparr>, i_pc := (i_pc w)(t := Second_test)\<rparr>"
      using Want_lock False by (simp add: test_and_set_def)
    moreover have "instance_inv \<dots>"
      using inv(3-5) free by (intro instance_invI) (auto split: if_splits)
    ultimately show ?thesis by simp
  qed
next
  case Second_test
  then show ?thesis using assms by (auto intro!: instance_inv_move split: option.split)
next
  case Make
  note inv = instance_invD [OF assms]
  have only: "u = t" if "holds_lock (i_pc w u)" for u using inv(2) [OF that, of t] Make by simp
  have none: "i_instance w = None" using inv(3) Make by blast
  then have "i_made w = 0" and no: "i_pc w u \<noteq> Returned p" for u p using inv(4,5) by auto
  then have step: "instance_step t w = w\<lparr>i_instance := Some 0, i_made := 1, i_pc := (i_pc w)(t := Leaving 0)\<rparr>"
    using Make by simp
  have locked: "locked (i_lock w)" using inv(1) Make by (metis holds_lock.simps(2))
  have away: "i_pc w u \<noteq> Make" "i_pc w u \<noteq> Leaving p" if "u \<noteq> t" for u p using only [of u] that by auto
  have "instance_inv (w\<lparr>i_instance := Some 0, i_made := 1, i_pc := (i_pc w)(t := Leaving 0)\<rparr>)"
    using locked only away no by (intro instance_invI) (auto split: if_splits)
  then show ?thesis unfolding step .
next
  case (Leaving p)
  note inv = instance_invD [OF assms]
  have only: "u = t" if "holds_lock (i_pc w u)" for u using inv(2) [OF that, of t] Leaving by simp
  have free: "\<not> holds_lock (((i_pc w)(t := Returned p)) u)" for u using only by auto
  have made: "i_instance w = Some p" using inv(4) Leaving by blast
  have step: "instance_step t w = w\<lparr>i_lock := unlock (i_lock w), i_pc := (i_pc w)(t := Returned p)\<rparr>"
    using Leaving by simp
  show ?thesis unfolding step
    by (rule instance_invI) (use inv(3-5) made free in \<open>auto simp: unlock_def split: if_splits\<close>)
next
  case (Returned p)
  with assms show ?thesis by simp
qed

lemma instance_inv_run: "instance_inv w \<Longrightarrow> instance_inv (instance_run ts w)"
  unfolding instance_run_def by (induction ts arbitrary: w) (simp_all add: instance_inv_step del: instance_step.simps)

lemma instance_inv_start: "instance_inv instance_start"
  by (rule instance_invI) (simp_all add: instance_start_def mk_locker_def)

section \<open>Properties\<close>


text \<open>Calls that log: messages of the three kinds, exceptions, and attempts to start another logger.\<close>

datatype log_call =
    Log LOG_MESSAGE_KIND "arg list"
  | Raise CodePos backtrace "arg list"
  | Start_logger ILogger

fun log_exec :: "log_call \<Rightarrow> log_state \<Rightarrow> log_state" where
  "log_exec (Log MESSAGE args) s = logger args s"
| "log_exec (Log INFO args) s = logger_info args s"
| "log_exec (Log FATAL args) s = logger_fatal args s"
| "log_exec (Raise pos bt args) s = snd (create_and_log pos bt args s)"
| "log_exec (Start_logger l) s = LogManager_start l s"

text \<open>What is logged by a call, if anything: the kind and the text.\<close>

fun log_entry :: "log_call \<Rightarrow> (LOG_MESSAGE_KIND \<times> string) list" where
  "log_entry (Log kind args) = [(kind, concat (map to_string args))]"
| "log_entry (Raise pos bt args) =
     [(FATAL, ''FATAL ERROR. The Exception will be thrown! '' @ CodePos_toString pos @ '' Message: '' @
        concat (map to_string args) @ trace_text bt)]"
| "log_entry (Start_logger l) = []"

lemma args_to_string_eq: "args_to_string args = concat (map to_string args)"
  by (simp add: args_to_string_def args_as_string_eq foldl_append)

lemma log_exec_entry:
  assumes "lm_instance s = Some (OtherLogger k)"
  shows "log_exec c s = s\<lparr>lm_other := lm_other s @ map (Pair k) (log_entry c)\<rparr>"
proof -
  have var: "variadic_message kind args s = s\<lparr>lm_other := lm_other s @ [(k, kind, concat (map to_string args))]\<rparr>"
    for kind args
    using assms by (simp add: variadic_message_def LogManager_instance_def ILogger_message_def args_to_string_eq)
  show ?thesis
    using assms
    by (cases "(c, s)" rule: log_exec.cases)
       (auto simp: logger_def logger_info_def logger_fatal_def var create_and_log_def Let_def LogManager_start_def args_to_string_eq)
qed

text \<open>The logger an application starts first gets everything: all messages and all exceptions, with
  their kinds and full texts, in the order of the calls; later attempts to start another logger
  change nothing, and nothing is printed.\<close>

theorem first_logger_gets_all:
  assumes "lm_instance s = None"
  shows "fold log_exec cs (LogManager_start (OtherLogger k) s) =
    s\<lparr>lm_instance := Some (OtherLogger k), lm_other := lm_other s @ map (Pair k) (concat (map log_entry cs))\<rparr>"
proof -
  have "fold log_exec cs t = t\<lparr>lm_other := lm_other t @ map (Pair k) (concat (map log_entry cs))\<rparr>"
    if "lm_instance t = Some (OtherLogger k)" for t
    using that
  proof (induction cs arbitrary: t)
    case (Cons c cs)
    show ?case using Cons.IH [of "log_exec c t"] Cons.prems by (simp add: log_exec_entry [OF Cons.prems])
  qed simp
  from this [of "LogManager_start (OtherLogger k) s"] assms show ?thesis by (simp add: LogManager_start_def)
qed

theorem first_logger_gets_all_witness:
  "lm_other (fold log_exec [Log INFO [CStrArg ''x='', NumArg (- 12)], Start_logger ConsoleLogger, Log MESSAGE [StrArg ''y'']]
     (LogManager_start (OtherLogger 3) \<lparr>lm_instance = None, lm_verbose = Debug, lm_cout = [], lm_cerr = [], lm_other = []\<rparr>)) =
   [(3, INFO, ''x=-12''), (3, MESSAGE, ''y'')]"
proof -
  have "decimal 12 = ''12''" by code_simp
  then show ?thesis
    by (subst first_logger_gets_all) (simp_all add: char_code_def)
qed

end
