(* ===== verification/Test_Runner.thy ===== *)
theory Test_Runner
  imports Logging
begin

text \<open>
  \<^verbatim>\<open>src/unittests/main.cpp\<close>: the logger of the unit tests, the listener that installs it for every test case, and the
  command line. Messages that are not fatal are kept and shown only for test cases that are expected to fail,
  unless \<open>--verbose\<close> is given. The test framework is not modelled: the listener's calls are the input.
\<close>

record test_state =
  t_manager :: log_state
  t_verbose :: bool
  t_messages :: "string list"

fun ut_prefix :: "LOG_MESSAGE_KIND \<Rightarrow> string" where
  "ut_prefix FATAL = ''[err] ''"
| "ut_prefix INFO = ''[inf] ''"
| "ut_prefix MESSAGE = ''[dbg] ''"

definition UnitTestLogger_message :: "LOG_MESSAGE_KIND \<Rightarrow> string \<Rightarrow> test_state \<Rightarrow> test_state" where
  "UnitTestLogger_message kind msg s =
     (let ss = ut_prefix kind @ msg @ endl in
      if kind = FATAL then s\<lparr>t_manager := (t_manager s)\<lparr>lm_cerr := lm_cerr (t_manager s) @ ss\<rparr>\<rparr>
      else if t_verbose s then s\<lparr>t_manager := (t_manager s)\<lparr>lm_cout := lm_cout (t_manager s) @ ss\<rparr>\<rparr>
      else s\<lparr>t_messages := t_messages s @ [ss]\<rparr>)"

definition dump_all :: "test_state \<Rightarrow> test_state" where
  "dump_all s = s\<lparr>t_manager := (t_manager s)\<lparr>lm_cerr := lm_cerr (t_manager s) @ concat (t_messages s)\<rparr>\<rparr>"

text \<open>A new logger without messages, which the manager takes unless it has another one.\<close>

definition testCaseStarting :: "test_state \<Rightarrow> test_state" where
  "testCaseStarting s = s\<lparr>t_messages := [], t_manager := LogManager_start (OtherLogger 0) (t_manager s)\<rparr>"

definition testCaseEnded :: "bool \<Rightarrow> test_state \<Rightarrow> test_state" where
  "testCaseEnded expectedToFail s =
     (let s' = (if expectedToFail then dump_all s else s) in s'\<lparr>t_manager := LogManager_stop (t_manager s')\<rparr>)"

text \<open>A message of the library while the tests run.\<close>

definition test_log :: "LOG_MESSAGE_KIND \<times> arg list \<Rightarrow> test_state \<Rightarrow> test_state" where
  "test_log m s =
     (case LogManager_instance (t_manager s) of (l, lm) \<Rightarrow>
        (case l of
           ConsoleLogger \<Rightarrow> s\<lparr>t_manager := ConsoleLogger_message (fst m) (args_to_string (snd m)) lm\<rparr>
         | OtherLogger k \<Rightarrow> UnitTestLogger_message (fst m) (args_to_string (snd m)) (s\<lparr>t_manager := lm\<rparr>)))"

definition run_test_case :: "bool \<Rightarrow> (LOG_MESSAGE_KIND \<times> arg list) list \<Rightarrow> test_state \<Rightarrow> test_state" where
  "run_test_case expectedToFail ms s = testCaseEnded expectedToFail (fold test_log ms (testCaseStarting s))"

section \<open>The command line\<close>

text \<open>The copy of the arguments without the one at position \<open>i\<close>: \<open>a\<close> is the loop's counter, and the arguments that are
  left from there are in the list.\<close>

fun copy_except :: "nat \<Rightarrow> nat \<Rightarrow> string list \<Rightarrow> string list" where
  "copy_except i a [] = []"
| "copy_except i a (x # xs) = (if a \<noteq> i then x # copy_except i (Suc a) xs else copy_except i (Suc a) xs)"

fun find_verbose :: "nat \<Rightarrow> string list \<Rightarrow> nat option" where
  "find_verbose i [] = None"
| "find_verbose i (x # xs) = (if x = ''--verbose'' then Some i else find_verbose (Suc i) xs)"

definition main_args :: "string list \<Rightarrow> bool \<times> string list" where
  "main_args argv =
     (case find_verbose 0 argv of
        None \<Rightarrow> (False, argv)
      | Some i \<Rightarrow> (True, copy_except i 0 argv))"

definition exit_code :: "int \<Rightarrow> int" where
  "exit_code result = (if result < 255 then result else 255)"

section \<open>What they do\<close>

lemma copy_except_passed: "i < a \<Longrightarrow> copy_except i a xs = xs"
  by (induction i a xs rule: copy_except.induct) auto

lemma find_copy:
  "find_verbose a xs = Some i \<Longrightarrow> a \<le> i \<and> ''--verbose'' \<in> set xs \<and> copy_except i a xs = remove1 ''--verbose'' xs"
proof (induction a xs rule: find_verbose.induct)
  case (2 a x xs)
  show ?case
  proof (cases "x = ''--verbose''")
    case True
    with 2 show ?thesis by (auto simp: copy_except_passed)
  next
    case False
    with 2 have "Suc a \<le> i \<and> ''--verbose'' \<in> set xs \<and> copy_except i (Suc a) xs = remove1 ''--verbose'' xs" by simp
    with False show ?thesis by auto
  qed
qed simp

lemma find_verbose_None: "find_verbose a xs = None \<longleftrightarrow> ''--verbose'' \<notin> set xs"
  by (induction a xs rule: find_verbose.induct) auto

text \<open>The hand-written copy removes the first \<open>--verbose\<close>, if there is one, and nothing else.\<close>

lemma main_args_removes: "main_args argv = (''--verbose'' \<in> set argv, remove1 ''--verbose'' argv)"
proof (cases "find_verbose 0 argv")
  case None
  then have "''--verbose'' \<notin> set argv" by (simp add: find_verbose_None)
  with None show ?thesis by (simp add: main_args_def remove1_idem)
next
  case (Some i)
  then show ?thesis using find_copy [OF Some] by (simp add: main_args_def)
qed

text \<open>What a message looks like on a stream.\<close>

definition ut_line :: "LOG_MESSAGE_KIND \<times> arg list \<Rightarrow> string" where
  "ut_line m = ut_prefix (fst m) @ args_to_string (snd m) @ endl"

lemma fold_test_log:
  assumes "lm_instance (t_manager s) = Some (OtherLogger k)"
  shows "fold test_log ms s = s\<lparr>t_manager := (t_manager s)\<lparr>
       lm_cerr := lm_cerr (t_manager s) @ concat (map ut_line (filter (\<lambda>m. fst m = FATAL) ms)),
       lm_cout := lm_cout (t_manager s) @ (if t_verbose s then concat (map ut_line (filter (\<lambda>m. fst m \<noteq> FATAL) ms)) else [])\<rparr>,
     t_messages := t_messages s @ (if t_verbose s then [] else map ut_line (filter (\<lambda>m. fst m \<noteq> FATAL) ms))\<rparr>"
  using assms
proof (induction ms arbitrary: s)
  case (Cons m ms)
  have m: "test_log m s = UnitTestLogger_message (fst m) (args_to_string (snd m)) s"
    using Cons.prems by (simp add: test_log_def LogManager_instance_def)
  have "lm_instance (t_manager (test_log m s)) = Some (OtherLogger k)"
    using Cons.prems unfolding m by (simp add: UnitTestLogger_message_def Let_def)
  from Cons.IH [OF this] show ?case
    unfolding fold_simps m by (auto simp: UnitTestLogger_message_def Let_def ut_line_def)
qed simp

text \<open>The output of a test case: fatal messages appear at once; the others appear at once with \<open>--verbose\<close>, and without
  it after the test, in order, if the test is expected to fail. The manager is free for the next test.\<close>

lemma test_case_output:
  fixes fails :: bool and ms :: "(LOG_MESSAGE_KIND \<times> arg list) list"
  assumes "lm_instance (t_manager s) = None"
  defines "s' \<equiv> t_manager (run_test_case fails ms s)"
    and "others \<equiv> concat (map ut_line (filter (\<lambda>m. fst m \<noteq> FATAL) ms))"
  shows "lm_cerr s' = lm_cerr (t_manager s) @ concat (map ut_line (filter (\<lambda>m. fst m = FATAL) ms)) @
           (if fails \<and> \<not> t_verbose s then others else [])"
    and "lm_cout s' = lm_cout (t_manager s) @ (if t_verbose s then others else [])"
    and "lm_instance s' = None"
proof -
  have "lm_instance (t_manager (testCaseStarting s)) = Some (OtherLogger 0)"
    using assms(1) by (simp add: testCaseStarting_def LogManager_start_def)
  note run = fold_test_log [OF this]
  show "lm_cerr s' = lm_cerr (t_manager s) @ concat (map ut_line (filter (\<lambda>m. fst m = FATAL) ms)) @
           (if fails \<and> \<not> t_verbose s then others else [])"
    "lm_cout s' = lm_cout (t_manager s) @ (if t_verbose s then others else [])" "lm_instance s' = None"
    unfolding s'_def others_def run_test_case_def run
    by (simp_all add: testCaseEnded_def dump_all_def testCaseStarting_def LogManager_start_def LogManager_stop_def Let_def assms(1))
qed

end
