(* ===== verification/Mutexes.thy ===== *)
theory Mutexes
  imports Prelude
begin

text \<open>
  Threads that use \<open>std::mutex\<close> and \<open>std::shared_mutex\<close>. A thread is the list of what it still does with
  mutexes and with the data they guard. \<open>std::lock\<close> on two mutexes holds none of them while it waits, so
  it takes both at once. A thread that wants a mutex it already holds never gets it.

  Two disciplines: a thread takes mutexes in increasing order of a rank, so that threads never wait for
  each other in a circle, and it touches data only while it holds the mutex of the data, so that
  there are no races.
\<close>

datatype mode = Shared | Exclusive

datatype usage = Reading | Writing

datatype ('m, 'f) action =
    Acquire mode 'm
  | Acquire_both 'm 'm
  | Release 'm
  | Access usage 'f

type_synonym 'm holding = "('m \<times> mode) list"

type_synonym ('m, 'f) thread = "'m holding \<times> ('m, 'f) action list"

definition available :: "('m, 'f) thread list \<Rightarrow> nat \<Rightarrow> mode \<Rightarrow> 'm \<Rightarrow> bool" where
  "available ws t md m \<longleftrightarrow>
     (\<forall>u < length ws. \<forall>h \<in> set (fst (ws ! u)). fst h = m \<longrightarrow> u \<noteq> t \<and> md = Shared \<and> snd h = Shared)"

definition can_run :: "('m, 'f) thread list \<Rightarrow> nat \<Rightarrow> bool" where
  "can_run ws t \<longleftrightarrow>
     (case snd (ws ! t) of
        [] \<Rightarrow> False
      | Acquire md m # _ \<Rightarrow> available ws t md m
      | Acquire_both m m' # _ \<Rightarrow> available ws t Exclusive m \<and> available ws t Exclusive m'
      | _ \<Rightarrow> True)"

fun perform :: "('m, 'f) thread \<Rightarrow> ('m, 'f) thread" where
  "perform (h, []) = (h, [])"
| "perform (h, Acquire md m # as) = ((m, md) # h, as)"
| "perform (h, Acquire_both m m' # as) = ((m, Exclusive) # (m', Exclusive) # h, as)"
| "perform (h, Release m # as) = (filter (\<lambda>x. fst x \<noteq> m) h, as)"
| "perform (h, Access u f # as) = (h, as)"

inductive thread_step :: "('m, 'f) thread list \<Rightarrow> ('m, 'f) thread list \<Rightarrow> bool" where
  "t < length ws \<Longrightarrow> can_run ws t \<Longrightarrow> thread_step ws (ws[t := perform (ws ! t)])"

definition deadlocked :: "('m, 'f) thread list \<Rightarrow> bool" where
  "deadlocked ws \<longleftrightarrow> (\<exists>w \<in> set ws. snd w \<noteq> []) \<and> (\<forall>t < length ws. \<not> can_run ws t)"

text \<open>Two threads are about to touch the same data, and one of them writes.\<close>

definition racing :: "('m, 'f) thread list \<Rightarrow> bool" where
  "racing ws \<longleftrightarrow> (\<exists>t u f use as bs. t < length ws \<and> u < length ws \<and> t \<noteq> u \<and>
     snd (ws ! t) = Access Writing f # as \<and> snd (ws ! u) = Access use f # bs)"

section \<open>The disciplines\<close>

fun ordered :: "('m \<Rightarrow> nat) \<Rightarrow> 'm holding \<Rightarrow> ('m, 'f) action list \<Rightarrow> bool" where
  "ordered rank h [] \<longleftrightarrow> h = []"
| "ordered rank h (Acquire md m # as) \<longleftrightarrow> (\<forall>x \<in> set h. rank (fst x) < rank m) \<and> ordered rank ((m, md) # h) as"
| "ordered rank h (Acquire_both m m' # as) \<longleftrightarrow>
     (\<forall>x \<in> set h. rank (fst x) < rank m \<and> rank (fst x) < rank m') \<and>
     ordered rank ((m, Exclusive) # (m', Exclusive) # h) as"
| "ordered rank h (Release m # as) \<longleftrightarrow> ordered rank (filter (\<lambda>x. fst x \<noteq> m) h) as"
| "ordered rank h (Access u f # as) \<longleftrightarrow> ordered rank h as"

fun protected :: "('f \<Rightarrow> 'm) \<Rightarrow> 'm holding \<Rightarrow> ('m, 'f) action list \<Rightarrow> bool" where
  "protected guard h [] \<longleftrightarrow> True"
| "protected guard h (Acquire md m # as) \<longleftrightarrow> protected guard ((m, md) # h) as"
| "protected guard h (Acquire_both m m' # as) \<longleftrightarrow> protected guard ((m, Exclusive) # (m', Exclusive) # h) as"
| "protected guard h (Release m # as) \<longleftrightarrow> protected guard (filter (\<lambda>x. fst x \<noteq> m) h) as"
| "protected guard h (Access u f # as) \<longleftrightarrow>
     ((guard f, Exclusive) \<in> set h \<or> u = Reading \<and> (guard f, Shared) \<in> set h) \<and> protected guard h as"

lemma ordered_perform: "ordered rank (fst w) (snd w) \<Longrightarrow> ordered rank (fst (perform w)) (snd (perform w))"
  by (cases w rule: perform.cases) simp_all

lemma protected_perform: "protected guard (fst w) (snd w) \<Longrightarrow> protected guard (fst (perform w)) (snd (perform w))"
  by (cases w rule: perform.cases) simp_all

text \<open>One operation after the other.\<close>

lemma ordered_append: "ordered rank h as \<Longrightarrow> ordered rank [] bs \<Longrightarrow> ordered rank h (as @ bs)"
  by (induction rank h as rule: ordered.induct) simp_all

lemma ordered_concat: "(\<And>as. as \<in> set scripts \<Longrightarrow> ordered rank [] as) \<Longrightarrow> ordered rank [] (concat scripts)"
  by (induction scripts) (simp_all add: ordered_append)

lemma protected_append:
  "ordered rank h as \<Longrightarrow> protected guard h as \<Longrightarrow> protected guard [] bs \<Longrightarrow> protected guard h (as @ bs)"
  by (induction rank h as rule: ordered.induct) simp_all

text \<open>An operation called while other mutexes are held, all of lower rank.\<close>

fun mutexes_of :: "('m, 'f) action list \<Rightarrow> 'm set" where
  "mutexes_of [] = {}"
| "mutexes_of (Acquire md m # as) = insert m (mutexes_of as)"
| "mutexes_of (Acquire_both m m' # as) = insert m (insert m' (mutexes_of as))"
| "mutexes_of (Release m # as) = insert m (mutexes_of as)"
| "mutexes_of (Access u f # as) = mutexes_of as"

lemma mutexes_of_append [simp]: "mutexes_of (as @ bs) = mutexes_of as \<union> mutexes_of bs"
  by (induction as rule: mutexes_of.induct) auto

lemma mutexes_of_concat [simp]: "mutexes_of (concat scripts) = (\<Union>as \<in> set scripts. mutexes_of as)"
  by (induction scripts) auto

lemma ordered_nested:
  assumes "ordered rank h bs" and "\<And>x m. x \<in> set h \<Longrightarrow> m \<in> mutexes_of as \<Longrightarrow> rank (fst x) < rank m"
  shows "ordered rank k as \<Longrightarrow> ordered rank (k @ h) (as @ bs)"
  using assms
proof (induction rank k as rule: ordered.induct)
  case (4 rank k m as)
  have "filter (\<lambda>x. fst x \<noteq> m) h = h" using 4(4) by (intro filter_True) auto
  with 4 show ?case by simp
qed auto

lemma ordered_nested_concat:
  assumes "ordered rank h bs" and "\<And>as. as \<in> set scripts \<Longrightarrow> ordered rank [] as"
    and "\<And>as x m. as \<in> set scripts \<Longrightarrow> x \<in> set h \<Longrightarrow> m \<in> mutexes_of as \<Longrightarrow> rank (fst x) < rank m"
  shows "ordered rank h (concat scripts @ bs)"
  using assms(2,3)
proof (induction scripts)
  case Nil
  show ?case using assms(1) by simp
next
  case (Cons as scripts)
  have "ordered rank h (concat scripts @ bs)"
    by (rule Cons.IH) (use Cons.prems in \<open>simp_all, blast\<close>)
  then have "ordered rank ([] @ h) (as @ (concat scripts @ bs))"
    by (rule ordered_nested) (use Cons.prems in \<open>simp_all, blast\<close>)
  then show ?case by simp
qed

section \<open>No deadlocks\<close>

text \<open>A thread that cannot go on wants a mutex that another thread holds, of a higher rank than all its own.\<close>

lemma blocked_wants:
  assumes "ordered rank (fst w) (snd w)" and "ws ! t = w" and "t < length ws" and "\<not> can_run ws t" and "snd w \<noteq> []"
  obtains m u where "u < length ws" and "m \<in> fst ` set (fst (ws ! u))" and "\<forall>x \<in> set (fst w). rank (fst x) < rank m"
proof -
  note goal = that
  have take: thesis if "\<not> available ws t md m" and low: "\<forall>x \<in> set (fst w). rank (fst x) < rank m" for md m
  proof -
    from that(1) obtain u h where "u < length ws" "h \<in> set (fst (ws ! u))" "fst h = m" unfolding available_def by blast
    then show thesis using goal [of u m] low by blast
  qed
  obtain a as where w: "snd w = a # as" using assms(5) by (cases "snd w") auto
  show thesis
  proof (cases a)
    case (Acquire md m)
    with assms w show thesis by (intro take [of md m]) (simp_all add: can_run_def)
  next
    case (Acquire_both m m')
    with assms w consider "\<not> available ws t Exclusive m" | "\<not> available ws t Exclusive m'" by (auto simp: can_run_def)
    then show thesis using assms(1) w Acquire_both by cases (auto intro: take)
  qed (use assms w in \<open>simp_all add: can_run_def\<close>)
qed

lemma ordered_not_deadlocked:
  assumes ordered: "\<And>t. t < length ws \<Longrightarrow> ordered rank (fst (ws ! t)) (snd (ws ! t))"
  shows "\<not> deadlocked ws"
proof
  assume dead: "deadlocked ws"
  define wanted where "wanted = {m. \<exists>t < length ws. \<exists>u < length ws. m \<in> fst ` set (fst (ws ! u)) \<and>
      (\<forall>x \<in> set (fst (ws ! t)). rank (fst x) < rank m)}"
  have wants: "\<exists>m \<in> wanted. \<forall>x \<in> set (fst (ws ! t)). rank (fst x) < rank m" if "t < length ws" "snd (ws ! t) \<noteq> []" for t
  proof -
    have "\<not> can_run ws t" using dead that(1) by (simp add: deadlocked_def)
    from blocked_wants [OF ordered [OF that(1)] refl that(1) this that(2)] obtain m u where
      "u < length ws" "m \<in> fst ` set (fst (ws ! u))" "\<forall>x \<in> set (fst (ws ! t)). rank (fst x) < rank m" .
    with that(1) show ?thesis unfolding wanted_def by blast
  qed
  have "wanted \<subseteq> (\<Union>w \<in> set ws. fst ` set (fst w))"
  proof
    fix m
    assume "m \<in> wanted"
    then obtain u where "u < length ws" "m \<in> fst ` set (fst (ws ! u))" unfolding wanted_def by blast
    then show "m \<in> (\<Union>w \<in> set ws. fst ` set (fst w))" using nth_mem by blast
  qed
  then have fin: "finite wanted" by (rule finite_subset) simp
  obtain t where "t < length ws" "snd (ws ! t) \<noteq> []" using dead unfolding deadlocked_def by (metis in_set_conv_nth)
  with wants have "wanted \<noteq> {}" by blast
  with fin have "Max (rank ` wanted) \<in> rank ` wanted" by (intro Max_in) simp_all
  then obtain m where "m \<in> wanted" "rank m = Max (rank ` wanted)" by (metis imageE)
  then have m: "m \<in> wanted" "\<And>m'. m' \<in> wanted \<Longrightarrow> rank m' \<le> rank m" using fin by simp_all
  then obtain u x where u: "u < length ws" "x \<in> set (fst (ws ! u))" "fst x = m" unfolding wanted_def by blast
  then have "snd (ws ! u) \<noteq> []" using ordered [OF u(1)] by (cases "snd (ws ! u)") auto
  from wants [OF u(1) this] u(2,3) obtain m' where "m' \<in> wanted" "rank m < rank m'" by blast
  with m(2) show False by (meson not_le)
qed

section \<open>No races\<close>

text \<open>A mutex is held by one thread, or shared.\<close>

definition exclusive :: "('m, 'f) thread list \<Rightarrow> bool" where
  "exclusive ws \<longleftrightarrow> (\<forall>t < length ws. \<forall>u < length ws. \<forall>h \<in> set (fst (ws ! t)). \<forall>k \<in> set (fst (ws ! u)).
     t \<noteq> u \<longrightarrow> fst h = fst k \<longrightarrow> snd h = Shared \<and> snd k = Shared)"

lemma held_by_perform:
  assumes "h \<in> set (fst (perform w))"
  shows "h \<in> set (fst w) \<or> (\<exists>md m as. snd w = Acquire md m # as \<and> h = (m, md)) \<or>
    (\<exists>m m' as. snd w = Acquire_both m m' # as \<and> h \<in> {(m, Exclusive), (m', Exclusive)})"
  using assms by (cases w rule: perform.cases) auto

lemma acquired_available:
  assumes "can_run ws t" and "h \<in> set (fst (perform (ws ! t)))"
  shows "h \<in> set (fst (ws ! t)) \<or> available ws t (snd h) (fst h)"
  using held_by_perform [OF assms(2)] assms(1) by (auto simp: can_run_def)

lemma exclusive_step:
  assumes "exclusive ws" and "t < length ws" and "can_run ws t"
  shows "exclusive (ws[t := perform (ws ! t)])"
proof -
  have new: "snd h = Shared \<and> snd k = Shared"
    if "h \<in> set (fst (perform (ws ! t)))" "u < length ws" "k \<in> set (fst (ws ! u))" "u \<noteq> t" "fst h = fst k" for h k u
    using acquired_available [OF assms(3) that(1)]
  proof
    assume "h \<in> set (fst (ws ! t))"
    with assms(1,2) that(2-5) show ?thesis unfolding exclusive_def by metis
  next
    assume "available ws t (snd h) (fst h)"
    with that(2-5) show ?thesis unfolding available_def by metis
  qed
  show ?thesis
    unfolding exclusive_def
  proof (intro allI ballI impI)
    fix a u h k
    let ?ws = "ws[t := perform (ws ! t)]"
    assume au: "a < length ?ws" "u < length ?ws" "h \<in> set (fst (?ws ! a))" "k \<in> set (fst (?ws ! u))" "a \<noteq> u" "fst h = fst k"
    consider "a = t" "u \<noteq> t" | "u = t" "a \<noteq> t" | "a \<noteq> t" "u \<noteq> t" using au(5) by blast
    then show "snd h = Shared \<and> snd k = Shared"
    proof cases
      case 1
      with au assms(2) show ?thesis using new [of h u k] by simp
    next
      case 2
      with au assms(2) show ?thesis using new [of k a h] by simp
    next
      case 3
      with au assms(1) show ?thesis unfolding exclusive_def by (metis length_list_update nth_list_update_neq)
    qed
  qed
qed

lemma protected_not_racing:
  assumes "exclusive ws" and "\<And>t. t < length ws \<Longrightarrow> protected guard (fst (ws ! t)) (snd (ws ! t))"
  shows "\<not> racing ws"
proof
  assume "racing ws"
  then obtain t u f us as bs where r: "t < length ws" "u < length ws" "t \<noteq> u"
    "snd (ws ! t) = Access Writing f # as" "snd (ws ! u) = Access us f # bs" unfolding racing_def by blast
  then have "(guard f, Exclusive) \<in> set (fst (ws ! t))" using assms(2) [OF r(1)] by simp
  moreover obtain md where "(guard f, md) \<in> set (fst (ws ! u))" using assms(2) [OF r(2)] r(5) by auto
  ultimately show False using assms(1) r(1-3) unfolding exclusive_def by fastforce
qed

section \<open>Programs\<close>

text \<open>Threads that call operations, each any sequence of them.\<close>

definition start_threads :: "('c \<Rightarrow> ('m, 'f) action list) \<Rightarrow> 'c list list \<Rightarrow> ('m, 'f) thread list" where
  "start_threads script calls = map (\<lambda>cs. ([], concat (map script cs))) calls"

lemma thread_invariant:
  assumes "thread_step\<^sup>*\<^sup>* (start_threads script calls) ws"
    and "\<And>cs. cs \<in> set calls \<Longrightarrow> P ([], concat (map script cs))" and "\<And>w. P w \<Longrightarrow> P (perform w)" and "t < length ws"
  shows "P (ws ! t)"
  using assms(1,4)
proof (induction arbitrary: t)
  case base
  then show ?case using assms(2) by (simp add: start_threads_def)
next
  case (step ws ws')
  from step(2) show ?case
  proof cases
    case (1 u)
    with step.IH step.prems assms(3) show ?thesis by (auto simp: nth_list_update)
  qed
qed

lemma reachable_exclusive: "thread_step\<^sup>*\<^sup>* (start_threads script calls) ws \<Longrightarrow> exclusive ws"
proof (induction rule: rtranclp_induct)
  case base
  show ?case by (simp add: exclusive_def start_threads_def)
next
  case (step ws ws')
  from step(2) show ?case using exclusive_step [OF step.IH] by cases simp
qed

text \<open>Every step takes one action off a thread, so threads that do not deadlock come to their ends.\<close>

definition finished :: "('m, 'f) thread list \<Rightarrow> bool" where
  "finished ws \<longleftrightarrow> (\<forall>w \<in> set ws. snd w = [])"

lemma perform_shorter: "snd w \<noteq> [] \<Longrightarrow> length (snd (perform w)) < length (snd w)"
  by (cases w rule: perform.cases) simp_all

lemma can_run_unfinished: "can_run ws t \<Longrightarrow> snd (ws ! t) \<noteq> []"
  by (auto simp: can_run_def)

lemma sum_list_update_less: "t < length xs \<Longrightarrow> y < xs ! t \<Longrightarrow> sum_list (xs[t := y]) < sum_list xs" for xs :: "nat list"
proof (induction xs arbitrary: t)
  case (Cons x xs)
  then show ?case by (cases t) simp_all
qed simp

definition remaining :: "('m, 'f) thread list \<Rightarrow> nat" where
  "remaining ws = sum_list (map (\<lambda>w. length (snd w)) ws)"

lemma thread_step_remaining: "thread_step ws ws' \<Longrightarrow> remaining ws' < remaining ws"
  by (induction rule: thread_step.induct)
    (simp add: remaining_def map_update sum_list_update_less perform_shorter can_run_unfinished)

lemma runs_to_end:
  assumes "thread_step\<^sup>*\<^sup>* ws0 ws" and live: "\<And>ws. thread_step\<^sup>*\<^sup>* ws0 ws \<Longrightarrow> \<not> deadlocked ws"
  shows "\<exists>ws'. thread_step\<^sup>*\<^sup>* ws ws' \<and> finished ws'"
  using assms(1)
proof (induction "remaining ws" arbitrary: ws rule: less_induct)
  case less
  show ?case
  proof (cases "finished ws")
    case False
    with live [OF less.prems] obtain t where "t < length ws" "can_run ws t"
      unfolding deadlocked_def finished_def by blast
    then have more: "thread_step ws (ws[t := perform (ws ! t)])" by (rule thread_step.intros)
    let ?ws = "ws[t := perform (ws ! t)]"
    have "thread_step\<^sup>*\<^sup>* ws0 ?ws" using less.prems more by (rule rtranclp.rtrancl_into_rtrancl)
    from less.hyps [OF thread_step_remaining [OF more] this] obtain ws' where "thread_step\<^sup>*\<^sup>* ?ws ws'" "finished ws'"
      by blast
    moreover from more this(1) have "thread_step\<^sup>*\<^sup>* ws ws'" by (rule converse_rtranclp_into_rtranclp)
    ultimately show ?thesis by blast
  qed blast
qed

text \<open>The contract of a set of operations: the orderly ones take the mutexes in order; the careful ones among
  them touch only what they have locked.\<close>

locale lock_discipline =
  fixes rank :: "'m \<Rightarrow> nat"
    and guard :: "'f \<Rightarrow> 'm"
    and script :: "'c \<Rightarrow> ('m, 'f) action list"
    and orderly :: "'c \<Rightarrow> bool"
    and careful :: "'c \<Rightarrow> bool"
  assumes in_order: "orderly c \<Longrightarrow> ordered rank [] (script c)"
    and careful_orderly: "careful c \<Longrightarrow> orderly c"
    and in_guard: "careful c \<Longrightarrow> protected guard [] (script c)"
begin

lemma never_deadlocked:
  assumes "thread_step\<^sup>*\<^sup>* (start_threads script calls) ws" and "\<forall>cs \<in> set calls. list_all orderly cs"
  shows "\<not> deadlocked ws"
proof (rule ordered_not_deadlocked)
  fix t
  assume "t < length ws"
  moreover have "ordered rank [] (concat (map script cs))" if "list_all orderly cs" for cs
    using that by (intro ordered_concat) (auto simp: in_order list_all_iff)
  ultimately show "ordered rank (fst (ws ! t)) (snd (ws ! t))"
    using thread_invariant [OF assms(1), of "\<lambda>w. ordered rank (fst w) (snd w)"] assms(2) ordered_perform
    by (metis fst_conv snd_conv)
qed

lemma run_finishes:
  assumes "thread_step\<^sup>*\<^sup>* (start_threads script calls) ws" and "\<forall>cs \<in> set calls. list_all orderly cs"
  shows "\<exists>ws'. thread_step\<^sup>*\<^sup>* ws ws' \<and> finished ws'"
  by (rule runs_to_end [OF assms(1) never_deadlocked [OF _ assms(2)]])

lemma never_racing:
  assumes "thread_step\<^sup>*\<^sup>* (start_threads script calls) ws" and "\<forall>cs \<in> set calls. list_all careful cs"
  shows "\<not> racing ws"
proof (rule protected_not_racing [OF reachable_exclusive [OF assms(1)]])
  fix t
  assume "t < length ws"
  moreover have "protected guard [] (concat (map script cs))" if "list_all careful cs" for cs
    using that by (induction cs) (simp_all add: protected_append [OF in_order] in_guard careful_orderly)
  ultimately show "protected guard (fst (ws ! t)) (snd (ws ! t))"
    using thread_invariant [OF assms(1), of "\<lambda>w. protected guard (fst w) (snd w)"] assms(2) protected_perform
    by (metis fst_conv snd_conv)
qed

end

section \<open>Schedules\<close>

text \<open>A run by the numbers of the threads that take the steps.\<close>

fun schedule :: "nat list \<Rightarrow> ('m, 'f) thread list \<Rightarrow> ('m, 'f) thread list option" where
  "schedule [] ws = Some ws"
| "schedule (t # ts) ws = (if t < length ws \<and> can_run ws t then schedule ts (ws[t := perform (ws ! t)]) else None)"

lemma schedule_reaches: "schedule ts ws = Some ws' \<Longrightarrow> thread_step\<^sup>*\<^sup>* ws ws'"
proof (induction ts arbitrary: ws)
  case (Cons t ts)
  then have "t < length ws" "can_run ws t" "thread_step\<^sup>*\<^sup>* (ws[t := perform (ws ! t)]) ws'" by (auto split: if_splits)
  then show ?case by (meson converse_rtranclp_into_rtranclp thread_step.intros)
qed simp

lemma schedule_exhibits:
  assumes "case schedule ts ws of None \<Rightarrow> False | Some ws' \<Rightarrow> P ws'"
  shows "\<exists>ws'. thread_step\<^sup>*\<^sup>* ws ws' \<and> P ws'"
  using assms schedule_reaches by (auto split: option.splits)

lemmas schedule_eval = start_threads_def can_run_def available_def All_less_Suc Ex_less_Suc

end
