(* ===== verification/Locking.thy ===== *)
theory Locking
  imports Mutexes
begin

text \<open>
  The mutexes of the library: what each operation of the server process and of a client locks, in which
  order, and which shared containers it touches meanwhile, on each of its paths. The arguments of a
  script say which path is taken. An operation that throws releases what it holds, since the code uses
  guards. The waiting of a synchronous call for its reply is no mutex; it is in the theories of the
  client. The flags \<open>isConnected\<close>, \<open>isStoped\<close>, \<open>_loginConfirmed\<close> and the pointers to the connections are in no
  script, and neither are the locks of the logger, which are taken last and released at once.

  The server's operations never deadlock, also if its consumers publish. Those of a client do not
  deadlock as long as its consumers do not call it. Operations other than publishing and stopping
  touch only what they have locked.
\<close>

datatype mutex =
    Server_locker | Locker_connections | EventHandlers_locker | Queues_locker | Subscriptions_locker
  | Users_locker | Client_locker | Pool_locker | Instance_locker | ReCache_locker

datatype shared_data =
    D_queues | D_subscriptions | D_users | D_connections | D_messageId | D_handlers | D_requests | D_pool
  | D_instance | D_cache

type_synonym locks = "(mutex, shared_data) action list"

primrec guard :: "shared_data \<Rightarrow> mutex" where
  "guard D_queues = Queues_locker"
| "guard D_subscriptions = Subscriptions_locker"
| "guard D_users = Users_locker"
| "guard D_connections = Locker_connections"
| "guard D_messageId = Server_locker"
| "guard D_handlers = EventHandlers_locker"
| "guard D_requests = Client_locker"
| "guard D_pool = Pool_locker"
| "guard D_instance = Instance_locker"
| "guard D_cache = ReCache_locker"

section \<open>Tag expressions, users and handlers\<close>

text \<open>\<open>None\<close> for the empty expression; otherwise whether the cache has to be made. The pointer to the cache
  is tested before its mutex is taken.\<close>

definition locks_checkTag :: "bool option \<Rightarrow> locks" where
  "locks_checkTag check =
     (case check of
        None \<Rightarrow> []
      | Some first \<Rightarrow>
          [Access Reading D_instance] @
          (if first then [Acquire Exclusive Instance_locker, Access Reading D_instance, Access Writing D_instance, Release Instance_locker]
           else []) @
          [Acquire Exclusive ReCache_locker, Access Writing D_cache, Release ReCache_locker])"

definition locks_users_read :: locks where
  "locks_users_read = [Acquire Shared Users_locker, Access Reading D_users, Release Users_locker]"

definition locks_users_write :: locks where
  "locks_users_write = [Acquire Exclusive Users_locker, Access Writing D_users, Release Users_locker]"

text \<open>Whether the handler is added, or refused as one of another client.\<close>

definition locks_addHandler :: "bool \<Rightarrow> locks" where
  "locks_addHandler added =
     [Acquire Exclusive EventHandlers_locker, Access (if added then Writing else Reading) D_handlers,
      Release EventHandlers_locker]"

definition locks_rmHandler :: locks where
  "locks_rmHandler = [Acquire Exclusive EventHandlers_locker, Access Writing D_handlers, Release EventHandlers_locker]"

text \<open>A consumer that is linked to the queue and still registered: its expression and, if it matches, what the
  consumer locks.\<close>

fun locks_consume :: "bool option \<times> locks option \<Rightarrow> locks" where
  "locks_consume (check, consume) =
     Access Reading D_handlers # locks_checkTag check @ (case consume of None \<Rightarrow> [] | Some ls \<Rightarrow> ls)"

definition locks_callConsumer :: "(bool option \<times> locks option) list \<Rightarrow> locks" where
  "locks_callConsumer consumers =
     [Acquire Shared EventHandlers_locker, Access Reading D_handlers] @
     concat (map locks_consume consumers) @
     [Release EventHandlers_locker]"

section \<open>The node\<close>

text \<open>Whether the request is ignored because there is no such queue, and whether the client is known.\<close>

definition locks_change_impl :: "bool \<Rightarrow> bool \<Rightarrow> locks" where
  "locks_change_impl ignored known =
     [Access Reading D_queues] @
     (if ignored then []
      else locks_users_read @
        (if known then [Acquire Exclusive Subscriptions_locker, Access Writing D_subscriptions, Release Subscriptions_locker]
         else []))"

definition locks_changeSubscription :: "bool \<Rightarrow> bool \<Rightarrow> locks" where
  "locks_changeSubscription ignored known =
     [Acquire Exclusive Queues_locker] @ locks_change_impl ignored known @ [Release Queues_locker]"

definition locks_createQueue :: "bool \<Rightarrow> bool \<Rightarrow> bool \<Rightarrow> locks" where
  "locks_createQueue known exists known' =
     locks_users_read @
     (if known then
        [Acquire Exclusive Queues_locker, Access Reading D_queues, Access Writing D_queues] @
        (if exists then [] else locks_change_impl False known') @
        [Release Queues_locker]
      else [])"

definition locks_getDescription :: "nat \<Rightarrow> locks" where
  "locks_getDescription queues =
     [Acquire Shared Queues_locker, Access Reading D_queues] @
     concat (replicate queues
       [Acquire Shared Subscriptions_locker, Access Reading D_subscriptions, Release Subscriptions_locker]) @
     [Release Queues_locker]"

definition locks_eraseClient :: locks where
  "locks_eraseClient =
     [Acquire_both Subscriptions_locker Queues_locker, Access Writing D_subscriptions, Access Writing D_queues,
      Release Subscriptions_locker, Release Queues_locker]"

text \<open>\<open>publish\<close> tests for the queue without a lock, and \<open>operator[]\<close> under a shared lock makes an entry if there
  is none. Then come the listeners, each with its expression and, if it is a target, what the handler locks.\<close>

fun locks_target :: "bool option \<times> locks option \<Rightarrow> locks" where
  "locks_target (check, handler) = locks_checkTag check @ (case handler of None \<Rightarrow> [] | Some ls \<Rightarrow> ls)"

definition locks_publish :: "bool \<Rightarrow> bool \<Rightarrow> (bool option \<times> locks option) list \<Rightarrow> locks" where
  "locks_publish exists entry targets =
     locks_users_read @ [Access Reading D_queues] @
     (if exists then
        [Acquire Shared Subscriptions_locker, Access (if entry then Reading else Writing) D_subscriptions,
         Release Subscriptions_locker] @
        concat (map locks_target targets)
      else [])"

section \<open>The server\<close>

definition locks_sendTo :: locks where
  "locks_sendTo = [Acquire Exclusive Locker_connections, Access Reading D_connections, Release Locker_connections]"

text \<open>\<open>onSendToClient\<close>: for another client, and for the server itself.\<close>

definition locks_toClient :: locks where
  "locks_toClient = [Acquire Exclusive Server_locker, Access Writing D_messageId] @ locks_sendTo @ [Release Server_locker]"

text \<open>A consumer of the server does not call it, or publishes to a queue whose listeners are clients, as the
  echo benchmark does.\<close>

datatype reaction = Quiet | Republish bool bool "(bool option \<times> bool) list"

primrec locks_reaction :: "reaction \<Rightarrow> locks" where
  "locks_reaction Quiet = []"
| "locks_reaction (Republish exists entry targets) =
     locks_publish exists entry (map (\<lambda>(check, hit). (check, if hit then Some locks_toClient else None)) targets)"

datatype delivery =
    Miss "bool option"
  | To_client "bool option"
  | To_server "bool option" "(bool option \<times> reaction option) list"

primrec locks_delivery :: "delivery \<Rightarrow> bool option \<times> locks option" where
  "locks_delivery (Miss check) = (check, None)"
| "locks_delivery (To_client check) = (check, Some locks_toClient)"
| "locks_delivery (To_server check consumers) =
     (check, Some (locks_callConsumer (map (map_prod id (map_option locks_reaction)) consumers)))"

definition locks_handle_accept :: locks where
  "locks_handle_accept =
     [Acquire Exclusive Locker_connections, Release Locker_connections] @
     locks_users_write @
     [Acquire Exclusive Locker_connections, Access Writing D_connections, Release Locker_connections]"

definition locks_onDisconnect :: "bool \<Rightarrow> locks" where
  "locks_onDisconnect known = locks_users_write @ (if known then locks_eraseClient else [])"

text \<open>Whether the client of the connection is still in the user table; if not, \<open>onDisconnect\<close> throws.\<close>

definition locks_close :: "bool \<Rightarrow> locks" where
  "locks_close known =
     [Acquire Exclusive Locker_connections, Access Reading D_connections] @
     locks_onDisconnect known @
     (if known then [Access Writing D_connections] else []) @
     [Release Locker_connections]"

text \<open>The connections that are closed, and whether none of them throws. \<open>stopServer\<close> takes no mutex itself.\<close>

definition locks_stopServer :: "bool list \<Rightarrow> bool \<Rightarrow> locks" where
  "locks_stopServer conns complete =
     [Access Reading D_connections] @
     concat (map locks_close conns) @
     (if complete then [Access Writing D_connections] else [])"

datatype server_call =
    S_accept
  | S_close bool
  | S_login
  | S_create bool bool bool
  | S_change bool bool
  | S_publish bool bool "delivery list"
  | S_description nat
  | S_users
  | S_subscribe "bool option" bool bool
  | S_rmHandler
  | S_stop "bool list" bool

primrec server_locks :: "server_call \<Rightarrow> locks" where
  "server_locks S_accept = locks_handle_accept"
| "server_locks (S_close known) = locks_close known"
| "server_locks S_login = locks_users_write"
| "server_locks (S_create known exists known') = locks_createQueue known exists known'"
| "server_locks (S_change ignored known) = locks_changeSubscription ignored known"
| "server_locks (S_publish exists entry targets) = locks_publish exists entry (map locks_delivery targets)"
| "server_locks (S_description queues) = locks_getDescription queues"
| "server_locks S_users = locks_users_read"
| "server_locks (S_subscribe handler ignored known) =
     (case handler of None \<Rightarrow> [] | Some added \<Rightarrow> locks_addHandler added) @
     (if handler = Some False then [] else locks_changeSubscription ignored known)"
| "server_locks S_rmHandler = locks_rmHandler"
| "server_locks (S_stop conns complete) = locks_stopServer conns complete"

primrec server_rank :: "mutex \<Rightarrow> nat" where
  "server_rank EventHandlers_locker = 0"
| "server_rank Server_locker = 1"
| "server_rank Locker_connections = 2"
| "server_rank Queues_locker = 3"
| "server_rank Subscriptions_locker = 4"
| "server_rank Users_locker = 5"
| "server_rank Instance_locker = 6"
| "server_rank ReCache_locker = 7"
| "server_rank Client_locker = 8"
| "server_rank Pool_locker = 9"

fun server_careful :: "server_call \<Rightarrow> bool" where
  "server_careful (S_publish exists entry targets) \<longleftrightarrow> False"
| "server_careful (S_stop conns complete) \<longleftrightarrow> False"
| "server_careful _ \<longleftrightarrow> True"

section \<open>The server's order\<close>

lemmas script_defs = locks_checkTag_def locks_users_read_def locks_users_write_def locks_addHandler_def locks_rmHandler_def
  locks_change_impl_def locks_changeSubscription_def locks_createQueue_def locks_eraseClient_def locks_sendTo_def
  locks_toClient_def locks_handle_accept_def locks_onDisconnect_def locks_close_def

lemma ordered_checkTag: "ordered rank [] (locks_checkTag check)"
  by (auto simp: locks_checkTag_def split: option.split)

lemma mutexes_checkTag: "mutexes_of (locks_checkTag check) \<subseteq> {Instance_locker, ReCache_locker}"
  by (auto simp: locks_checkTag_def split: option.split)

lemma ordered_consume:
  assumes "\<And>ls. snd cs = Some ls \<Longrightarrow> ordered rank [] ls"
  shows "ordered rank [] (locks_consume cs)"
  using assms by (cases cs) (auto intro!: ordered_append ordered_checkTag split: option.split)

lemma ordered_target:
  assumes "\<And>ls. snd cs = Some ls \<Longrightarrow> ordered rank [] ls"
  shows "ordered rank [] (locks_target cs)"
  using assms by (cases cs) (auto intro!: ordered_append ordered_checkTag split: option.split)

lemma ordered_callConsumer:
  assumes calls: "\<And>cs ls. cs \<in> set consumers \<Longrightarrow> snd cs = Some ls \<Longrightarrow> ordered rank [] ls"
    and high: "\<And>cs ls m. cs \<in> set consumers \<Longrightarrow> snd cs = Some ls \<Longrightarrow> m \<in> mutexes_of ls \<Longrightarrow> rank EventHandlers_locker < rank m"
    and last: "rank EventHandlers_locker < rank Instance_locker" "rank EventHandlers_locker < rank ReCache_locker"
  shows "ordered rank [] (locks_callConsumer consumers)"
proof -
  have in_order: "ordered rank [] (locks_consume cs)" if "cs \<in> set consumers" for cs
    using calls [OF that] by (rule ordered_consume)
  have above: "rank EventHandlers_locker < rank m" if cs: "cs \<in> set consumers" "m \<in> mutexes_of (locks_consume cs)" for cs m
  proof (cases cs)
    case (Pair check consume)
    with cs(2) consider "m \<in> mutexes_of (locks_checkTag check)" | ls where "consume = Some ls" "m \<in> mutexes_of ls"
      by (auto split: option.splits)
    then show ?thesis
    proof cases
      case 1
      with mutexes_checkTag [of check] last show ?thesis by auto
    next
      case 2
      with high [OF cs(1)] Pair show ?thesis by simp
    qed
  qed
  have "ordered rank [(EventHandlers_locker, Shared)] (concat (map locks_consume consumers) @ [Release EventHandlers_locker])"
    by (rule ordered_nested_concat) (use in_order above in \<open>auto simp del: locks_consume.simps\<close>)
  then show ?thesis by (simp add: locks_callConsumer_def)
qed

lemma ordered_publish:
  assumes "\<And>cs ls. cs \<in> set targets \<Longrightarrow> snd cs = Some ls \<Longrightarrow> ordered rank [] ls"
  shows "ordered rank [] (locks_publish exists entry targets)"
proof -
  have "ordered rank [] (concat (map locks_target targets))"
    using ordered_target [OF assms] by (intro ordered_concat) auto
  then show ?thesis by (simp add: locks_publish_def locks_users_read_def)
qed

lemma mutexes_publish:
  assumes "m \<in> mutexes_of (locks_publish exists entry targets)"
  shows "m \<in> {Users_locker, Subscriptions_locker, Instance_locker, ReCache_locker} \<or>
    (\<exists>check ls. (check, Some ls) \<in> set targets \<and> m \<in> mutexes_of ls)"
proof -
  from assms consider "m \<in> {Users_locker, Subscriptions_locker}"
    | check handler where "(check, handler) \<in> set targets" "m \<in> mutexes_of (locks_target (check, handler))"
    by (auto simp: locks_publish_def locks_users_read_def simp del: locks_target.simps split: if_splits)
  then show ?thesis
  proof cases
    case 2
    then consider "m \<in> mutexes_of (locks_checkTag check)" | ls where "handler = Some ls" "m \<in> mutexes_of ls"
      by (auto split: option.splits)
    then show ?thesis using mutexes_checkTag 2(1) by cases blast+
  qed blast
qed

lemma ordered_toClient: "ordered server_rank [] locks_toClient"
  by (simp add: locks_toClient_def locks_sendTo_def)

lemma mutexes_toClient: "mutexes_of locks_toClient = {Server_locker, Locker_connections}"
  by (auto simp: locks_toClient_def locks_sendTo_def)

lemma ordered_reaction: "ordered server_rank [] (locks_reaction r)"
  by (cases r) (auto intro!: ordered_publish simp: ordered_toClient split: if_splits)

lemma reaction_above:
  assumes "m \<in> mutexes_of (locks_reaction r)"
  shows "server_rank EventHandlers_locker < server_rank m"
proof (cases r)
  case (Republish exists entry targets)
  with assms have "m \<in> {Users_locker, Subscriptions_locker, Instance_locker, ReCache_locker} \<union> mutexes_of locks_toClient"
    using mutexes_publish by (fastforce split: if_splits)
  then show ?thesis by (auto simp: mutexes_toClient)
qed (use assms in simp)

lemma ordered_delivery: "snd (locks_delivery t) = Some ls \<Longrightarrow> ordered server_rank [] ls"
proof (cases t)
  case (To_server check consumers)
  assume "snd (locks_delivery t) = Some ls"
  with To_server have "ls = locks_callConsumer (map (map_prod id (map_option locks_reaction)) consumers)" by simp
  then show ?thesis by (auto intro!: ordered_callConsumer dest!: sym [of "Some _"] reaction_above simp: ordered_reaction)
qed (simp_all add: ordered_toClient)

lemma ordered_close: "ordered server_rank [] (locks_close known)"
  by (simp add: script_defs)

lemma server_in_order: "ordered server_rank [] (server_locks c)"
proof (cases c)
  case (S_publish exists entry targets)
  have "ordered server_rank [] (locks_publish exists entry (map locks_delivery targets))"
    by (rule ordered_publish) (auto intro: ordered_delivery)
  with S_publish show ?thesis by simp
next
  case (S_description queues)
  then show ?thesis by (auto simp: locks_getDescription_def intro!: ordered_nested_concat)
next
  case (S_stop conns complete)
  then show ?thesis by (auto simp: locks_stopServer_def intro!: ordered_append ordered_concat ordered_close)
qed (simp_all add: script_defs split: option.split)

lemma server_in_guard:
  assumes "server_careful c"
  shows "protected guard [] (server_locks c)"
proof (cases c)
  case (S_description queues)
  have "protected guard [(Queues_locker, Shared)] (concat (replicate queues
     [Acquire Shared Subscriptions_locker, Access Reading D_subscriptions, Release Subscriptions_locker]) @ [Release Queues_locker])"
    by (induction queues) simp_all
  with S_description show ?thesis by (simp add: locks_getDescription_def)
qed (use assms in \<open>simp_all add: script_defs split: option.split\<close>)

interpretation server_discipline: lock_discipline server_rank guard server_locks "\<lambda>_. True" server_careful
  by unfold_locales (simp_all add: server_in_order server_in_guard)

section \<open>A client\<close>

definition locks_pool_read :: locks where
  "locks_pool_read = [Acquire Shared Pool_locker, Access Reading D_pool, Release Pool_locker]"

definition locks_pool_write :: locks where
  "locks_pool_write = [Acquire Exclusive Pool_locker, Access Writing D_pool, Release Pool_locker]"

text \<open>The calls of a client and what it does with messages. A request makes a queue or cancels a
  subscription. A consumer may call the client it belongs to: the calls that it makes come with it.\<close>

datatype client_call =
    C_request
  | C_subscribe "bool option"
  | C_publish
  | C_connected
  | C_confirmed bool
  | C_received "(bool option \<times> client_call list option) list"
  | C_waitAll bool
  | C_messagesInPool
  | C_rmHandler

definition locks_request :: locks where
  "locks_request = [Acquire Exclusive Client_locker, Access Writing D_requests, Release Client_locker]"

definition locks_subscribe :: "bool option \<Rightarrow> locks" where
  "locks_subscribe handler =
     [Acquire Exclusive Client_locker] @
     (case handler of None \<Rightarrow> [] | Some added \<Rightarrow> locks_addHandler added) @
     (if handler = Some False then [] else [Access Writing D_requests]) @
     [Release Client_locker]"

definition locks_client_publish :: locks where
  "locks_client_publish =
     [Acquire Exclusive Client_locker, Access Writing D_requests] @ locks_pool_write @
     [Access Writing D_requests, Release Client_locker]"

definition locks_confirmed :: "bool \<Rightarrow> locks" where
  "locks_confirmed found =
     [Acquire Exclusive Client_locker, Access Reading D_requests] @
     (if found then locks_pool_write @ [Access Writing D_requests] else []) @
     [Release Client_locker]"

text \<open>One round of \<open>waitAll\<close>, which looks at the requests only if the pool is empty.\<close>

definition locks_waitAll :: "bool \<Rightarrow> locks" where
  "locks_waitAll drained =
     locks_pool_read @
     (if drained then [Acquire Exclusive Client_locker, Access Reading D_requests, Release Client_locker] else [])"

primrec client_locks :: "client_call \<Rightarrow> locks" where
  "client_locks C_request = locks_request"
| "client_locks (C_subscribe handler) = locks_subscribe handler"
| "client_locks C_publish = locks_client_publish"
| "client_locks C_connected = locks_pool_read"
| "client_locks (C_confirmed found) = locks_confirmed found"
| "client_locks (C_received consumers) =
     locks_callConsumer (map (map_prod id (map_option concat)) (map (map_prod id (map_option (map client_locks))) consumers))"
| "client_locks (C_waitAll drained) = locks_waitAll drained"
| "client_locks C_messagesInPool = locks_pool_read"
| "client_locks C_rmHandler = locks_rmHandler"

primrec client_rank :: "mutex \<Rightarrow> nat" where
  "client_rank Client_locker = 0"
| "client_rank EventHandlers_locker = 1"
| "client_rank Pool_locker = 2"
| "client_rank Instance_locker = 3"
| "client_rank ReCache_locker = 4"
| "client_rank Server_locker = 5"
| "client_rank Locker_connections = 6"
| "client_rank Queues_locker = 7"
| "client_rank Subscriptions_locker = 8"
| "client_rank Users_locker = 9"

text \<open>Consumers that ask the client for nothing but the size of its pool; and expressions that are empty,
  so that the pointer to the cache is not looked at.\<close>

fun client_orderly :: "client_call \<Rightarrow> bool" where
  "client_orderly (C_received consumers) \<longleftrightarrow>
     list_all (\<lambda>(check, hit). case hit of None \<Rightarrow> True | Some calls \<Rightarrow> list_all (\<lambda>c. c = C_messagesInPool) calls) consumers"
| "client_orderly _ \<longleftrightarrow> True"

fun client_careful :: "client_call \<Rightarrow> bool" where
  "client_careful (C_received consumers) \<longleftrightarrow>
     client_orderly (C_received consumers) \<and> list_all (\<lambda>(check, hit). check = None) consumers"
| "client_careful _ \<longleftrightarrow> True"

lemmas client_script_defs = locks_pool_read_def locks_pool_write_def locks_request_def locks_subscribe_def
  locks_client_publish_def locks_confirmed_def locks_waitAll_def locks_addHandler_def locks_rmHandler_def

lemma pool_reads:
  assumes "list_all (\<lambda>c. c = C_messagesInPool) calls"
  shows "ordered client_rank [] (concat (map client_locks calls))" and "mutexes_of (concat (map client_locks calls)) \<subseteq> {Pool_locker}"
  using assms by (induction calls) (auto simp: locks_pool_read_def)

lemma client_in_order:
  assumes "client_orderly c"
  shows "ordered client_rank [] (client_locks c)"
proof (cases c)
  case (C_received consumers)
  have "ordered client_rank [] (locks_callConsumer (map (map_prod id (map_option concat)) (map (map_prod id (map_option (map client_locks))) consumers)))"
  proof (rule ordered_callConsumer)
    fix cs ls
    assume cs: "cs \<in> set (map (map_prod id (map_option concat)) (map (map_prod id (map_option (map client_locks))) consumers))" "snd cs = Some ls"
    then obtain check calls where calls: "(check, Some calls) \<in> set consumers" "ls = concat (map client_locks calls)" by auto
    then have quiet: "list_all (\<lambda>c. c = C_messagesInPool) calls" using assms C_received by (auto simp: list_all_iff)
    from pool_reads(1) [OF quiet] calls(2) show "ordered client_rank [] ls" by simp
    show "client_rank EventHandlers_locker < client_rank m" if "m \<in> mutexes_of ls" for m
      using that pool_reads(2) [OF quiet] calls(2) by auto
  qed simp_all
  with C_received show ?thesis by simp
qed (simp_all add: client_script_defs split: option.split)

lemma protected_pool_reads:
  assumes "list_all (\<lambda>c. c = C_messagesInPool) calls" and "protected guard [(EventHandlers_locker, Shared)] rest"
  shows "protected guard [(EventHandlers_locker, Shared)] (concat (map client_locks calls) @ rest)"
  using assms by (induction calls) (simp_all add: locks_pool_read_def)

lemma client_in_guard:
  assumes "client_careful c"
  shows "protected guard [] (client_locks c)"
proof (cases c)
  case (C_received consumers)
  let ?scripts = "map (map_prod id (map_option concat)) (map (map_prod id (map_option (map client_locks))) consumers)"
  have "client_careful (C_received consumers) \<Longrightarrow>
      protected guard [(EventHandlers_locker, Shared)] (concat (map locks_consume ?scripts) @ [Release EventHandlers_locker])"
    by (induction consumers) (auto simp: locks_checkTag_def intro: protected_pool_reads split: option.splits)
  with C_received assms show ?thesis by (simp add: locks_callConsumer_def)
qed (simp_all add: client_script_defs split: option.split)

interpretation client_discipline: lock_discipline client_rank guard client_locks client_orderly client_careful
proof
  fix c
  show "client_orderly c \<Longrightarrow> ordered client_rank [] (client_locks c)" by (rule client_in_order)
  show "client_careful c \<Longrightarrow> client_orderly c" by (cases c) simp_all
  show "client_careful c \<Longrightarrow> protected guard [] (client_locks c)" by (rule client_in_guard)
qed

section \<open>Properties\<close>

lemmas run_eval = schedule_eval locks_publish_def locks_callConsumer_def script_defs client_script_defs



text \<open>C26: Two threads of the server never touch its containers at the same time, one of them to change them, as long
  as their operations are connecting, disconnecting, logging in, creating queues, changing subscriptions and
  asking for descriptions.\<close>

theorem server_never_races:
  assumes "thread_step\<^sup>*\<^sup>* (start_threads server_locks calls) ws" and "\<forall>cs \<in> set calls. list_all server_careful cs"
  shows "\<not> racing ws"
  using assms by (rule server_discipline.never_racing)

theorem server_never_races_witness:
  "\<exists>ws. schedule [0, 0, 0, 0, 0, 1] (start_threads server_locks [[S_create True False True], [S_login], [S_description 2]]) = Some ws \<and>
     \<not> racing ws"
proof -
  have "\<exists>ws. schedule [0, 0, 0, 0, 0, 1] (start_threads server_locks [[S_create True False True], [S_login], [S_description 2]]) = Some ws"
    by (simp add: run_eval)
  moreover have "\<forall>cs \<in> set [[S_create True False True], [S_login], [S_description 2]]. list_all server_careful cs" by simp
  ultimately show ?thesis using server_never_races [OF schedule_reaches] by blast
qed

text \<open>C28: The threads of a client never deadlock on its mutexes and can always come to the ends of their
  operations, as long as its consumers ask it for nothing but the size of its pool.\<close>

theorem client_never_deadlocks:
  assumes "thread_step\<^sup>*\<^sup>* (start_threads client_locks calls) ws" and "\<forall>cs \<in> set calls. list_all client_orderly cs"
  shows "\<not> deadlocked ws \<and> (\<exists>ws'. thread_step\<^sup>*\<^sup>* ws ws' \<and> finished ws')"
  using client_discipline.never_deadlocked [OF assms] client_discipline.run_finishes [OF assms] by simp

theorem client_never_deadlocks_witness:
  "\<exists>ws. schedule [0, 0, 1] (start_threads client_locks
       [[C_received [(None, Some [C_messagesInPool])]], [C_subscribe (Some True), C_publish]]) = Some ws \<and>
     \<not> can_run ws 1 \<and> \<not> deadlocked ws \<and> (\<exists>ws'. thread_step\<^sup>*\<^sup>* ws ws' \<and> finished ws')"
proof -
  have "\<exists>ws. schedule [0, 0, 1] (start_threads client_locks
      [[C_received [(None, Some [C_messagesInPool])]], [C_subscribe (Some True), C_publish]]) = Some ws \<and> \<not> can_run ws 1"
    by (simp add: run_eval)
  moreover have "\<forall>cs \<in> set [[C_received [(None, Some [C_messagesInPool])]], [C_subscribe (Some True), C_publish]]. list_all client_orderly cs"
    by simp
  ultimately show ?thesis using client_never_deadlocks [OF schedule_reaches] by blast
qed


text \<open>Publishing on the server races: with the creation of a queue, since a publisher searches \<open>_queues\<close> without a
  mutex while the other thread inserts into it; and with another publisher, since \<open>operator[]\<close> may insert into
  \<open>_subscriptions\<close> under a lock that both of them share.\<close>

lemma publish_races:
  "(\<exists>ws. thread_step\<^sup>*\<^sup>* (start_threads server_locks [[S_publish True True []], [S_create True False True]]) ws \<and> racing ws) \<and>
   (\<exists>ws. thread_step\<^sup>*\<^sup>* (start_threads server_locks [[S_publish True False []], [S_publish True True []]]) ws \<and> racing ws)"
proof
  show "\<exists>ws. thread_step\<^sup>*\<^sup>* (start_threads server_locks [[S_publish True True []], [S_create True False True]]) ws \<and> racing ws"
    by (rule schedule_exhibits [where ts = "[0, 0, 0, 1, 1, 1, 1, 1]"]) (simp add: run_eval racing_def)
  show "\<exists>ws. thread_step\<^sup>*\<^sup>* (start_threads server_locks [[S_publish True False []], [S_publish True True []]]) ws \<and> racing ws"
    by (rule schedule_exhibits [where ts = "[0, 0, 0, 0, 0, 1, 1, 1, 1, 1]"]) (simp add: run_eval racing_def)
qed

end
