(* ===== verification/Echo.thy ===== *)
theory Echo
  imports Server_Delivery Client_Traffic Strings
begin

text \<open>
  \<^verbatim>\<open>src/benchmarks/echo_queue.cpp\<close>: an application of the library. The server creates queues, listens to them with the
  expression \<open>client\<close> and publishes what it receives again with the tag \<open>server\<close>; a client listens with the expression
  \<open>server\<close> and publishes what it receives with the tag \<open>client\<close>. So the server's consumer calls the server from within a
  publication, and a publication runs inside another one. The global counters of the program are the last
  field of each state.
\<close>

section \<open>The server\<close>

record 're bench_server = "'re server" +
  server_received :: "32 word"

text \<open>The first argument is the number of calls of \<open>consume\<close> within each other for which there is room
  on the stack: the publication inside \<open>consume\<close> may call \<open>consume\<close> again.\<close>

primrec BenchmarkServer_consume :: "nat \<Rightarrow> 're engine \<Rightarrow> ('re, 'a) bench_server_scheme consume" where
  "BenchmarkServer_consume 0 = (\<lambda>eng h info d i. throw (Undef StackOverflow))"
| "BenchmarkServer_consume (Suc depth) = (\<lambda>eng h info d i.
     bind (Server_publish eng (BenchmarkServer_consume depth eng) (mk_pub (pub_queueName info) ''server'') d) (\<lambda>_.
     modify (\<lambda>s. s\<lparr>server_received := server_received s + 1\<rparr>)))"

definition serverQ :: "nat \<Rightarrow> string" where
  "serverQ i = ''serverQ_'' @ decimal i"

definition BenchmarkServer_onStartComplete :: "consumer \<Rightarrow> nat \<Rightarrow> (('re, 'a) server_scheme, unit) proc" where
  "BenchmarkServer_onStartComplete this queue_count =
     for_each [0..<queue_count] (\<lambda>i.
       bind (Server_createQueue \<lparr>qs_name = serverQ i\<rparr>) (\<lambda>_.
       Server_subscribe (mk_sub (serverQ i) ''client'') (Some this)))"

text \<open>\<open>AbstractServer::serverStart\<close> with the overriding \<open>onStartComplete\<close>.\<close>

definition BenchmarkServer_serverStart :: "consumer \<Rightarrow> nat \<Rightarrow> (('re, 'a) server_scheme, unit) proc" where
  "BenchmarkServer_serverStart this queue_count =
     bind (modify (\<lambda>s. s\<lparr>acceptor := True\<rparr>)) (\<lambda>_.
     bind start_accept (\<lambda>_.
     bind (BenchmarkServer_onStartComplete this queue_count) (\<lambda>_.
     modify (\<lambda>s. s\<lparr>srv_is_started := True\<rparr>))))"

lemma only_sends_received:
  fixes s s' :: "('re, 'a) bench_server_scheme"
  assumes "only_sends s s'"
  shows "server_received s' = server_received s"
  by (subst assms [unfolded only_sends_def]) simp

section \<open>A publication inside a publication\<close>

text \<open>The expressions of the benchmark tell its tags apart, as every engine does that takes letters literally.\<close>

definition tells_apart :: "'re engine \<Rightarrow> bool" where
  "tells_apart eng \<longleftrightarrow> (\<forall>sp. sub_tag sp = ''client'' \<longrightarrow>
     tag_matches eng sp ''client'' = Inr True \<and> tag_matches eng sp ''server'' = Inr False)"

lemma literal_tells_apart: "tells_apart literal_engine"
  by (simp add: tells_apart_def tag_matches_def literal_engine_def)

text \<open>A queue that the server owns and listens to, with one consumer.\<close>

definition echoing :: "string \<Rightarrow> ('re, 'a) server_scheme \<Rightarrow> bool" where
  "echoing q s \<longleftrightarrow>
     (\<exists>v h sp. map_of (queue2handler s) q = Some [v] \<and> map_of (eventHandlers s) v = Some (Some h, sp) \<and> sub_tag sp = ''client'') \<and>
     queueIsExists s q \<and>
     (\<exists>l. b_listeners (broker_of s) q ServerID = Some l \<and> isowner l \<and> issubscribed l \<and> sub_tag (ql_settings l) = ''client'')"

lemma callConsumer_one:
  assumes "cache_ok eng s" and "map_of (queue2handler s) (pub_queueName p) = Some [v]"
    and "map_of (eventHandlers s) v = Some (Some h, sp)" and "tag_matches eng sp (pub_tag p) = Inr True"
  obtains c where "callConsumer eng consume p d i s = consume h p d i (s\<lparr>recache := c\<rparr>)" and "cache_ok eng (s\<lparr>recache := c\<rparr>)"
proof -
  have at: "eventHandler_at v s = (Inr (Some h, sp), s)" using assms(3) by (simp add: eventHandler_at_def get_or_def)
  obtain c where c: "checkTag eng sp (pub_tag p) s = (tag_matches eng sp (pub_tag p), s\<lparr>recache := c\<rparr>)" "cache_ok eng (s\<lparr>recache := c\<rparr>)"
    using checkTag_run [OF assms(1)] .
  have "callConsumer eng consume p d i s = consume h p d i (s\<lparr>recache := c\<rparr>)"
    using at c(1) assms(2,4) by (simp add: callConsumer_def bind_def ret_def split: prod.split sum.split)
  with c(2) that show thesis by blast
qed

text \<open>The identifier of the server is the largest one, so the server is the last to be served.\<close>

lemma server_last:
  assumes "server_ok eng s" and "b_listeners (broker_of s) q ServerID = Some l"
  obtains xs where "queue_listeners s q = xs @ [(ServerID, l)]"
proof -
  have ok: "tables_ok s" using assms(1) by (simp add: server_ok_def node_ok_alt)
  let ?ls = "queue_listeners s q"
  have sorted: "sorted_wrt (<) (map fst ?ls)"
    using sorted_ids_filter [OF omap_ok_get_or [OF tables_ok_sorted [OF ok]], of "\<lambda>_. True"] by (simp add: queue_listeners_def)
  have small: "\<not> ServerID < j" if "(j, m) \<in> set ?ls" for j m
  proof (cases "j = ServerID")
    case False
    have "b_listeners (broker_of s) q j \<noteq> None" using that listener_in [OF ok] by simp
    from listener_connected [OF assms(1) this False] have "j \<in> conn_id ` set (connections s)"
      by (simp add: find_connection_None del: not_None_eq)
    with assms(1) have "unat j < unat (next_id s)" "unat (next_id s) < 2 ^ 31" by (auto simp: server_ok_def conns_ok_def)
    then show ?thesis using unat_ServerID by (simp add: word_less_nat_alt)
  qed simp
  from assms(2) have "(ServerID, l) \<in> set ?ls" using listener_in [OF ok] by simp
  then obtain xs ys where split: "?ls = xs @ (ServerID, l) # ys" by (meson split_list)
  have "ys = []"
  proof (cases ys)
    case (Cons y ys')
    with sorted split have "ServerID < fst y" by (simp add: sorted_wrt_append)
    with small [of "fst y" "snd y"] split Cons show ?thesis by simp
  qed
  with split that show thesis by simp
qed

text \<open>Consuming a message publishes it once more. The consumer is not called again, so the depth does not matter.\<close>

lemma echo_consume:
  fixes s :: "('re, 'a) bench_server_scheme"
  assumes "server_ok eng s" and "tells_apart eng" and "echoing (pub_queueName p) s" and "short (mk_pub (pub_queueName p) ''server'') d"
    and "\<And>j e. \<not> spec_rejected eng (broker_of s) (mk_pub (pub_queueName p) ''server'') j e"
  shows "\<exists>s' ids. BenchmarkServer_consume (Suc depth) eng h p d i s = (Inr (), s'\<lparr>server_received := server_received s + 1\<rparr>) \<and>
    server_ok eng s' \<and> only_sends s s' \<and>
    (\<lambda>i. find_connection i s' \<noteq> None) = (\<lambda>i. find_connection i s \<noteq> None) \<and>
    sorted_wrt (<) ids \<and> set ids = {j. spec_receives eng (broker_of s) (mk_pub (pub_queueName p) ''server'') j} \<and>
    map sent_view (outbox s') = map sent_view (outbox s) @ map (\<lambda>j. (j, Some (mk_pub (pub_queueName p) ''server'', d))) ids"
proof -
  let ?p = "mk_pub (pub_queueName p) ''server''"
  have name: "pub_queueName ?p = pub_queueName p" and tag: "pub_tag ?p = ''server''" by (simp_all add: mk_pub_def)
  obtain l where l: "queueIsExists s (pub_queueName ?p)" "b_listeners (broker_of s) (pub_queueName ?p) ServerID = Some l"
    "sub_tag (ql_settings l) = ''client''"
    using assms(3) unfolding echoing_def name by blast
  have "\<not> spec_receives eng (broker_of s) ?p ServerID"
    using l(2,3) assms(2) by (auto simp: spec_receives_def target_test_def tells_apart_def tag simp del: broker_of_sel split: if_splits)
  from publish_sends [OF assms(1,4) l(1) this assms(5), of "BenchmarkServer_consume depth eng" ServerID] obtain s' ids where
    "publish eng (onSendToClient eng (BenchmarkServer_consume depth eng)) ?p d ServerID s = (Inr (), s')" "only_sends s s'"
    and rest: "server_ok eng s'" "(\<lambda>i. find_connection i s' \<noteq> None) = (\<lambda>i. find_connection i s \<noteq> None)"
    "sorted_wrt (<) ids" "set ids = {j. spec_receives eng (broker_of s) ?p j}"
    "map sent_view (outbox s') = map sent_view (outbox s) @ map (\<lambda>j. (j, Some (?p, d))) ids" by blast
  moreover from this(2) have "server_received s' = server_received s" by (rule only_sends_received)
  ultimately have "BenchmarkServer_consume (Suc depth) eng h p d i s = (Inr (), s'\<lparr>server_received := server_received s + 1\<rparr>)"
    by (simp add: Server_publish_def bind_def modify_def)
  with rest \<open>only_sends s s'\<close> show ?thesis by blast
qed

text \<open>The clients among the listeners, before it is the server's turn.\<close>

lemma clients_served:
  assumes "server_ok eng s" and "short p d" and "\<And>j e. \<not> spec_rejected eng (broker_of s) p j e"
    and ls: "queue_listeners s (pub_queueName p) = xs @ [(ServerID, l)]"
  defines "ids \<equiv> map fst (filter (\<lambda>kv. target_test eng (pub_tag p) kv = Inr True) xs)"
  shows "\<exists>s'. for_each xs (publish_to eng (onSendToClient eng consume) p d) s = (Inr (), s') \<and> server_ok eng s' \<and> only_sends s s' \<and>
    (\<lambda>i. find_connection i s' \<noteq> None) = (\<lambda>i. find_connection i s \<noteq> None) \<and>
    sorted_wrt (<) ids \<and> set ids = {j. j \<noteq> ServerID \<and> spec_receives eng (broker_of s) p j} \<and>
    map sent_view (outbox s') = map sent_view (outbox s) @ map (\<lambda>j. (j, Some (p, d))) ids"
proof -
  have ok: "tables_ok s" using assms(1) by (simp add: server_ok_def node_ok_alt)
  let ?body = "publish_to eng (onSendToClient eng consume) p d" and ?test = "target_test eng (pub_tag p)"
  let ?run = "for_each xs ?body s" and ?kvs = "filter (\<lambda>kv. ?test kv = Inr True) xs"
  have sorted: "sorted_wrt (<) (map fst (xs @ [(ServerID, l)]))"
    using sorted_ids_filter [OF omap_ok_get_or [OF tables_ok_sorted [OF ok], of "pub_queueName p"], of "\<lambda>_. True"] ls
    by (simp add: queue_listeners_def)
  then have others: "fst kv \<noteq> ServerID" if "kv \<in> set xs" for kv using that by (auto simp: sorted_wrt_append)
  have connected: "find_connection (fst kv) s \<noteq> None" if "kv \<in> set xs" for kv
  proof (rule listener_connected [OF assms(1) _ others [OF that]])
    show "b_listeners (broker_of s) (pub_queueName p) (fst kv) \<noteq> None"
      using that listener_in [OF ok, of "fst kv" "snd kv" "pub_queueName p"] ls by simp
  qed
  let ?I = "\<lambda>t. (server_ok eng t \<and> only_sends s t) \<and> (\<lambda>i. find_connection i t \<noteq> None) = (\<lambda>i. find_connection i s \<noteq> None)"
  have body: "fst (?body kv t) = (case ?test kv of Inl e \<Rightarrow> Inl e | Inr _ \<Rightarrow> Inr ()) \<and> ?I (snd (?body kv t)) \<and>
      map sent_view (outbox (snd (?body kv t))) = map sent_view (outbox t) @ (if ?test kv = Inr True then [(fst kv, Some (p, d))] else [])"
    if "kv \<in> set xs" "?I t" for kv t
  proof -
    have "find_connection (fst kv) t \<noteq> None" using connected [OF that(1)] that(2) by metis
    from sending.publish_to_one [OF conjunct1 [OF that(2)] this assms(2), of consume] that(2) show ?thesis by simp
  qed
  have "?I s" using assms(1) by simp
  note loop = for_each_select [of xs ?I ?body ?test "\<lambda>s. map sent_view (outbox s)" "\<lambda>kv. (fst kv, Some (p, d))" s, OF body this]
  have "select ?test xs = (Inr (), ?kvs)"
    by (rule select_total) (rule listener_tested [OF ok assms(3)], simp add: ls)
  with loop have run: "?run = (Inr (), snd ?run)" "server_ok eng (snd ?run)" "only_sends s (snd ?run)"
    "(\<lambda>i. find_connection i (snd ?run) \<noteq> None) = (\<lambda>i. find_connection i s \<noteq> None)"
    "map sent_view (outbox (snd ?run)) = map sent_view (outbox s) @ map (\<lambda>j. (j, Some (p, d))) ids"
    by (simp_all add: prod_eq_iff ids_def comp_def)
  have "sorted_wrt (<) ids"
    using sorted unfolding ids_def by (simp add: sorted_wrt_append sorted_wrt_map sorted_wrt_filter)
  moreover have "set ids = {j. j \<noteq> ServerID \<and> spec_receives eng (broker_of s) p j}"
  proof -
    have "set ids = {j \<in> fst ` {kv \<in> set (queue_listeners s (pub_queueName p)). ?test kv = Inr True}. j \<noteq> ServerID}"
      using others by (auto simp: ids_def ls)
    then show ?thesis using receivers_of [OF ok, of p eng] by auto
  qed
  ultimately show ?thesis using run by (intro exI [of _ "snd ?run"]) blast
qed

lemma only_sends_echoing: "only_sends s s' \<Longrightarrow> echoing q s' = echoing q s"
  by (simp add: echoing_def only_sends_tables queueIsExists_def del: broker_of_sel)

lemma only_sends_trans: "only_sends s s' \<Longrightarrow> only_sends s' s'' \<Longrightarrow> only_sends s s''"
  by (cases s; cases s'; cases s''; simp add: only_sends_def)

lemma server_ok_recache: "server_ok eng s \<Longrightarrow> cache_ok eng (s\<lparr>recache := c\<rparr>) \<Longrightarrow> server_ok eng (s\<lparr>recache := c\<rparr>)"
  using steady_recache [of eng "next_id s" s c] by (simp add: steady_def)

text \<open>The server's turn: its handler runs the consumer on a state that differs in the cache at most.\<close>

lemma server_turn:
  assumes "server_ok eng s" and "tells_apart eng" and "echoing (pub_queueName p) s" and "pub_tag p = ''client''"
    and "b_listeners (broker_of s) (pub_queueName p) ServerID = Some l"
  obtains c h where "publish_to eng (onSendToClient eng consume) p d (ServerID, l) s = consume h p d ServerID (s\<lparr>recache := c\<rparr>)"
    and "server_ok eng (s\<lparr>recache := c\<rparr>)"
proof -
  obtain v h sp where handler: "map_of (queue2handler s) (pub_queueName p) = Some [v]" "map_of (eventHandlers s) v = Some (Some h, sp)"
    "sub_tag sp = ''client''" and l: "isowner l" "issubscribed l" "sub_tag (ql_settings l) = ''client''"
    using assms(3,5) unfolding echoing_def by fastforce
  have matches: "tag_matches eng (ql_settings l) (pub_tag p) = Inr True" "tag_matches eng sp (pub_tag p) = Inr True"
    using assms(2,4) l(3) handler(3) by (simp_all add: tells_apart_def)
  have cache: "cache_ok eng s" using assms(1) by (simp add: server_ok_def)
  obtain c where c: "checkTag eng (ql_settings l) (pub_tag p) s = (tag_matches eng (ql_settings l) (pub_tag p), s\<lparr>recache := c\<rparr>)"
    "cache_ok eng (s\<lparr>recache := c\<rparr>)" using checkTag_run [OF cache] .
  have "map_of (queue2handler (s\<lparr>recache := c\<rparr>)) (pub_queueName p) = Some [v]"
    "map_of (eventHandlers (s\<lparr>recache := c\<rparr>)) v = Some (Some h, sp)" using handler by simp_all
  from callConsumer_one [OF c(2) this matches(2), of consume d ServerID] obtain c' where
    c': "callConsumer eng consume p d ServerID (s\<lparr>recache := c\<rparr>) = consume h p d ServerID (s\<lparr>recache := c\<rparr>\<lparr>recache := c'\<rparr>)"
    "cache_ok eng (s\<lparr>recache := c\<rparr>\<lparr>recache := c'\<rparr>)" .
  have "publish_to eng (onSendToClient eng consume) p d (ServerID, l) s = consume h p d ServerID (s\<lparr>recache := c'\<rparr>)"
    using c(1) c'(1) l matches(1) by (simp add: publish_to_def onSendToClient_def bind_def)
  moreover have "server_ok eng (s\<lparr>recache := c'\<rparr>)" using server_ok_recache [OF assms(1)] c'(2) by simp
  ultimately show thesis by (rule that)
qed

lemma echo_publish:
  fixes s :: "('re, 'a) bench_server_scheme"
  assumes "server_ok eng s" and "tells_apart eng" and "echoing (pub_queueName p) s" and "pub_tag p = ''client''" and "short p d"
    and "\<And>j e. \<not> spec_rejected eng (broker_of s) p j e"
    and "\<And>j e. \<not> spec_rejected eng (broker_of s) (mk_pub (pub_queueName p) ''server'') j e"
  shows "\<exists>s' ids ids'.
    publish eng (onSendToClient eng (BenchmarkServer_consume (Suc depth) eng)) p d i s =
      (Inr (), s'\<lparr>server_received := server_received s + 1\<rparr>) \<and>
    server_ok eng s' \<and> only_sends s s' \<and> (\<lambda>i. find_connection i s' \<noteq> None) = (\<lambda>i. find_connection i s \<noteq> None) \<and>
    sorted_wrt (<) ids \<and> set ids = {j. j \<noteq> ServerID \<and> spec_receives eng (broker_of s) p j} \<and>
    sorted_wrt (<) ids' \<and> set ids' = {j. spec_receives eng (broker_of s) (mk_pub (pub_queueName p) ''server'') j} \<and>
    map sent_view (outbox s') = map sent_view (outbox s) @ map (\<lambda>j. (j, Some (p, d))) ids @
      map (\<lambda>j. (j, Some (mk_pub (pub_queueName p) ''server'', d))) ids'"
proof -
  let ?h = "onSendToClient eng (BenchmarkServer_consume (Suc depth) eng)" and ?q = "mk_pub (pub_queueName p) ''server''"
  have ok: "tables_ok s" using assms(1) by (simp add: server_ok_def node_ok_alt)
  from assms(3) obtain l where l: "queueIsExists s (pub_queueName p)" "b_listeners (broker_of s) (pub_queueName p) ServerID = Some l"
    unfolding echoing_def by blast
  obtain xs where ls: "queue_listeners s (pub_queueName p) = xs @ [(ServerID, l)]" using server_last [OF assms(1) l(2)] .
  from clients_served [OF assms(1,5,6) ls, of "BenchmarkServer_consume (Suc depth) eng"] obtain s1 ids where
    first: "for_each xs (publish_to eng ?h p d) s = (Inr (), s1)" and s1: "server_ok eng s1" "only_sends s s1"
    "(\<lambda>i. find_connection i s1 \<noteq> None) = (\<lambda>i. find_connection i s \<noteq> None)"
    and ids: "sorted_wrt (<) ids" "set ids = {j. j \<noteq> ServerID \<and> spec_receives eng (broker_of s) p j}"
    "map sent_view (outbox s1) = map sent_view (outbox s) @ map (\<lambda>j. (j, Some (p, d))) ids" by blast
  have "echoing (pub_queueName p) s1" "b_listeners (broker_of s1) (pub_queueName p) ServerID = Some l"
    using assms(3) l(2) s1(2) by (simp_all add: only_sends_echoing only_sends_tables del: broker_of_sel)
  from server_turn [OF s1(1) assms(2) this(1) assms(4) this(2), of "BenchmarkServer_consume (Suc depth) eng" d] obtain c h where
    turn: "publish_to eng ?h p d (ServerID, l) s1 = BenchmarkServer_consume (Suc depth) eng h p d ServerID (s1\<lparr>recache := c\<rparr>)"
    and s2: "server_ok eng (s1\<lparr>recache := c\<rparr>)" .
  let ?s2 = "s1\<lparr>recache := c\<rparr>"
  have s2': "only_sends s ?s2" using s1(2) by simp
  have "echoing (pub_queueName p) ?s2" "short ?q d" "\<And>j e. \<not> spec_rejected eng (broker_of ?s2) ?q j e"
    using assms(3-5,7) only_sends_echoing [OF s2'] only_sends_tables(1) [OF s2'] by (simp_all add: short_def mk_pub_def)
  from echo_consume [OF s2 assms(2) this, of depth h ServerID] obtain s' ids' where
    second: "BenchmarkServer_consume (Suc depth) eng h p d ServerID ?s2 = (Inr (), s'\<lparr>server_received := server_received ?s2 + 1\<rparr>)"
    and s': "server_ok eng s'" "only_sends ?s2 s'" "(\<lambda>i. find_connection i s' \<noteq> None) = (\<lambda>i. find_connection i ?s2 \<noteq> None)"
    and ids': "sorted_wrt (<) ids'" "set ids' = {j. spec_receives eng (broker_of ?s2) ?q j}"
    "map sent_view (outbox s') = map sent_view (outbox ?s2) @ map (\<lambda>j. (j, Some (?q, d))) ids'" by blast
  have "publish eng ?h p d i s = (Inr (), s'\<lparr>server_received := server_received s + 1\<rparr>)"
    using first turn second only_sends_received [OF s2']
    unfolding publish_loop [OF ok l(1)] ls for_each_append by (simp add: bind_def ret_def)
  moreover have "(\<lambda>i. find_connection i s' \<noteq> None) = (\<lambda>i. find_connection i s \<noteq> None)"
    using s'(3) s1(3) by (simp add: find_connection_def)
  moreover have "only_sends s s'" using only_sends_trans [OF s2' s'(2)] .
  ultimately show ?thesis
    using s'(1) ids ids' only_sends_tables(1) [OF s2'] by (intro exI [of _ s'] exI [of _ ids] exI [of _ ids']) (simp del: broker_of_sel)
qed

section \<open>The queues stay\<close>

text \<open>The node's part of \<open>echoing\<close>: a queue that the server owns is kept, whatever clients do.\<close>

definition echo_broker :: "string \<Rightarrow> broker \<Rightarrow> bool" where
  "echo_broker q b \<longleftrightarrow> b_queues b q \<noteq> None \<and>
     (\<exists>l. b_listeners b q ServerID = Some l \<and> isowner l \<and> issubscribed l \<and> sub_tag (ql_settings l) = ''client'')"

definition echo_handlers :: "string \<Rightarrow> ('re, 'a) iqueue_scheme \<Rightarrow> bool" where
  "echo_handlers q s \<longleftrightarrow>
     (\<exists>v h sp. map_of (queue2handler s) q = Some [v] \<and> map_of (eventHandlers s) v = Some (Some h, sp) \<and> sub_tag sp = ''client'')"

lemma echoing_parts: "echoing q s \<longleftrightarrow> echo_handlers q s \<and> echo_broker q (broker_of s)"
  by (simp add: echoing_def echo_handlers_def echo_broker_def queueIsExists_def)

fun author :: "command \<Rightarrow> Id" where
  "author (DoCreate qs i) = i"
| "author (DoChange a p i) = i"
| "author (DoErase i) = i"

lemma echo_broker_exec:
  assumes "echo_broker q b" and "author c \<noteq> ServerID"
  shows "echo_broker q (snd (spec_exec c b))"
proof (cases c)
  case (DoCreate qs i)
  with assms show ?thesis
    by (auto simp: echo_broker_def spec_create_def spec_change_def split: option.split)
next
  case (DoChange a p i)
  with assms show ?thesis by (auto simp: echo_broker_def spec_change_def)
next
  case (DoErase i)
  with assms show ?thesis by (auto simp: echo_broker_def spec_erase_def spec_orphaned_def)
qed

lemma echo_handlers_frame [simp]:
  "echo_handlers q (s\<lparr>recache := c\<rparr>) = echo_handlers q s"
  by (simp add: echo_handlers_def)

definition echo_steady :: "'re engine \<Rightarrow> 32 word \<Rightarrow> string \<Rightarrow> ('re, 'a) server_scheme \<Rightarrow> bool" where
  "echo_steady eng n q s \<longleftrightarrow> steady eng n s \<and> echoing q s"

text \<open>What leaves the tables alone keeps the queues.\<close>

lemma echo_steady_only_sends:
  fixes m :: "(('re, 'a) server_scheme, 'b) proc"
  assumes "preserves (steady eng n) m" and "\<And>s. echo_steady eng n q s \<Longrightarrow> only_sends s (snd (m s))"
  shows "preserves (echo_steady eng n q) m"
proof (rule preservesI)
  fix s :: "('re, 'a) server_scheme"
  assume s: "echo_steady eng n q s"
  then show "echo_steady eng n q (snd (m s))"
    using preservesD [OF assms(1)] only_sends_echoing [OF assms(2) [OF s]] by (simp add: echo_steady_def)
qed

lemma only_sends_sendData: "only_sends s (snd (sendData i d s))"
  by (auto simp: sendData_def throw_def ret_def split: option.split prod.split sum.split)

lemma echo_sendData [keeps]: "preserves (echo_steady eng n q) (sendData i d)"
  by (rule echo_steady_only_sends [OF steady_sendData only_sends_sendData])

lemma echo_checkTag [keeps]: "preserves (echo_steady eng n q) (checkTag eng p t)"
proof (rule echo_steady_only_sends [OF steady_checkTag])
  fix s :: "('a, 'b) server_scheme"
  assume "echo_steady eng n q s"
  then have "cache_ok eng s" by (simp add: echo_steady_def steady_def server_ok_def)
  then obtain c where "checkTag eng p t s = (tag_matches eng p t, s\<lparr>recache := c\<rparr>)" "cache_ok eng (s\<lparr>recache := c\<rparr>)"
    by (rule checkTag_run)
  then show "only_sends s (snd (checkTag eng p t s))" by simp
qed

lemma echo_eventHandler [keeps]: "preserves (echo_steady eng n q) (eventHandler_at v)"
proof
  fix s :: "('a, 'b) server_scheme"
  assume s: "echo_steady eng n q s"
  then obtain w h sp where w: "map_of (queue2handler s) q = Some [w]" "map_of (eventHandlers s) w = Some (Some h, sp)" "sub_tag sp = ''client''"
    by (auto simp: echo_steady_def echoing_def)
  let ?s = "s\<lparr>eventHandlers := umap_index (None, mk_sub [] []) v (eventHandlers s)\<rparr>"
  have "map_of (eventHandlers ?s) w = Some (Some h, sp)"
    using w(2) by (auto simp: umap_index_def umap_insert_def update_conv' split: option.split)
  with w have "echo_handlers q ?s" by (auto simp: echo_handlers_def)
  moreover have "broker_of ?s = broker_of s" by (simp add: broker_of_def)
  ultimately show "echo_steady eng n q (snd (eventHandler_at v s))"
    using s by (simp add: echo_steady_def eventHandler_at_def echoing_parts del: broker_of_sel)
qed

lemma echo_node [keeps]:
  assumes "author c \<noteq> ServerID"
  shows "preserves (echo_steady eng n q) (node_exec c)"
proof
  fix s :: "('a, 'b) server_scheme"
  assume s: "echo_steady eng n q s"
  then have t: "tables_ok s" by (simp add: echo_steady_def steady_def server_ok_def node_ok_alt)
  have "queue2handler (snd (node_exec c s)) = queue2handler s" "eventHandlers (snd (node_exec c s)) = eventHandlers s"
    by (subst only_tables_exec [of s c, unfolded only_tables_def], simp)+
  then have "echo_handlers q (snd (node_exec c s)) = echo_handlers q s" by (simp add: echo_handlers_def)
  moreover have "echo_broker q (broker_of (snd (node_exec c s)))"
    unfolding broker_sim.same_state [OF t] using s assms by (intro echo_broker_exec) (simp_all add: echo_steady_def echoing_parts)
  ultimately show "echo_steady eng n q (snd (node_exec c s))"
    using s preservesD [OF steady_node, of eng n s c] by (simp add: echo_steady_def echoing_parts del: broker_of_sel)
qed

lemma echo_publish_keeps:
  assumes "\<And>j. preserves (echo_steady eng n q) (handler p d j)"
  shows "preserves (echo_steady eng n q) (publish eng handler p d i)"
proof (rule preservesI)
  fix s :: "('a, 'b) server_scheme"
  assume s: "echo_steady eng n q s"
  then have ok: "tables_ok s" by (simp add: echo_steady_def steady_def server_ok_def node_ok_alt)
  have "preserves (echo_steady eng n q) (publish_to eng handler p d kv)" for kv
    unfolding publish_to_def using assms echo_checkTag by (auto intro!: preserves_bind)
  then have loop: "preserves (echo_steady eng n q) (for_each ls (publish_to eng handler p d))" for ls by (intro preserves_for_each)
  show "echo_steady eng n q (snd (publish eng handler p d i s))"
  proof (cases "queueIsExists s (pub_queueName p)")
    case True
    then show ?thesis using preservesD [OF loop s] by (simp add: publish_loop [OF ok])
  qed (use s in \<open>simp add: publish_def ret_def\<close>)
qed

lemma only_sends_sendTo: "only_sends s (snd (sendTo i d s))"
  by (simp add: sendTo_def throw_def only_sends_sendData split: option.split)

lemma echo_send_remote:
  assumes "i \<noteq> ServerID"
  shows "preserves (echo_steady eng n q) (onSendToClient eng' consume p d i)"
proof (rule echo_steady_only_sends [OF steady_send_remote [OF assms]])
  fix s :: "('a, 'b) server_scheme"
  let ?s = "s\<lparr>srv_nextMessageId := srv_nextMessageId s + 1\<rparr>"
  have "only_sends s (snd (sendTo i nd ?s))" for nd by (rule only_sends_trans [OF _ only_sends_sendTo]) simp
  then show "only_sends s (snd (onSendToClient eng' consume p d i s))"
    using assms by (simp add: onSendToClient_def bind_def modify_def lift_def Let_def split: sum.split)
qed

lemma echo_callConsumer:
  assumes "\<And>h. preserves (echo_steady eng n q) (consume h p d i)"
  shows "preserves (echo_steady eng n q) (callConsumer eng consume p d i)"
proof (rule preservesI)
  fix s :: "('a, 'b) server_scheme"
  assume s: "echo_steady eng n q s"
  have "preserves (echo_steady eng n q) (\<lambda>s. for_each ids (\<lambda>v. bind (eventHandler_at v) (\<lambda>es.
      bind (checkTag eng (snd es) (pub_tag p)) (\<lambda>b.
      if b then (case fst es of None \<Rightarrow> throw (Undef NullDereference) | Some h \<Rightarrow> consume h p d i)
      else ret ()))) s)" for ids
    using assms by (intro preserves_for_each preserves_bind echo_eventHandler echo_checkTag) (auto split: option.split)
  from preservesD [OF this s] s show "echo_steady eng n q (snd (callConsumer eng consume p d i s))"
    by (simp add: callConsumer_def ret_def split: option.split)
qed

lemma server_ok_received [simp]:
  fixes s :: "('re, 'a) bench_server_scheme"
  shows "server_ok eng (s\<lparr>server_received := k\<rparr>) = server_ok eng s" "echoing q (s\<lparr>server_received := k\<rparr>) = echoing q s"
    "next_id (s\<lparr>server_received := k\<rparr>) = next_id s"
  by (simp_all add: server_ok_def node_ok_def sorted_tables_def broker_of_def cache_ok_def queueIsExists_def echoing_def)

lemma echo_onSendToClient:
  assumes "\<And>h. preserves (echo_steady eng n q) (consume h p d ServerID)"
  shows "preserves (echo_steady eng n q) (onSendToClient eng consume p d i)"
  using echo_callConsumer [of eng n q consume p d ServerID, OF assms] echo_send_remote [of i eng n q eng consume p d]
  by (cases "i = ServerID") (simp_all add: onSendToClient_def)

lemma echo_consume_keeps: "preserves (echo_steady eng n q) (BenchmarkServer_consume depth eng h p d i)"
proof (induction depth arbitrary: h p d i)
  case (Suc depth)
  show ?case
    by (auto simp: Server_publish_def intro!: preserves_bind echo_publish_keeps echo_onSendToClient Suc)
      (simp add: preserves_def modify_def echo_steady_def steady_def)
qed simp

lemma echo_requests:
  assumes "i \<noteq> ServerID" and "\<And>h p d. preserves (echo_steady eng n q) (consume h p d ServerID)"
  shows "preserves (echo_steady eng n q) (on_CREATE_QUEUE i nd)" "preserves (echo_steady eng n q) (on_SUBSCRIBE i nd)"
    "preserves (echo_steady eng n q) (on_UNSUBSCRIBE i nd)" "preserves (echo_steady eng n q) (on_PUBLISH eng consume i nd)"
proof -
  have node: "preserves (echo_steady eng n q) (createQueue qs i)" "preserves (echo_steady eng n q) (changeSubscription a p i)" for qs a p
    using echo_node [of "DoCreate qs i" eng n q] echo_node [of "DoChange a p i" eng n q] assms(1) by simp_all
  have ok: "preserves (echo_steady eng n q) (sendOk i m)" for m unfolding sendOk_def by (auto intro: echo_sendData)
  show "preserves (echo_steady eng n q) (on_CREATE_QUEUE i nd)" "preserves (echo_steady eng n q) (on_SUBSCRIBE i nd)"
    "preserves (echo_steady eng n q) (on_UNSUBSCRIBE i nd)"
    unfolding on_CREATE_QUEUE_def on_SUBSCRIBE_def on_UNSUBSCRIBE_def by (intro preserves_bind preserves_lift node ok)+
  show "preserves (echo_steady eng n q) (on_PUBLISH eng consume i nd)"
    unfolding on_PUBLISH_def by (intro preserves_bind preserves_lift ok echo_publish_keeps echo_onSendToClient assms(2))
qed

lemma echo_LOGIN:
  assumes "echo_steady eng n q s" and "find_connection i s \<noteq> None"
  shows "echo_steady eng n q (snd (on_LOGIN i d s))"
proof -
  have known: "echo_steady eng n q (s\<lparr>clients := ub_setLogin i l (clients s)\<rparr>)" for l
    using assms steady_login [of eng n s i l] by (simp add: echo_steady_def echoing_def queueIsExists_def)
  have "preserves (echo_steady eng n q) (bind (lift (LoginConfirm_toNetworkMessage \<lparr>lc_id = i\<rparr>)) (\<lambda>nd. sendData i nd))"
    by (intro preserves_bind preserves_lift echo_sendData)
  from preservesD [OF this known] show ?thesis
    using assms(1) by (simp add: on_LOGIN_def bind_def lift_def modify_def split: sum.split)
qed

lemma echo_message:
  assumes "echo_steady eng n q s" and "find_connection i s \<noteq> None"
  shows "echo_steady eng n q (snd (onNewMessage eng (BenchmarkServer_consume depth eng) i d s))"
proof -
  have "i \<noteq> ServerID"
    using assms connected_not_server
    by (auto simp: echo_steady_def steady_def server_ok_def find_connection_None simp del: not_None_eq)
  note keeps = echo_requests [OF this echo_consume_keeps, THEN preservesD, OF assms(1)]
  show ?thesis
    using keeps echo_LOGIN [OF assms] assms(1)
    by (auto simp: onNewMessage_def bind_def [of "lift r" for r] lift_def throw_def split: sum.split)
qed

lemma echo_close:
  assumes "server_ok eng s" and "echoing q s"
  shows "echoing q (snd (connection_close i s))"
proof (cases "find_connection i s")
  case None
  with assms(2) show ?thesis by (simp add: connection_close_def ret_def)
next
  case (Some c)
  then have i: "find_connection i s \<noteq> None" by simp
  then have "i \<noteq> ServerID"
    using assms(1) connected_not_server by (auto simp: server_ok_def find_connection_None simp del: not_None_eq)
  from connection_close_run [OF assms(1) i] obtain ub where
    ub: "ub_erase i (clients s) = Inr ub" "connection_close i s = (Inr (), dropped i ub s)" .
  have "echo_broker q (snd (spec_exec (DoErase i) (broker_of s)))"
    using assms(2) \<open>i \<noteq> ServerID\<close> by (intro echo_broker_exec) (simp_all add: echoing_parts)
  then have "echo_broker q (broker_of (dropped i ub s))"
    unfolding dropped_ok(3) [OF assms(1) i ub(1)] by (simp add: echo_broker_def)
  moreover have "echo_handlers q (dropped i ub s) = echo_handlers q s"
    by (simp add: dropped_def echo_handlers_def eraseClient_def modify_def case_prod_unfold Let_def)
  ultimately show ?thesis using assms(2) ub(2) by (simp add: echoing_parts del: broker_of_sel)
qed

text \<open>What the network does to the benchmark's server; its application makes no calls of its own.\<close>

fun from_network :: "server_event \<Rightarrow> bool" where
  "from_network (Accept r) \<longleftrightarrow> True"
| "from_network (Message i d) \<longleftrightarrow> True"
| "from_network (Network_error i) \<longleftrightarrow> True"
| "from_network _ \<longleftrightarrow> False"

lemma consume_safe_echo: "consume_safe eng (BenchmarkServer_consume depth eng)"
proof (induction depth)
  case 0
  show ?case by (simp add: consume_safe_def)
next
  case (Suc depth)
  show ?case
    unfolding consume_safe_def
    by (auto simp: Server_publish_def intro!: preserves_bind steady_publish Suc) (simp add: preserves_def modify_def steady_def)
qed

lemma echoing_exec:
  assumes "server_ok eng s" and "echoing q s" and "from_network e"
  shows "echoing q (snd (server_exec eng (BenchmarkServer_consume depth eng) e s))"
proof (cases e)
  case (Accept r)
  have "echoing q (snd (handle_accept r s))"
    using assms(2) unfolding handle_accept_state by (simp add: echoing_def queueIsExists_def)
  with Accept assms(2) show ?thesis by (simp add: ret_def)
next
  case (Message i d)
  with assms(1,2) echo_message [of eng "next_id s" q s i depth d] show ?thesis by (simp add: echo_steady_def steady_def ret_def)
next
  case (Network_error i)
  with echo_close [OF assms(1,2)] show ?thesis by simp
qed (use assms(3) in simp_all)

lemma echoing_run:
  fixes depth :: nat and m :: nat
  assumes "server_ok eng s" and "\<And>k. k < m \<Longrightarrow> echoing (serverQ k) s" and "list_all from_network es"
    and "unat (next_id s) + length (filter is_accept es) < 2 ^ 31"
  defines "s' \<equiv> snd (run_seq (server_exec eng (BenchmarkServer_consume depth eng)) es s)"
  shows "server_ok eng s' \<and> (\<forall>k < m. echoing (serverQ k) s')"
proof -
  have step: "echoing q (snd (run_seq (server_exec eng (BenchmarkServer_consume depth eng)) es s))" if "echoing q s" for q
    using that assms(1,3,4)
  proof (induction es rule: rev_induct)
    case (snoc e es)
    let ?s = "snd (run_seq (server_exec eng (BenchmarkServer_consume depth eng)) es s)"
    have "server_ok eng ?s" using snoc.prems by (intro server_ok_seq [OF consume_safe_echo]) simp_all
    moreover have "echoing q ?s" using snoc by simp
    ultimately show ?case using echoing_exec [of eng ?s q e depth] snoc.prems(3) by (simp add: snd_run_seq_append)
  qed simp
  then show ?thesis
    using server_ok_seq [OF consume_safe_echo assms(1,4)] assms(2) by (simp add: s'_def)
qed

section \<open>Starting\<close>

definition BenchmarkServer :: "'re bench_server" where
  "BenchmarkServer = server.extend Server (bench_server.fields 0)"

lemma serverQ_inject: "serverQ i = serverQ j \<longleftrightarrow> i = j"
  unfolding serverQ_def using decimal_value_decimal by (metis same_append_eq)

text \<open>The state in the loop of \<open>onStartComplete\<close>: the first queues exist, the others do not; all of them share the one handler.\<close>

definition handlers_up :: "string \<Rightarrow> consumer \<Rightarrow> nat \<Rightarrow> ('re, 'a) iqueue_scheme \<Rightarrow> bool" where
  "handlers_up tag this k s \<longleftrightarrow>
     (\<forall>j. map_of (queue2handler s) (serverQ j) = (if j < k then Some [0] else None)) \<and>
     (if k = 0 then consumerId s this = DefaultId \<and> nextConsumersId s = 0
      else consumerId s this = 0 \<and> (\<exists>sp. map_of (eventHandlers s) 0 = Some (Some this, sp) \<and> sub_tag sp = tag))"

definition queues_up :: "nat \<Rightarrow> broker \<Rightarrow> bool" where
  "queues_up k b \<longleftrightarrow> b_next b = int k \<and> (\<forall>j < k. echo_broker (serverQ j) b) \<and>
     (\<forall>j \<ge> k. b_queues b (serverQ j) = None \<and> b_listeners b (serverQ j) ServerID = None)"

lemma handlers_up_echo: "handlers_up ''client'' this k s \<Longrightarrow> j < k \<Longrightarrow> echo_handlers (serverQ j) s"
  by (auto simp: handlers_up_def echo_handlers_def split: if_splits)

lemma DefaultId_not_0: "DefaultId \<noteq> 0"
  by (simp add: DefaultId_def)

lemma addHandler_handlers_up:
  assumes "handlers_up tag this k s"
  obtains s' where "addHandler (mk_sub (serverQ k) tag) (Some this) s = (Inr (), s')" and "handlers_up tag this (Suc k) s'"
proof -
  let ?r = "addHandler (mk_sub (serverQ k) tag) (Some this) s"
  have link: "map_of (link_handler (serverQ k) 0 (queue2handler s)) (serverQ j) = (if j < Suc k then Some [0] else None)" for j
    using assms by (auto simp: handlers_up_def map_of_link get_or_def serverQ_inject insort_insert_key_def)
  have "?r = (Inr (), snd ?r) \<and> handlers_up tag this (Suc k) (snd ?r)"
  proof (cases "k = 0")
    case True
    with assms have "consumerId s this = DefaultId" "nextConsumersId s = 0" by (simp_all add: handlers_up_def)
    with link show ?thesis by (simp add: addHandler_def Let_def handlers_up_def update_conv' mk_sub_def)
  next
    case False
    with assms obtain sp where "consumerId s this = 0" "map_of (eventHandlers s) 0 = Some (Some this, sp)" by (auto simp: handlers_up_def)
    with link DefaultId_not_0 show ?thesis by (auto simp: addHandler_def handlers_up_def update_conv' mk_sub_def)
  qed
  then show thesis using that by blast
qed

lemma addHandler_up:
  assumes "server_ok eng s" and "handlers_up ''client'' this k s"
  obtains s' where "addHandler (mk_sub (serverQ k) ''client'') (Some this) s = (Inr (), s')"
    and "broker_of s' = broker_of s" and "server_ok eng s'" and "handlers_up ''client'' this (Suc k) s'"
proof -
  obtain s' where s': "addHandler (mk_sub (serverQ k) ''client'') (Some this) s = (Inr (), s')" "handlers_up ''client'' this (Suc k) s'"
    using addHandler_handlers_up [OF assms(2)] .
  have "steady eng (next_id s) (snd (addHandler (mk_sub (serverQ k) ''client'') (Some this) s))"
    by (rule preservesD [OF steady_addHandler]) (simp add: assms(1) steady_def)
  moreover have "broker_of (snd (addHandler (mk_sub (serverQ k) ''client'') (Some this) s)) = broker_of s"
    by (auto simp: addHandler_def broker_of_def Let_def split: option.split)
  ultimately show thesis using that s' unfolding steady_def by simp
qed

lemma node_exec_frame:
  "queue2handler (snd (node_exec c s)) = queue2handler s" "eventHandlers (snd (node_exec c s)) = eventHandlers s"
  "consumerId (snd (node_exec c s)) = consumerId s" "nextConsumersId (snd (node_exec c s)) = nextConsumersId s" for s :: "('re, 'a) server_scheme"
  by (subst only_tables_exec [of s c, unfolded only_tables_def], simp)+

lemma node_exec_run:
  assumes "server_ok eng s" and "spec_exec c (broker_of s) = (Inr (), b)"
  obtains s' where "node_exec c s = (Inr (), s')" and "server_ok eng s'" and "broker_of s' = b"
proof -
  have t: "tables_ok s" using assms(1) by (simp add: server_ok_def node_ok_alt)
  have "node_exec c s = (Inr (), snd (node_exec c s))" using broker_sim.same_result [OF t, of c] assms(2) by (simp add: prod_eq_iff)
  moreover have "broker_of (snd (node_exec c s)) = b" using broker_sim.same_state [OF t, of c] assms(2) by simp
  ultimately show thesis using that server_ok_node [OF assms(1), of c] by blast
qed

lemma handlers_up_node:
  "handlers_up ''client'' this k (snd (node_exec c s)) = handlers_up ''client'' this k s" for s :: "('re, 'a) server_scheme"
  by (simp add: handlers_up_def node_exec_frame)

text \<open>One round of the loop, for the node: the queue is created and the server, its owner, subscribes.\<close>

lemma queues_up_step:
  assumes "queues_up k b" and "k < 2 ^ 31 - 1" and "b_members b ServerID"
  obtains b1 b2 where "spec_exec (DoCreate \<lparr>qs_name = serverQ k\<rparr> ServerID) b = (Inr (), b1)"
    and "spec_exec (DoChange Subscribe (mk_sub (serverQ k) ''client'') ServerID) b1 = (Inr (), b2)" and "queues_up (Suc k) b2"
proof -
  let ?b1 = "snd (spec_exec (DoCreate \<lparr>qs_name = serverQ k\<rparr> ServerID) b)"
  let ?b2 = "snd (spec_exec (DoChange Subscribe (mk_sub (serverQ k) ''client'') ServerID) ?b1)"
  have new: "b_queues b (serverQ k) = None" "b_listeners b (serverQ k) ServerID = None" "b_next b = int k"
    using assms(1) by (simp_all add: queues_up_def)
  have 1: "spec_exec (DoCreate \<lparr>qs_name = serverQ k\<rparr> ServerID) b = (Inr (), ?b1)"
    and 2: "spec_exec (DoChange Subscribe (mk_sub (serverQ k) ''client'') ServerID) ?b1 = (Inr (), ?b2)"
    using new assms(2,3) by (simp_all add: spec_create_def spec_change_def)
  have "b_next ?b2 = int (Suc k)" "b_queues ?b2 q = (if q = serverQ k then Some \<lparr>queueId = int k, q_settings = \<lparr>qs_name = q\<rparr>\<rparr> else b_queues b q)"
    "b_listeners ?b2 q ServerID = (if q = serverQ k then Some \<lparr>isowner = True, issubscribed = True, ql_settings = mk_sub q ''client''\<rparr>
       else b_listeners b q ServerID)" for q
    using new assms(2,3) by (simp_all add: spec_create_def spec_change_def mk_sub_def)
  then have "queues_up (Suc k) ?b2"
    using assms(1) by (auto simp: queues_up_def echo_broker_def serverQ_inject mk_sub_def less_Suc_eq)
  with 1 2 show thesis by (rule that)
qed

lemma start_step:
  assumes "server_ok eng s" and "queues_up k (broker_of s)" and "handlers_up ''client'' this k s" and "k < 2 ^ 31 - 1"
  obtains s' where "bind (Server_createQueue \<lparr>qs_name = serverQ k\<rparr>) (\<lambda>_.
       Server_subscribe (mk_sub (serverQ k) ''client'') (Some this)) s = (Inr (), s')"
    and "server_ok eng s'" and "queues_up (Suc k) (broker_of s')" and "handlers_up ''client'' this (Suc k) s'"
proof -
  have "b_members (broker_of s) ServerID" using assms(1) by (auto simp: server_ok_def conns_ok_def)
  from queues_up_step [OF assms(2,4) this] obtain b1 b2 where
    b: "spec_exec (DoCreate \<lparr>qs_name = serverQ k\<rparr> ServerID) (broker_of s) = (Inr (), b1)"
    "spec_exec (DoChange Subscribe (mk_sub (serverQ k) ''client'') ServerID) b1 = (Inr (), b2)" "queues_up (Suc k) b2" .
  from node_exec_run [OF assms(1) b(1)] obtain s1 where
    s1: "node_exec (DoCreate \<lparr>qs_name = serverQ k\<rparr> ServerID) s = (Inr (), s1)" "server_ok eng s1" "broker_of s1 = b1" .
  have "handlers_up ''client'' this k s1" using handlers_up_node [of this k "DoCreate \<lparr>qs_name = serverQ k\<rparr> ServerID" s] s1(1) assms(3) by simp
  from addHandler_up [OF s1(2) this] obtain s2 where s2: "addHandler (mk_sub (serverQ k) ''client'') (Some this) s1 = (Inr (), s2)"
    "broker_of s2 = broker_of s1" "server_ok eng s2" "handlers_up ''client'' this (Suc k) s2" .
  have "spec_exec (DoChange Subscribe (mk_sub (serverQ k) ''client'') ServerID) (broker_of s2) = (Inr (), b2)"
    using b(2) s2(2) s1(3) by simp
  from node_exec_run [OF s2(3) this] obtain s3 where
    s3: "node_exec (DoChange Subscribe (mk_sub (serverQ k) ''client'') ServerID) s2 = (Inr (), s3)" "server_ok eng s3" "broker_of s3 = b2" .
  show thesis
  proof (rule that)
    show "bind (Server_createQueue \<lparr>qs_name = serverQ k\<rparr>) (\<lambda>_.
        Server_subscribe (mk_sub (serverQ k) ''client'') (Some this)) s = (Inr (), s3)"
      using s1(1) s2(1) s3(1) by (simp add: Server_createQueue_def Server_subscribe_def bind_def)
    show "server_ok eng s3" by (rule s3(2))
    show "queues_up (Suc k) (broker_of s3)" using s3(3) b(3) by simp
    show "handlers_up ''client'' this (Suc k) s3"
      using handlers_up_node [of this "Suc k" "DoChange Subscribe (mk_sub (serverQ k) ''client'') ServerID" s2] s3(1) s2(4) by simp
  qed
qed

lemma start_loop:
  assumes "server_ok eng s" and "queues_up 0 (broker_of s)" and "handlers_up ''client'' this 0 s" and "n < 2 ^ 31"
  obtains s' where "BenchmarkServer_onStartComplete this n s = (Inr (), s')"
    and "server_ok eng s'" and "queues_up n (broker_of s')" and "handlers_up ''client'' this n s'"
  using assms(4)
proof (induction n arbitrary: thesis)
  case 0
  show ?case using assms(1-3) by (intro 0(1)) (simp_all add: BenchmarkServer_onStartComplete_def ret_def)
next
  case (Suc n)
  from Suc.prems(2) have "n < 2 ^ 31" "n < 2 ^ 31 - 1" by simp_all
  from Suc.IH [OF _ this(1)] obtain s1 where s1: "BenchmarkServer_onStartComplete this n s = (Inr (), s1)"
    "server_ok eng s1" "queues_up n (broker_of s1)" "handlers_up ''client'' this n s1" by blast
  from start_step [OF s1(2-4) \<open>n < 2 ^ 31 - 1\<close>] obtain s2 where
    s2: "bind (Server_createQueue \<lparr>qs_name = serverQ n\<rparr>) (\<lambda>_. Server_subscribe (mk_sub (serverQ n) ''client'') (Some this)) s1 = (Inr (), s2)"
    "server_ok eng s2" "queues_up (Suc n) (broker_of s2)" "handlers_up ''client'' this (Suc n) s2" .
  have "BenchmarkServer_onStartComplete this (Suc n) s = (Inr (), s2)"
    using s1(1) s2(1) unfolding BenchmarkServer_onStartComplete_def upt_Suc_append [OF le0] for_each_append by (simp add: bind_def ret_def)
  then show ?case using s2(2-4) by (rule Suc.prems(1))
qed

lemma server_ok_flags [simp]:
  "server_ok eng (s\<lparr>acceptor := a\<rparr>) = server_ok eng s" "server_ok eng (s\<lparr>srv_is_started := b\<rparr>) = server_ok eng s"
  by (simp_all add: server_ok_def node_ok_def sorted_tables_def broker_of_def cache_ok_def queueIsExists_def)

lemma start_frame:
  "preserves (\<lambda>s. acceptor s \<and> accepting s \<and> connections s = []) (BenchmarkServer_onStartComplete this n)"
proof -
  let ?P = "\<lambda>s :: ('a, 'b) server_scheme. acceptor s \<and> accepting s \<and> connections s = []"
  have node: "preserves ?P (node_exec c)" for c
  proof (rule preservesI)
    fix s :: "('a, 'b) server_scheme"
    assume "?P s"
    moreover have "acceptor (snd (node_exec c s)) = acceptor s" "accepting (snd (node_exec c s)) = accepting s"
      by (subst only_tables_exec [of s c, unfolded only_tables_def], simp)+
    ultimately show "?P (snd (node_exec c s))" using only_tables_server [OF only_tables_exec [of s c]] by simp
  qed
  have "preserves ?P (addHandler p h)" for p h
    by (auto simp: preserves_def addHandler_def Let_def split: option.split)
  moreover have "preserves ?P (createQueue qs i)" "preserves ?P (changeSubscription a p i)" for qs a p i
    using node [of "DoCreate qs i"] node [of "DoChange a p i"] by simp_all
  ultimately show ?thesis
    unfolding BenchmarkServer_onStartComplete_def Server_createQueue_def Server_subscribe_def
    by (intro preserves_for_each preserves_bind)
qed

lemma BenchmarkServer_init:
  fixes s :: "'re bench_server"
  defines "s \<equiv> BenchmarkServer\<lparr>acceptor := True, accepting := True\<rparr>"
  shows "server_ok eng s" "queues_up 0 (broker_of s)" "handlers_up ''client'' this 0 s" "next_id s = 0" "server_received s = 0"
proof -
  have "ub_exists (ub_append \<lparr>user_login = l, user_id = ServerID\<rparr> ub_create) i \<longleftrightarrow> i = ServerID" for i l by simp
  then show "server_ok eng s"
    by (simp add: s_def BenchmarkServer_def server.extend_def bench_server.fields_def Server_def server_ok_def node_ok_def sorted_tables_def queues_ok_def
        listeners_ok_def queueIsExists_def cache_ok_def subscribers_known_def conns_ok_def get_or_def)
  show "queues_up 0 (broker_of s)" "handlers_up ''client'' this 0 s" "next_id s = 0" "server_received s = 0"
    by (simp_all add: s_def BenchmarkServer_def server.extend_def bench_server.fields_def Server_def queues_up_def handlers_up_def get_or_def)
qed

lemma BenchmarkServer_started:
  fixes eng :: "'re engine"
  assumes "n < 2 ^ 31"
  obtains s :: "'re bench_server" where "BenchmarkServer_serverStart this n BenchmarkServer = (Inr (), s)" and "server_ok eng s" and "next_id s = 0"
    and "\<forall>k < n. echoing (serverQ k) s" and "acceptor s \<and> accepting s \<and> connections s = []"
proof -
  let ?s = "BenchmarkServer\<lparr>acceptor := True, accepting := True\<rparr> :: 're bench_server"
  from start_loop [OF BenchmarkServer_init(1-3) assms] obtain s where s: "BenchmarkServer_onStartComplete this n ?s = (Inr (), s)"
    "server_ok eng s" "queues_up n (broker_of s)" "handlers_up ''client'' this n s" .
  have "preserves (steady eng 0) (BenchmarkServer_onStartComplete this n)"
    unfolding BenchmarkServer_onStartComplete_def Server_createQueue_def Server_subscribe_def
    by (intro preserves_for_each preserves_bind steady_createQueue steady_addHandler steady_change)
  moreover have "steady eng 0 ?s" unfolding steady_def using BenchmarkServer_init(1,4) by blast
  ultimately have "steady eng 0 (snd (BenchmarkServer_onStartComplete this n ?s))" by (rule preservesD)
  then have "next_id s = 0" using s(1) by (simp add: steady_def)
  moreover have "acceptor ?s \<and> accepting ?s \<and> connections ?s = []"
    by (simp add: BenchmarkServer_def server.extend_def bench_server.fields_def Server_def)
  from preservesD [OF start_frame this, of this n] have "acceptor s \<and> accepting s \<and> connections s = []"
    unfolding s(1) snd_conv .
  moreover have "BenchmarkServer_serverStart this n BenchmarkServer = (Inr (), s\<lparr>srv_is_started := True\<rparr>)"
    using s(1) by (simp add: BenchmarkServer_serverStart_def start_accept_def bind_def modify_def ret_def)
  moreover have "echoing (serverQ k) (s\<lparr>srv_is_started := True\<rparr>)" if "k < n" for k
    using handlers_up_echo [OF s(4) that] s(3) that by (simp add: echoing_parts queues_up_def echo_handlers_def echo_broker_def)
  ultimately show thesis using s(2) by (intro that [of "s\<lparr>srv_is_started := True\<rparr>"]) simp_all
qed

section \<open>The client\<close>

record 're bench_client = "'re client" +
  client_sended :: "32 word"

definition BenchmarkClient_consume :: "('re, 'a) bench_client_scheme consume" where
  "BenchmarkClient_consume h info d i =
     bind (Client_publish (mk_pub (pub_queueName info) ''client'') d Async) (\<lambda>_.
     modify (\<lambda>s. s\<lparr>client_sended := client_sended s + 1\<rparr>))"

definition BenchmarkClient_onConnect ::
  "((u64 \<times> Publish) list \<Rightarrow> (u64 \<times> Publish) list) \<Rightarrow> consumer \<Rightarrow> nat \<Rightarrow> (('re, 'a) client_scheme, unit) proc" where
  "BenchmarkClient_onConnect it this queue_count =
     bind (Client_onConnect it) (\<lambda>_.
     for_each [0..<queue_count] (\<lambda>j.
       bind (Client_subscribe (mk_sub (serverQ j) ''server'') (Some this) Async) (\<lambda>_.
       bind (Client_publish (mk_pub (serverQ j) ''client'') [1] Async) (\<lambda>_.
       ret ()))))"

text \<open>A connected client that listens to the queue with one consumer, for messages with the tag \<open>server\<close>.\<close>

definition rallying :: "'re engine \<Rightarrow> string \<Rightarrow> ('re, 'a) client_scheme \<Rightarrow> bool" where
  "rallying eng q a \<longleftrightarrow>
     cache_ok eng a \<and> connected_by (async_connection a) \<and> c_id a \<noteq> None \<and>
     (\<exists>v h sp. map_of (queue2handler a) q = Some [v] \<and> map_of (eventHandlers a) v = Some (Some h, sp) \<and>
        tag_matches eng sp ''server'' = Inr True)"

lemma client_answers:
  fixes a :: "('re, 'a) bench_client_scheme"
  assumes "rallying eng q a" and "short (mk_pub q ''client'') d"
    and nd: "header_kind nd = Inr (kind_code PUBLISH)" "Publish_read nd = Inr pb" "toPublishParams pb = mk_pub q ''server''" "p_data pb = d"
  shows "\<exists>a' nd'. Client_onNewMessage eng BenchmarkClient_consume nd a = (Inr (), a') \<and> rallying eng q a' \<and>
    client_sended a' = client_sended a + 1 \<and>
    Publish_toNetworkMessage (mk_Publish (mk_pub q ''client'') d (c_nextMessageId a)) = Inr nd' \<and> packed nd' \<and>
    c_outbox a' = c_outbox a @ [wire_bytes nd']"
proof -
  obtain v h sp i where a: "cache_ok eng a" "connected_by (async_connection a)" "c_id a = Some i" "map_of (queue2handler a) q = Some [v]"
    "map_of (eventHandlers a) v = Some (Some h, sp)" "tag_matches eng sp ''server'' = Inr True"
    using assms(1) by (auto simp: rallying_def)
  have "map_of (queue2handler a) (pub_queueName (mk_pub q ''server'')) = Some [v]" "tag_matches eng sp (pub_tag (mk_pub q ''server'')) = Inr True"
    using a(4,6) by (simp_all add: mk_pub_def)
  from callConsumer_one [OF a(1) this(1) a(5) this(2), of BenchmarkClient_consume d i] obtain c where
    c: "callConsumer eng BenchmarkClient_consume (mk_pub q ''server'') d i a = BenchmarkClient_consume h (mk_pub q ''server'') d i (a\<lparr>recache := c\<rparr>)"
    "cache_ok eng (a\<lparr>recache := c\<rparr>)" .
  obtain nd' where nd': "Publish_toNetworkMessage (mk_Publish (mk_pub q ''client'') d (c_nextMessageId a)) = Inr nd'" "packed nd'"
    using Publish_packs [OF assms(2)] by blast
  let ?a = "a\<lparr>recache := c\<rparr>" and ?r = "Client_publish (mk_pub q ''client'') d Async"
  have live: "connected_by (async_connection ?a)" "Publish_toNetworkMessage (mk_Publish (mk_pub q ''client'') d (c_nextMessageId ?a)) = Inr nd'"
    using a(2) nd'(1) by simp_all
  obtain io where pub: "?r ?a = (Inr (wait_for Async \<lparr>ar_locker = c_next_locker a\<rparr>), ?a\<lparr>c_nextMessageId := c_nextMessageId a + 1,
       messagePool := mp_append (mk_Publish (mk_pub q ''client'') d (c_nextMessageId a)) (messagePool a),
       c_next_locker := Suc (c_next_locker a), c_queries := omap_put (c_nextMessageId a) \<lparr>ar_locker = c_next_locker a\<rparr> (c_queries a),
       c_lockers := (c_lockers a)(c_next_locker a := True), async_connection := io, c_outbox := c_outbox a @ [wire_bytes nd']\<rparr>)"
    and io: "connected_by io"
    using Client_publish_live [OF live nd'(2), of Async] by auto
  let ?a' = "snd (?r ?a)"
  have "Client_onNewMessage eng BenchmarkClient_consume nd a = (Inr (), ?a'\<lparr>client_sended := client_sended a + 1\<rparr>)"
    using nd a(3) c(1) pub
    by (simp add: Client_onNewMessage_def Client_on_PUBLISH_def BenchmarkClient_consume_def bind_def lift_def modify_def mk_pub_def del: kind_code.simps)
  moreover have "rallying eng q (?a'\<lparr>client_sended := client_sended a + 1\<rparr>)"
    using a c(2) io pub by (auto simp: rallying_def cache_ok_def)
  ultimately show ?thesis
    using nd' pub by (intro exI [of _ "?a'\<lparr>client_sended := client_sended a + 1\<rparr>"] exI [of _ nd']) simp
qed

section \<open>Properties\<close>

lemma echo_answer:
  fixes s :: "('re, 'a) bench_server_scheme"
  assumes "server_ok eng s" and "tells_apart eng" and "echoing q s" and "short (mk_pub q ''client'') d" and "find_connection i s \<noteq> None"
    and "\<And>t j e. t \<in> {''client'', ''server''} \<Longrightarrow> \<not> spec_rejected eng (broker_of s) (mk_pub q t) j e"
    and "Publish_toNetworkMessage (mk_Publish (mk_pub q ''client'') d m) = Inr nd" and "0 < depth"
  shows "\<exists>s' ids ids' sent. onNewMessage eng (BenchmarkServer_consume depth eng) i nd s = (Inr (), s') \<and>
    server_ok eng s' \<and> echoing q s' \<and> broker_of s' = broker_of s \<and> find_connection i s' \<noteq> None \<and>
    server_received s' = server_received s + 1 \<and>
    sorted_wrt (<) ids \<and> set ids = {j. j \<noteq> ServerID \<and> spec_receives eng (broker_of s) (mk_pub q ''client'') j} \<and>
    sorted_wrt (<) ids' \<and> set ids' = {j. spec_receives eng (broker_of s) (mk_pub q ''server'') j} \<and>
    outbox s' = sent @ [(i, frame (kind_code OK) [u64V m])] \<and>
    map sent_view sent = map sent_view (outbox s) @ map (\<lambda>j. (j, Some (mk_pub q ''client'', d))) ids @
      map (\<lambda>j. (j, Some (mk_pub q ''server'', d))) ids'"
proof -
  obtain n where depth: "depth = Suc n" using assms(8) gr0_implies_Suc by blast
  let ?p = "mk_pub q ''client''" and ?consume = "BenchmarkServer_consume depth eng"
  have p: "pub_queueName ?p = q" "pub_tag ?p = ''client''" by (simp_all add: mk_pub_def)
  have quiet: "\<And>j e. \<not> spec_rejected eng (broker_of s) ?p j e" "\<And>j e. \<not> spec_rejected eng (broker_of s) (mk_pub q ''server'') j e"
    using assms(6) by blast+
  from echo_publish [of eng s ?p d n i, unfolded p, OF assms(1-3) refl assms(4) quiet] obtain s1 ids ids' where
    pub: "publish eng (onSendToClient eng ?consume) ?p d i s = (Inr (), s1\<lparr>server_received := server_received s + 1\<rparr>)"
    and s1: "server_ok eng s1" "only_sends s s1" "(\<lambda>i. find_connection i s1 \<noteq> None) = (\<lambda>i. find_connection i s \<noteq> None)"
    and sent: "sorted_wrt (<) ids" "set ids = {j. j \<noteq> ServerID \<and> spec_receives eng (broker_of s) ?p j}"
    "sorted_wrt (<) ids'" "set ids' = {j. spec_receives eng (broker_of s) (mk_pub q ''server'') j}"
    "map sent_view (outbox s1) = map sent_view (outbox s) @ map (\<lambda>j. (j, Some (?p, d))) ids @
      map (\<lambda>j. (j, Some (mk_pub q ''server'', d))) ids'"
    unfolding depth by blast
  let ?s1 = "s1\<lparr>server_received := server_received s + 1\<rparr>"
  have "find_connection i s1 \<noteq> None" using assms(5) s1(3) by metis
  then have here: "server_ok eng ?s1" "find_connection i ?s1 \<noteq> None" using s1(1) by (simp_all add: find_connection_def)
  from sendOk_run [OF here, of m] obtain cs okb where
    ok: "sendOk i m ?s1 = (Inr (), ?s1\<lparr>connections := cs, outbox := outbox ?s1 @ [(i, okb)]\<rparr>)"
    and same: "map conn_id cs = map conn_id (connections ?s1)" and okb: "okb = frame (kind_code OK) [u64V m]"
    and "Ok_read (framed okb) = Inr \<lparr>ok_id = m\<rparr>" .
  have "onNewMessage eng ?consume i nd s = (Inr (), ?s1\<lparr>connections := cs, outbox := outbox s1 @ [(i, okb)]\<rparr>)"
    using pub ok unfolding publish_request [OF assms(7)] by (simp add: bind_def)
  moreover have "server_ok eng (snd (sendOk i m ?s1))"
    using preservesD [OF steady_sendOk, of eng "next_id ?s1" ?s1 i m] s1(1) by (simp add: steady_def)
  moreover have "echoing q (?s1\<lparr>connections := cs, outbox := outbox s1 @ [(i, okb)]\<rparr>)"
    using only_sends_echoing [OF s1(2), of q] assms(3) by (simp add: echoing_def queueIsExists_def)
  moreover have "broker_of (?s1\<lparr>connections := cs, outbox := outbox s1 @ [(i, okb)]\<rparr>) = broker_of s"
    using only_sends_tables(1) [OF s1(2)] by (simp add: broker_of_def)
  moreover have "find_connection i (?s1\<lparr>connections := cs, outbox := outbox s1 @ [(i, okb)]\<rparr>) \<noteq> None"
    using here(2) find_connection_ids [of "?s1\<lparr>connections := cs, outbox := outbox s1 @ [(i, okb)]\<rparr>" ?s1 i] same by simp
  ultimately show ?thesis
    using sent okb ok
    by (intro exI [of _ "?s1\<lparr>connections := cs, outbox := outbox s1 @ [(i, okb)]\<rparr>"] exI [of _ ids] exI [of _ ids'] exI [of _ "outbox s1"]) simp
qed

text \<open>The benchmark's server after it was started with some queues and the network did something.\<close>

definition bench_run :: "'re engine \<Rightarrow> nat \<Rightarrow> consumer \<Rightarrow> nat \<Rightarrow> server_event list \<Rightarrow> 're bench_server" where
  "bench_run eng depth this n es =
     snd (run_seq (server_exec eng (BenchmarkServer_consume depth eng)) es (snd (BenchmarkServer_serverStart this n BenchmarkServer)))"

lemma bench_run_ok:
  assumes "n < 2 ^ 31" and "list_all from_network es" and "length (filter is_accept es) < 2 ^ 31"
  shows "server_ok eng (bench_run eng depth this n es)" and "k < n \<Longrightarrow> echoing (serverQ k) (bench_run eng depth this n es)"
proof -
  obtain s where s: "BenchmarkServer_serverStart this n BenchmarkServer = (Inr (), s :: 'a bench_server)" "server_ok eng s" "next_id s = 0"
    "\<forall>k < n. echoing (serverQ k) s" "acceptor s \<and> accepting s \<and> connections s = []" using BenchmarkServer_started [OF assms(1), of this eng] .
  from echoing_run [OF s(2) s(4) [rule_format] assms(2), of n depth] s(1,3) assms(3)
  show "server_ok eng (bench_run eng depth this n es)" "k < n \<Longrightarrow> echoing (serverQ k) (bench_run eng depth this n es)"
    by (simp_all add: bench_run_def)
qed


text \<open>A server with one queue and a client that listens to it.\<close>

lemma bench_demo:
  obtains nd s l where "ChangeSubscribe_toNetworkMessage (mk_ChangeSubscribe (mk_sub (serverQ 0) ''server'') 0) = Inr nd"
    and "s = bench_run literal_engine 1 7 1 [Accept Accepted, Message 0 nd]" and "find_connection 0 s \<noteq> None"
    and "b_listeners (broker_of s) (serverQ 0) =
      [0 \<mapsto> \<lparr>isowner = False, issubscribed = False, ql_settings = mk_sub (serverQ 0) ''server''\<rparr>, ServerID \<mapsto> l]"
    and "sub_tag (ql_settings l) = ''client''"
proof -
  let ?p = "mk_sub (serverQ 0) ''server''" and ?c = "BenchmarkServer_consume 1 literal_engine"
  obtain nd where nd: "ChangeSubscribe_toNetworkMessage (mk_ChangeSubscribe ?p 0) = Inr nd"
    using subscribe_frame [of ?p 0] by (auto simp: mk_sub_def serverQ_def decimal.simps)
  have one: "(1 :: nat) < 2 ^ 31" by simp
  obtain s0 where s0: "BenchmarkServer_serverStart 7 1 BenchmarkServer = (Inr (), s0 :: string bench_server)" "server_ok literal_engine s0"
    "next_id s0 = 0" "\<forall>k < 1. echoing (serverQ k) s0" "acceptor s0 \<and> accepting s0 \<and> connections s0 = []"
    using BenchmarkServer_started [OF one, of 7 literal_engine] .
  define s1 where "s1 = snd (server_exec literal_engine ?c (Accept Accepted) s0)"
  have s1: "connections s1 = [connection_start 0]" "broker_of s1 = (broker_of s0)\<lparr>b_members := ub_exists (clients s1)\<rparr>"
    using s0(3,5) by (simp_all add: s1_def handle_accept_state broker_of_def)
  have "bench_run literal_engine 1 7 1 [Accept Accepted] = s1" using s0(1) by (simp add: bench_run_def s1_def)
  with bench_run_ok(1) [OF one, of "[Accept Accepted]" literal_engine 1 7] have ok: "server_ok literal_engine s1" by simp
  have here: "find_connection 0 s1 \<noteq> None" using s1(1) by (simp add: find_connection_def connection_start_def)
  then have member: "b_members (broker_of s1) 0"
    using ok by (auto simp: server_ok_def conns_ok_def find_connection_None)
  then have "fst (spec_exec (DoChange Subscribe ?p 0) (broker_of s1)) = Inr ()" by (simp add: spec_change_def)
  from node_request_succeeds [OF ok here this, of 0] obtain s2 where
    s2: "bind (node_exec (DoChange Subscribe ?p 0)) (\<lambda>_. sendOk 0 0) s1 = (Inr (), s2)" "server_ok literal_engine s2"
    "broker_of s2 = snd (spec_exec (DoChange Subscribe ?p 0) (broker_of s1))" "map conn_id (connections s2) = map conn_id (connections s1)"
    "outbox s2 = outbox s1 @ [(0, frame (kind_code OK) [u64V 0])]" .
  have "onNewMessage literal_engine ?c 0 nd s1 = (Inr (), s2)"
    unfolding subscribe_request [OF nd] using s2(1) by (simp add: mk_ChangeSubscribe_def toParams_def)
  with here have "snd (server_exec literal_engine ?c (Message 0 nd) s1) = s2" by (simp del: not_None_eq BenchmarkServer_consume.simps)
  then have run: "s2 = bench_run literal_engine 1 7 1 [Accept Accepted, Message 0 nd]" using s0(1) by (simp add: bench_run_def s1_def)
  obtain l where l: "b_listeners (broker_of s0) (serverQ 0) ServerID = Some l" "sub_tag (ql_settings l) = ''client''"
    using s0(4) by (auto simp: echoing_def simp del: broker_of_sel)
  have "b_listeners (broker_of s0) (serverQ 0) j = None" if "j \<noteq> ServerID" for j
  proof -
    have "subscribers_known (broker_of s0)" "\<not> b_members (broker_of s0) j" using s0(2,5) that by (auto simp: server_ok_def conns_ok_def)
    then show ?thesis unfolding subscribers_known_def by blast
  qed
  then have "b_listeners (broker_of s2) (serverQ 0) = [0 \<mapsto> \<lparr>isowner = False, issubscribed = False, ql_settings = ?p\<rparr>, ServerID \<mapsto> l]"
    using l(1) member unfolding s2(3) s1(2) by (auto simp: spec_change_def mk_sub_def fun_eq_iff ServerID_def simp del: broker_of_sel)
  moreover have "find_connection 0 s2 \<noteq> None" using here find_connection_ids [OF s2(4)] by simp
  ultimately show thesis using nd run l(2) by (intro that)
qed

lemma bench_demo_targets:
  obtains sub s where "s = bench_run literal_engine 1 7 1 [Accept Accepted, Message 0 sub]" and "find_connection 0 s \<noteq> None"
    and "\<forall>t j e. \<not> spec_rejected literal_engine (broker_of s) (mk_pub (serverQ 0) t) j e"
    and "{j. j \<noteq> ServerID \<and> spec_receives literal_engine (broker_of s) (mk_pub (serverQ 0) ''client'') j} = {}"
    and "{j. spec_receives literal_engine (broker_of s) (mk_pub (serverQ 0) ''server'') j} = {0}"
proof -
  let ?q = "serverQ 0"
  obtain sub s l where s: "ChangeSubscribe_toNetworkMessage (mk_ChangeSubscribe (mk_sub ?q ''server'') 0) = Inr sub"
    "s = bench_run literal_engine 1 7 1 [Accept Accepted, Message 0 sub]" "find_connection 0 s \<noteq> None"
    "b_listeners (broker_of s) ?q =
      [0 \<mapsto> \<lparr>isowner = False, issubscribed = False, ql_settings = mk_sub ?q ''server''\<rparr>, ServerID \<mapsto> l]"
    "sub_tag (ql_settings l) = ''client''" using bench_demo .
  have matches: "tag_matches literal_engine p t = Inr (sub_tag p = t)" if "sub_tag p \<in> {''client'', ''server''}" for p t
    using that by (auto simp: tag_matches_def literal_engine_def)
  have "\<forall>t j e. \<not> spec_rejected literal_engine (broker_of s) (mk_pub ?q t) j e"
    using s(5) by (auto simp: spec_rejected_def s(4) target_test_def matches mk_pub_def mk_sub_def simp del: broker_of_sel split: if_splits)
  moreover have "{j. j \<noteq> ServerID \<and> spec_receives literal_engine (broker_of s) (mk_pub ?q ''client'') j} = {}"
    "{j. spec_receives literal_engine (broker_of s) (mk_pub ?q ''server'') j} = {0}"
    using s(5) by (auto simp: spec_receives_def s(4) target_test_def matches mk_pub_def mk_sub_def ServerID_def simp del: broker_of_sel split: if_splits)
  ultimately show thesis using s(2,3) by (intro that)
qed


end
