(* ===== verification/Echo_Client.thy ===== *)
theory Echo_Client
  imports Echo
begin

text \<open>
  \<^verbatim>\<open>src/benchmarks/echo_queue.cpp\<close>: how a client of the benchmark joins, and when the threads that drive the benchmark end.
\<close>

section \<open>Joining\<close>

text \<open>What a client sends for one queue: a subscription and the first message.\<close>

definition subscribe_bytes :: "ChangeSubscribe \<Rightarrow> byte list" where
  "subscribe_bytes cs = (case ChangeSubscribe_toNetworkMessage cs of Inl _ \<Rightarrow> [] | Inr nd \<Rightarrow> wire_bytes nd)"

definition greeting :: "u64 \<Rightarrow> nat \<Rightarrow> byte list list" where
  "greeting m j =
     [subscribe_bytes (mk_ChangeSubscribe (mk_sub (serverQ j) ''server'') (m + 2 * of_nat j)),
      publish_bytes (mk_Publish (mk_pub (serverQ j) ''client'') [1] (m + 2 * of_nat j + 1))]"

definition joined :: "consumer \<Rightarrow> ('re, 'a) client_scheme \<Rightarrow> nat \<Rightarrow> ('re, 'a) client_scheme \<Rightarrow> bool" where
  "joined this a k a' \<longleftrightarrow>
     handlers_up ''server'' this k a' \<and> connected_by (async_connection a') \<and> recache a' = recache a \<and> c_id a' = c_id a \<and>
     c_nextMessageId a' = c_nextMessageId a + 2 * of_nat k \<and>
     c_outbox a' = c_outbox a @ concat (map (greeting (c_nextMessageId a)) [0..<k])"

lemma length_decimal: "length (decimal n) \<le> Suc n"
proof (induction n rule: decimal.induct)
  case (1 n)
  show ?case
  proof (cases "n < 10")
    case False
    with 1 have "length (decimal (n div 10)) \<le> Suc (n div 10)" by simp
    with False show ?thesis by (subst decimal.simps) simp
  qed (simp add: decimal.simps)
qed

lemma serverQ_short: "j < 2 ^ 30 \<Longrightarrow> length (serverQ j) + 40 < 2 ^ 31"
  using length_decimal [of j] by (simp add: serverQ_def)

lemma addHandler_client:
  assumes "addHandler p h a = (r, a0)"
  shows "recache a0 = recache a" "c_id a0 = c_id a"
  using assms by (auto simp: addHandler_def Let_def split: option.splits if_splits)

lemma join_step:
  assumes "joined this a k a1" and "k < 2 ^ 30"
  obtains a2 where "bind (Client_subscribe (mk_sub (serverQ k) ''server'') (Some this) Async) (\<lambda>_.
       bind (Client_publish (mk_pub (serverQ k) ''client'') [1] Async) (\<lambda>_. ret ())) a1 = (Inr (), a2)"
    and "joined this a (Suc k) a2"
proof -
  let ?m = "c_nextMessageId a + 2 * of_nat k"
  let ?p = "mk_sub (serverQ k) ''server''" and ?q = "mk_pub (serverQ k) ''client''"
  have a1: "handlers_up ''server'' this k a1" "connected_by (async_connection a1)" "recache a1 = recache a" "c_id a1 = c_id a"
    "c_nextMessageId a1 = ?m" "c_outbox a1 = c_outbox a @ concat (map (greeting (c_nextMessageId a)) [0..<k])"
    using assms(1) by (simp_all add: joined_def)
  obtain a0 where a0: "addHandler ?p (Some this) a1 = (Inr (), a0)" "handlers_up ''server'' this (Suc k) a0"
    using addHandler_handlers_up [OF a1(1)] .
  have small: "length (sub_queueName ?p) + length (sub_tag ?p) + 22 < 2 ^ 31" "short ?q [1]"
    using serverQ_short [OF assms(2)] by (simp_all add: mk_sub_def mk_pub_def short_def)
  obtain nd c where nd: "ChangeSubscribe_toNetworkMessage (mk_ChangeSubscribe ?p ?m) = Inr nd" "connected_by c"
    "Client_subscribe ?p (Some this) Async a1 = (Inr (wait_for Async \<lparr>ar_locker = c_next_locker a1\<rparr>),
      a0\<lparr>c_nextMessageId := ?m + 1, c_next_locker := Suc (c_next_locker a1),
        c_queries := omap_put ?m \<lparr>ar_locker = c_next_locker a1\<rparr> (c_queries a0),
        c_lockers := (c_lockers a0)(c_next_locker a1 := True), async_connection := c, c_outbox := c_outbox a1 @ [wire_bytes nd]\<rparr>)"
    using Client_subscribe_run [OF a1(2) a0(1) small(1), of Async] unfolding a1(5) by blast
  let ?b = "snd (Client_subscribe ?p (Some this) Async a1)"
  obtain nd' where nd': "Publish_toNetworkMessage (mk_Publish ?q [1] (c_nextMessageId ?b)) = Inr nd'" "packed nd'"
    using Publish_packs [OF small(2)] by blast
  have "connected_by (async_connection ?b)" using nd(2,3) by simp
  from Client_publish_live [OF this nd', of Async] obtain c' where c': "connected_by c'"
    "Client_publish ?q [1] Async ?b = (Inr (wait_for Async \<lparr>ar_locker = c_next_locker ?b\<rparr>),
     ?b\<lparr>c_nextMessageId := c_nextMessageId ?b + 1, messagePool := mp_append (mk_Publish ?q [1] (c_nextMessageId ?b)) (messagePool ?b),
       c_next_locker := Suc (c_next_locker ?b), c_queries := omap_put (c_nextMessageId ?b) \<lparr>ar_locker = c_next_locker ?b\<rparr> (c_queries ?b),
       c_lockers := (c_lockers ?b)(c_next_locker ?b := True), async_connection := c', c_outbox := c_outbox ?b @ [wire_bytes nd']\<rparr>)" by blast
  let ?a2 = "snd (Client_publish ?q [1] Async ?b)"
  have "bind (Client_subscribe ?p (Some this) Async) (\<lambda>_. bind (Client_publish ?q [1] Async) (\<lambda>_. ret ())) a1 = (Inr (), ?a2)"
    using nd(3) c'(2) by (simp add: bind_def ret_def)
  moreover have "greeting (c_nextMessageId a) k = [wire_bytes nd, wire_bytes nd']"
    using nd(1,3) nd'(1) by (simp add: greeting_def subscribe_bytes_def publish_bytes_def)
  then have "joined this a (Suc k) ?a2"
    using nd(3) c' a0(2) a1 addHandler_client [OF a0(1)] by (simp add: joined_def handlers_up_def algebra_simps)
  ultimately show thesis by (rule that)
qed

lemma joined_start:
  assumes "handlers_up ''server'' this 0 a" and "connected_by (async_connection a)"
  shows "joined this a 0 a"
  using assms by (simp add: joined_def)

lemma join_loop:
  assumes "handlers_up ''server'' this 0 a" and "connected_by (async_connection a)" and "n \<le> 2 ^ 30"
  obtains a' where "for_each [0..<n] (\<lambda>j. bind (Client_subscribe (mk_sub (serverQ j) ''server'') (Some this) Async) (\<lambda>_.
       bind (Client_publish (mk_pub (serverQ j) ''client'') [1] Async) (\<lambda>_. ret ()))) a = (Inr (), a')" and "joined this a n a'"
  using assms(3)
proof (induction n arbitrary: thesis)
  case 0
  show ?case by (rule 0(1) [OF _ joined_start [OF assms(1,2)]]) (simp add: ret_def)
next
  case (Suc n)
  let ?body = "\<lambda>j. bind (Client_subscribe (mk_sub (serverQ j) ''server'') (Some this) Async) (\<lambda>_.
    bind (Client_publish (mk_pub (serverQ j) ''client'') [1] Async) (\<lambda>_. ret ()))"
  from Suc.prems(2) have "n \<le> 2 ^ 30" "n < 2 ^ 30" by simp_all
  from Suc.IH [OF _ this(1)] obtain a1 where a1: "for_each [0..<n] ?body a = (Inr (), a1)" "joined this a n a1" by blast
  obtain a2 where a2: "?body n a1 = (Inr (), a2)" "joined this a (Suc n) a2" using join_step [OF a1(2) \<open>n < 2 ^ 30\<close>] .
  have "for_each [0..<Suc n] ?body a = (Inr (), a2)"
    unfolding upt_Suc_append [OF le0] for_each_append using a1(1) a2(1) by (simp add: bind_def [of "for_each [0..<n] ?body"] bind_def [of "?body n"] ret_def)
  then show ?case using a2(2) by (rule Suc.prems(1))
qed

text \<open>A client that has not published anything has only its login to send before it joins.\<close>

lemma onConnect_first:
  assumes "connected_by (async_connection a)" and "Login_toNetworkMessage \<lparr>login_login = c_login a\<rparr> = Inr nd" and "mp_all it (messagePool a) = []"
  obtains c where "Client_onConnect it a =
      (Inr (), a\<lparr>loginConfirmed := False, async_connection := c, c_outbox := c_outbox a @ [wire_bytes nd]\<rparr>)" and "connected_by c"
proof -
  let ?a = "a\<lparr>loginConfirmed := False\<rparr>"
  obtain c where send: "Client_send nd ?a = (Inr (), ?a\<lparr>async_connection := c, c_outbox := c_outbox a @ [wire_bytes nd]\<rparr>)" "connected_by c"
    using Client_send_live [of ?a nd] assms(1) packed_Login [OF assms(2)] by auto
  have "Client_onConnect it a = (Inr (), a\<lparr>loginConfirmed := False, async_connection := c, c_outbox := c_outbox a @ [wire_bytes nd]\<rparr>)"
    using send(1) assms(2,3) by (simp add: Client_onConnect_def bind_def [of "modify _"] bind_def [of "Client_send nd"] modify_def ret_def)
  then show thesis using send(2) by (rule that)
qed

text \<open>Joining sends the login, then for every queue a subscription and a first message, and leaves the client
  ready for the rally on every queue from the moment that it knows its identifier.\<close>

lemma client_joins:
  assumes "handlers_up ''server'' this 0 a" and "connected_by (async_connection a)" and "n \<le> 2 ^ 30"
    and "Login_toNetworkMessage \<lparr>login_login = c_login a\<rparr> = Inr nd" and "mp_all it (messagePool a) = []"
  obtains a' where "BenchmarkClient_onConnect it this n a = (Inr (), a')"
    and "c_outbox a' = c_outbox a @ wire_bytes nd # concat (map (greeting (c_nextMessageId a)) [0..<n])"
    and "\<forall>k < n. \<forall>eng. cache_ok eng a \<and> (\<forall>sp. sub_tag sp = ''server'' \<longrightarrow> tag_matches eng sp ''server'' = Inr True) \<longrightarrow>
      rallying eng (serverQ k) (a'\<lparr>c_id := Some i\<rparr>)"
proof -
  obtain c where c: "Client_onConnect it a = (Inr (), a\<lparr>loginConfirmed := False, async_connection := c, c_outbox := c_outbox a @ [wire_bytes nd]\<rparr>)"
    "connected_by c" using onConnect_first [OF assms(2,4,5)] .
  let ?a = "a\<lparr>loginConfirmed := False, async_connection := c, c_outbox := c_outbox a @ [wire_bytes nd]\<rparr>"
  have "handlers_up ''server'' this 0 ?a" "connected_by (async_connection ?a)" using assms(1) c(2) by (simp_all add: handlers_up_def)
  from join_loop [OF this assms(3)] obtain a' where
    a': "BenchmarkClient_onConnect it this n a = (Inr (), a')" "joined this ?a n a'"
    unfolding BenchmarkClient_onConnect_def bind_def [of "Client_onConnect it"] c(1) by auto
  moreover have "rallying eng (serverQ k) (a'\<lparr>c_id := Some i\<rparr>)"
    if "k < n" "cache_ok eng a" "\<forall>sp. sub_tag sp = ''server'' \<longrightarrow> tag_matches eng sp ''server'' = Inr True" for k eng
    using that a'(2) by (auto simp: joined_def handlers_up_def rallying_def cache_ok_def)
  ultimately show thesis using a'(2) by (intro that) (auto simp: joined_def)
qed

section \<open>When the benchmark ends\<close>

text \<open>The loops of \<open>server_thread\<close> and \<open>client_thread\<close> test the counters after every handler that the service has run: the
  list holds the values of \<open>server_received\<close> and \<open>client_sended\<close> at these moments. The result is the number of
  handlers run before the loop is left, None while it goes on. The division is unsigned, on 64 bits.\<close>

definition per_client :: "u64 \<Rightarrow> 32 word \<Rightarrow> 32 word" where
  "per_client clients_count sended = ucast (scast sended div clients_count)"

fun server_thread_loop :: "32 word \<Rightarrow> u64 \<Rightarrow> bool \<Rightarrow> nat \<Rightarrow> (32 word \<times> 32 word) list \<Rightarrow> nat option" where
  "server_thread_loop maxSends clients_count clnt k [] = None"
| "server_thread_loop maxSends clients_count clnt k ((received, sended) # vs) =
     (let srv = sint received > sint maxSends;
          clnt' = (if clients_count \<noteq> 0 then sint (per_client clients_count sended) > sint maxSends else clnt) in
      if srv \<and> clnt' then Some (Suc k) else server_thread_loop maxSends clients_count clnt' (Suc k) vs)"

fun client_thread_loop :: "32 word \<Rightarrow> u64 \<Rightarrow> nat \<Rightarrow> (32 word \<times> 32 word) list \<Rightarrow> nat option" where
  "client_thread_loop maxSends clients_count k [] = None"
| "client_thread_loop maxSends clients_count k ((received, sended) # vs) =
     (let srv = sint received > sint maxSends;
          clnt = sint (per_client clients_count sended) > sint maxSends in
      if srv \<and> clnt then Some (Suc k) else client_thread_loop maxSends clients_count (Suc k) vs)"

text \<open>Both loops leave at the same moment, and a server without clients of its own never leaves.\<close>

lemma loops_agree: "c \<noteq> 0 \<Longrightarrow> server_thread_loop m c b k vs = client_thread_loop m c k vs"
  by (induction m c k vs arbitrary: b rule: client_thread_loop.induct) (auto simp: Let_def)

lemma no_clients_never_ends: "server_thread_loop m 0 False k vs = None"
  by (induction vs arbitrary: k) (auto simp: Let_def)

text \<open>While the counters have not overflowed, the test compares the numbers of messages.\<close>

lemma sint_of_nat: "n < 2 ^ 31 \<Longrightarrow> sint (of_nat n :: 32 word) = int n"
  using signed_take_bit_int_eq_self [of 31 "int n"] by (simp add: signed_of_nat)

lemma per_client_of_nat:
  assumes "n < 2 ^ 31" and "c < 2 ^ 64"
  shows "sint (per_client (of_nat c) (of_nat n)) = int (n div c)"
proof -
  have "scast (of_nat n :: 32 word) = (of_nat n :: u64)" using sint_of_nat [OF assms(1)] by (simp add: signed_def)
  moreover have "(of_nat n :: u64) div of_nat c = of_nat (n div c)"
    using assms by (simp add: word_unat_eq_iff unat_div unsigned_of_nat take_bit_nat_eq_self le_less_trans [OF div_le_dividend])
  moreover have "n div c < 2 ^ 31" using assms(1) div_le_dividend le_less_trans by blast
  moreover from this have "(ucast (of_nat (n div c) :: u64) :: 32 word) = of_nat (n div c)" by (simp add: unsigned_of_nat take_bit_nat_eq_self)
  ultimately show ?thesis by (simp add: per_client_def sint_of_nat)
qed

text \<open>The first moment at which the server has received, and every client on average sent, more than \<open>M\<close> messages.\<close>

fun first_beyond :: "nat \<Rightarrow> nat \<Rightarrow> nat \<Rightarrow> (nat \<times> nat) list \<Rightarrow> nat option" where
  "first_beyond M c k [] = None"
| "first_beyond M c k ((r, s) # vs) = (if M < r \<and> M < s div c then Some (Suc k) else first_beyond M c (Suc k) vs)"

lemma loop_counts:
  assumes "M < 2 ^ 31" and "c < 2 ^ 64" and "\<forall>(r, s) \<in> set vs. r < 2 ^ 31 \<and> s < 2 ^ 31"
  shows "client_thread_loop (of_nat M) (of_nat c) k (map (\<lambda>(r, s). (of_nat r, of_nat s)) vs) = first_beyond M c k vs"
  using assms
proof (induction M c k vs rule: first_beyond.induct)
  case (2 M c k r s vs)
  then have "sint (per_client (of_nat c) (of_nat s)) = int (s div c)" "sint (of_nat r :: 32 word) = int r" "sint (of_nat M :: 32 word) = int M"
    by (auto simp: per_client_of_nat sint_of_nat)
  with 2 show ?case by (simp add: Let_def)
qed simp

lemma first_beyond_rally: "k \<le> M \<Longrightarrow> M < N \<Longrightarrow> first_beyond M 1 k (map (\<lambda>j. (j, j)) [Suc k..<Suc N]) = Some (Suc M)"
proof (induction "M - k" arbitrary: k)
  case 0
  then have "first_beyond M 1 k (map (\<lambda>j. (j, j)) [Suc k..<Suc N]) = first_beyond M 1 k ((Suc k, Suc k) # map (\<lambda>j. (j, j)) [Suc (Suc k)..<Suc N])"
    by (subst upt_conv_Cons) auto
  with 0 show ?case by simp
next
  case (Suc x)
  then have "first_beyond M 1 k (map (\<lambda>j. (j, j)) [Suc k..<Suc N]) = first_beyond M 1 k ((Suc k, Suc k) # map (\<lambda>j. (j, j)) [Suc (Suc k)..<Suc N])"
    by (subst upt_conv_Cons) auto
  with Suc show ?case by simp
qed

text \<open>With one client, whose rally adds one to both counters in every round, the client's thread ends after \<open>maxSends + 1\<close>
  rounds; but the test can never succeed when \<open>maxSends\<close> is the largest value of its type, because the counters cannot exceed it.\<close>

lemma rally_ends:
  assumes "M < N" and "N < 2 ^ 31"
  shows "client_thread_loop (of_nat M) 1 0 (map (\<lambda>j. (of_nat j, of_nat j)) [1..<Suc N]) = Some (Suc M)"
proof -
  have "client_thread_loop (of_nat M) (of_nat 1) 0 (map (\<lambda>(r, s). (of_nat r, of_nat s)) (map (\<lambda>j. (j, j)) [1..<Suc N])) =
      first_beyond M 1 0 (map (\<lambda>j. (j, j)) [1..<Suc N])"
    by (rule loop_counts) (use assms in auto)
  then show ?thesis using first_beyond_rally [of 0 M N] assms(1) by (simp add: comp_def del: upt_Suc)
qed

lemma sint_at_most: "sint (w :: 32 word) \<le> 2 ^ 31 - 1"
  using sint_lt [of w] by simp

lemma largest_never_ends: "client_thread_loop 0x7FFFFFFF c k vs = None"
proof (induction vs arbitrary: k)
  case (Cons v vs)
  then show ?case using sint_at_most [of "fst v"] by (cases v) (simp add: Let_def not_less)
qed simp

end
