(* ===== verification/Spec2Isabelle.thy ===== *)
theory Spec2Isabelle
  imports System_Properties Test_Runner Locking Echo_Client
begin

text \<open>
  Verification of \<^verbatim>\<open>dqueue\<close>, a message queue: clients connect to a server over TCP, create queues,
  subscribe to them with a tag expression, and publish; the server passes every message on to the
  subscribers whose expression matches and confirms it to the publisher. All paths below are
  relative to \<^verbatim>\<open>src/libdqueue\<close>.

  \<^bold>\<open>Parts and how they interact.\<close> A call of the client (\<^verbatim>\<open>client.cpp\<close>) becomes a message of the protocol
  (\<^verbatim>\<open>queries.h\<close>), which a \<open>Scheme\<close> (\<^verbatim>\<open>serialisation.h\<close>) writes into a block with a length and a kind
  (\<^verbatim>\<open>network_message.h\<close>). \<open>AsyncIO\<close> (\<^verbatim>\<open>async_io.cpp\<close>) writes the block to a socket and, on the other side,
  reads blocks from the byte stream. The server (\<^verbatim>\<open>abstract_server.cpp\<close>, \<^verbatim>\<open>server.cpp\<close>) decodes a request,
  asks its node (\<^verbatim>\<open>node.cpp\<close>, with the user table of \<^verbatim>\<open>users.h\<close>) to carry it out, and answers; the node
  calls the server back for every delivery. The receiving client hands the message to the consumers
  registered for the queue (\<^verbatim>\<open>iqueue_client.h\<close>). Publisher and confirmation meet in the message pool
  (\<^verbatim>\<open>memory_message_pool.h\<close>) and in spin locks (\<^verbatim>\<open>utils/async/locker.h\<close>).

  \<^bold>\<open>Conventions.\<close> An operation with side effects is a \<open>proc\<close> (\<open>Prelude\<close>): a function from the state to a
  result or error, and the new state, because what was done before an exception stays done. Errors
  distinguish exceptions (\<open>Throw\<close>, one constructor per message of the code) from actions without
  meaning in C++ (\<open>Undef\<close>): overrun, uninitialised read, null dereference, signed overflow, invalid
  iterator, bad character. Integers keep the width of the code where it matters. \<open>std::map\<close> is a list sorted
  by key, \<open>std::unordered_map\<close> a list in some order, and code that iterates over one takes the order as
  an argument (\<open>Containers\<close>). What is not in the repository is a parameter: \<open>std::regex\<close> (an \<open>engine\<close>), the
  consumers of the application, and everything the operating system decides (arriving bytes, errors,
  accepted connections, resolved names, stack traces), which are arguments of the handlers or events.

  \<^bold>\<open>Theories.\<close>
  \<^item> \<open>Prelude\<close>, \<open>Containers\<close>: results and procs, loops that may throw, sequences of operations, the locale
    \<open>simulation\<close>; ordered and hash maps.
  \<^item> \<open>Memory_Block\<close>, \<open>Serialisation\<close>, \<open>Network_Message\<close>, \<open>Queries\<close>: blocks of possibly uninitialised bytes;
    the templates of \<^verbatim>\<open>serialisation.h\<close>; the message block; the six protocol messages, as interpretations of
    the locale \<open>wire_query\<close>. Reading gives back what was written; the exact conditions for overruns; where
    32-bit sizes wrap.
  \<^item> \<open>Node_Settings\<close>, \<open>Users\<close>, \<open>Queue_Client\<close>: subscription parameters with the process-wide cache of compiled
    expressions (transparent for every sequence of checks); the user table; the handler tables.
  \<^item> \<open>Node\<close>: the broker. The abstract broker is two functions and a set; \<open>broker_sim\<close> interprets
    \<open>simulation\<close> for the code, so every sequence of requests has the specified results. The locale \<open>delivery\<close>
    is what a node relies on when it calls its data handler.
  \<^item> \<open>Message_Pool\<close>: the interface \<open>message_pool\<close> as a locale and the in-memory pool as its interpretation.
  \<^item> \<open>Async_IO\<close>: sending, and the read loop \<open>pump\<close>, a total function of the bytes that have arrived; frames
    are recovered however the stream is cut.
  \<^item> \<open>Server\<close>, \<open>Server_Delivery\<close>: connections, requests and local operations; the invariant \<open>server_ok\<close> over all
    events; the interpretation \<open>served\<close> of \<open>delivery\<close>; deliveries, replies, closing.
  \<^item> \<open>Client\<close>, \<open>Client_Reliability\<close>: calls, callbacks and reconnection; the \<open>ledger\<close> of pending operations as an
    abstraction of the client with its own step relation; messages are sent until confirmed.
  \<^item> \<open>Locker\<close>, \<open>Strings\<close>, \<open>Logging\<close>: the spin lock as a loop and as a step relation of threads; splitting, case
    and message texts; the log manager with double-checked locking, and exceptions.
  \<^item> \<open>Server_Traffic\<close>, \<open>Client_Traffic\<close>: everything a server or a client can put on the wire in one event, also
    when the event fails half way.
  \<^item> \<open>System\<close>, \<open>System_Invariant\<close>, \<open>System_Properties\<close>: one server and any number of clients with their channels
    as a step relation (\<open>sys_step\<close>: calls, connections made and lost, messages handled, in any order), its
    invariant, and what holds in every reachable state: no published message is lost, calls return only after
    the server has carried them out, nothing is delivered that was not published, and every message on
    a channel is one its receiver understands. The channels hold whole messages; \<open>Async_IO\<close> shows that
    connections are such channels. A message whose handler throws is the last one read from its connection.
  \<^item> \<open>Mutexes\<close>, \<open>Locking\<close>: threads as lists of what they do with mutexes and shared data (\<open>thread_step\<close>); the locale
    \<open>lock_discipline\<close> (operations that take mutexes in the order of a rank never deadlock, those that touch only
    what they have locked never race); what every operation of server and client locks, on each of its
    paths, and the interpretations \<open>server_discipline\<close> and \<open>client_discipline\<close>. The server never deadlocks; a client
    whose consumers call it can, and publishing races with the creation of queues.
  \<^item> \<open>Echo\<close>: the classes of \<^verbatim>\<open>src/benchmarks/echo_queue.cpp\<close>, an application whose consumers call the library from within
    a delivery: starting, the queues that stay whatever clients do, and the publication inside a publication.
  \<^item> \<open>Echo_Client\<close>: how a client of the benchmark joins (\<open>client_joins\<close>: what it sends, and that it is ready for the
    messages of the server), and when the loops of the benchmark's threads end.
  \<^item> \<open>Test_Runner\<close>: the logger of the unit tests and their command line, \<^verbatim>\<open>src/unittests/main.cpp\<close>: which messages appear
    where, and that the copy of the arguments drops \<open>--verbose\<close> and nothing else.
  \<^item> This theory: the way of a message through all layers, and any number of rounds of the echo benchmark.

  \<^bold>\<open>Bounds and loops.\<close> Every loop is a total function: structural recursion, or a termination measure
  (\<open>pump\<close>, \<open>split_loop\<close>, \<open>tokens_loop\<close>, \<open>convert_loop\<close>). The loops that may run for ever, waiting for a
  lock (\<open>lock\<close>) or polling (\<open>sleep_until\<close>, \<open>client_thread_loop\<close>, \<open>server_thread_loop\<close>), take the list of states their tests find, and return nothing when the
  list ends. \<open>lock_returns\<close>, \<open>publish_returns_when_confirmed\<close>, \<open>client_books_balance\<close> and \<open>rally_ends\<close> say when they
  return. The consumer of the echo benchmark publishes, and a publication may call a consumer: \<open>BenchmarkServer_consume\<close>
  takes the depth of such calls for which there is room; one is enough (\<open>benchmark_server_echoes\<close>).
  Properties of clients and of the system hold for fewer than \<open>2\<^sup>6\<^sup>4\<close> events, because message identifiers
  wrap then; those of servers for fewer than \<open>2\<^sup>3\<^sup>1\<close> connections, because the counter of
  connections reaches the identifier reserved for the server (\<open>server_identifier_collides\<close>). Messages
  are below 2 GiB where they have to be built.

  \<^bold>\<open>Concurrency.\<close> Outside \<open>Locking\<close> operations are atomic: each runs under its lock, or in the one handler of a
  connection, so threads are sequences of operations in any order. \<open>Locking\<close> looks inside them: which mutexes
  they take, one by one, and where they rely on no other thread being there without a mutex. The spin lock and \<open>LogManager::instance\<close>, which
  provide atomicity, are modelled step by step, with sequentially consistent atomic accesses.

  \<^bold>\<open>Not modelled.\<close> Sockets, name resolution, threads and timing (Boost.Asio and the operating system);
  calls of the logger inside operations, which do not change what they do; \<open>ENSURE\<close>, which is empty in the
  default build, and \<open>THROW_EXCEPTION\<close> of debug builds, which ends the process; destructors other than the
  closing they do; the weak memory order of the atomics; \<^verbatim>\<open>utils/utils.h\<close>; the test cases and the framework
  that runs them; the microbenchmarks and the connection benchmark, which only call the library; the
  progress display and the command line of the echo benchmark.
\<close>

section \<open>From publisher to subscriber\<close>

text \<open>Bytes that every reader which waits for a message turns into that one message, however the
  network cuts them.\<close>

definition arrives_as :: "byte list \<Rightarrow> network_message \<Rightarrow> bool" where
  "arrives_as bs nd \<longleftrightarrow>
     (\<forall>io pieces. ready io \<longrightarrow> concat pieces = bs \<longrightarrow>
        (\<exists>n. arrive io pieces = (Inr (), [nd], io\<lparr>next_message_size := n\<rparr>, [])))"

lemma frame_arrives:
  assumes "wire_frame bs"
  shows "arrives_as bs (framed bs)"
  unfolding arrives_as_def
proof (intro allI impI)
  fix io pieces
  assume io: "ready io" and bs: "concat pieces = bs"
  obtain n where "pump io (concat [bs] @ []) = prepend [framed bs] (pump (io\<lparr>next_message_size := n\<rparr>) [])"
    using pump_frames [OF io, of "[bs]" "[]"] assms by auto
  moreover have "ready (io\<lparr>next_message_size := n\<rparr>)" using io by (simp add: ready_def)
  ultimately show "\<exists>n. arrive io pieces = (Inr (), [framed bs], io\<lparr>next_message_size := n\<rparr>, [])"
    by (intro exI [of _ n]) (simp add: arrive_pump [OF io] bs pump_ready_nil)
qed

lemma packed_arrives: "packed nd \<Longrightarrow> arrives_as (wire_bytes nd) nd"
  using frame_arrives [of "wire_bytes nd"] packed_wire [of nd] by simp

text \<open>What the two clients do with the frames of the server.\<close>

lemma subscriber_gets:
  assumes "sent_view (j, buf) = (j, Some (p, d))" and "c_id b = Some k"
  shows "\<exists>nd. arrives_as buf nd \<and> Client_onNewMessage eng consume nd b = callConsumer eng consume p d k b"
proof (intro exI conjI)
  have kind: "wire_frame buf" "header_kind (framed buf) = Inr (kind_code PUBLISH)"
    using assms(1) by (auto simp: sent_view_def split: if_splits)
  show "arrives_as buf (framed buf)" using frame_arrives [OF kind(1)] .
  from assms(1) kind obtain pb where "Publish_read (framed buf) = Inr pb" "toPublishParams pb = p" "p_data pb = d"
    by (auto simp: sent_view_def split: sum.splits)
  with kind(2) assms(2) show "Client_onNewMessage eng consume (framed buf) b = callConsumer eng consume p d k b"
    by (simp add: Client_onNewMessage_def Client_on_PUBLISH_def)
qed

lemma publisher_released:
  assumes "map_of (c_queries a) m = Some qr"
  shows "\<exists>nd a'. arrives_as (frame (kind_code OK) [u64V m]) nd \<and> Client_onNewMessage eng consume nd a = (Inr (), a') \<and>
    \<not> c_lockers a' (ar_locker qr) \<and> map_of (messagePool a') m = None"
proof -
  let ?nd = "framed (frame (kind_code OK) [u64V m])"
  have nd: "Ok_toNetworkMessage \<lparr>ok_id = m\<rparr> = Inr ?nd" using Ok_packs [of "\<lparr>ok_id = m\<rparr>"] by simp
  have "wire_bytes ?nd = frame (kind_code OK) [u64V m]"
    using as_buffer_frame [of "[u64V m]" "[Pod 8]"] by (simp add: wire_bytes_def)
  then have "arrives_as (frame (kind_code OK) [u64V m]) ?nd" using packed_arrives [OF packed_Ok [OF nd]] by simp
  then show ?thesis
    using Ok_sent [OF nd] assms
    by (intro exI [of _ ?nd] exI conjI [rotated])
       (auto simp: Client_onNewMessage_def Client_on_OK_def ret_def mp_erase_def delete_conv')
qed

section \<open>Properties of the system\<close>

text \<open>C1: a message gets from its publisher to its subscribers, through every layer. A connected
  client publishes; the bytes it hands to its socket reach the server, cut anywhere, as one message;
  the server answers that message without an error, and hands each target of the queue exactly one
  buffer; the target, reading it cut anywhere, calls its consumers with the published parameters
  and data; and the buffer sent to the publisher last, cut anywhere, unlocks the publisher's locker
  and takes the message out of its pool.\<close>

theorem publish_end_to_end:
  assumes publisher: "connected_by (async_connection a)" and "short p d"
    and server: "server_ok eng s" "find_connection i s \<noteq> None" "queueIsExists s (pub_queueName p)"
      "\<not> spec_receives eng (broker_of s) p ServerID" "\<And>j e. \<not> spec_rejected eng (broker_of s) p j e"
    and subscriber: "spec_receives eng (broker_of s) p j" "c_id b = Some k"
  shows "\<exists>a' bs nd s' sent okb buf.
    snd (Client_publish p d ot a) = a' \<and> c_outbox a' = c_outbox a @ [bs] \<and> c_lockers a' (c_next_locker a) \<and>
    arrives_as bs nd \<and>
    onNewMessage eng consume i nd s = (Inr (), s') \<and> outbox s' = sent @ [(i, okb)] \<and>
    filter (\<lambda>e. fst e = j) (drop (length (outbox s)) sent) = [(j, buf)] \<and>
    (\<exists>ndb. arrives_as buf ndb \<and>
       Client_onNewMessage eng_b consume_b ndb b = callConsumer eng_b consume_b p d k b) \<and>
    (\<exists>nda a''. arrives_as okb nda \<and> Client_onNewMessage eng_a consume_a nda a' = (Inr (), a'') \<and>
       \<not> c_lockers a'' (c_next_locker a) \<and> map_of (messagePool a'') (c_nextMessageId a) = None)"
proof -
  let ?m = "c_nextMessageId a" and ?a = "snd (Client_publish p d ot a)"
  obtain nd where nd: "Publish_toNetworkMessage (mk_Publish p d ?m) = Inr nd" "packed nd"
    using Publish_packs [OF assms(2)] by blast
  obtain c where a: "?a = a\<lparr>c_nextMessageId := ?m + 1, messagePool := mp_append (mk_Publish p d ?m) (messagePool a),
      c_next_locker := Suc (c_next_locker a), c_queries := omap_put ?m \<lparr>ar_locker = c_next_locker a\<rparr> (c_queries a),
      c_lockers := (c_lockers a)(c_next_locker a := True), async_connection := c, c_outbox := c_outbox a @ [wire_bytes nd]\<rparr>"
    using Client_publish_live [OF publisher nd, of ot] by auto
  obtain s' ids sent where s': "onNewMessage eng consume i nd s = (Inr (), s')" "sorted_wrt (<) ids"
    "set ids = {j. spec_receives eng (broker_of s) p j}" "outbox s' = sent @ [(i, frame (kind_code OK) [u64V ?m])]"
    "map sent_view sent = map sent_view (outbox s) @ map (\<lambda>j. (j, Some (p, d))) ids"
    using server_publish_run [OF server(1,2) assms(2) server(3-5) nd(1), of consume] by blast
  from subscriber(1) s'(3) have "j \<in> set ids" by simp
  with sent_once [OF s'(5,2)] obtain buf where buf: "filter (\<lambda>e. fst e = j) (drop (length (outbox s)) sent) = [(j, buf)]"
    "sent_view (j, buf) = (j, Some (p, d))" by blast
  have released: "\<exists>nda a''. arrives_as (frame (kind_code OK) [u64V ?m]) nda \<and> Client_onNewMessage eng_a consume_a nda ?a = (Inr (), a'') \<and>
       \<not> c_lockers a'' (c_next_locker a) \<and> map_of (messagePool a'') ?m = None"
    using publisher_released [of ?a ?m "\<lparr>ar_locker = c_next_locker a\<rparr>" eng_a consume_a] by (simp add: a)
  have sent: "c_outbox ?a = c_outbox a @ [wire_bytes nd]" "c_lockers ?a (c_next_locker a)" by (simp_all add: a)
  show ?thesis
    by (rule exI [of _ ?a], rule exI [of _ "wire_bytes nd"], rule exI [of _ nd], rule exI [of _ s'], rule exI [of _ sent],
        rule exI [of _ "frame (kind_code OK) [u64V ?m]"], rule exI [of _ buf])
       (intro conjI refl sent packed_arrives nd(2) s'(1,4) buf(1) subscriber_gets [OF buf(2) subscriber(2)] released)
qed

theorem publish_end_to_end_witness:
  fixes a b :: "string client"
  defines "a \<equiv> (Client ''a'' True)\<lparr>async_connection := Some (io_start AsyncIO)\<rparr>"
  defines "b \<equiv> (Client ''b'' True)\<lparr>c_id := Some 1\<rparr>"
  shows "\<exists>a' bs nd s' sent okb buf.
    snd (Client_publish (mk_pub ''q'' []) [7] Sync a) = a' \<and> c_outbox a' = c_outbox a @ [bs] \<and> c_lockers a' (c_next_locker a) \<and>
    arrives_as bs nd \<and>
    onNewMessage literal_engine silent 0 nd busy = (Inr (), s') \<and> outbox s' = sent @ [(0, okb)] \<and>
    filter (\<lambda>e. fst e = 1) (drop (length (outbox busy)) sent) = [(1, buf)] \<and>
    (\<exists>ndb. arrives_as buf ndb \<and>
       Client_onNewMessage literal_engine idle_consumer ndb b = callConsumer literal_engine idle_consumer (mk_pub ''q'' []) [7] 1 b) \<and>
    (\<exists>nda a''. arrives_as okb nda \<and> Client_onNewMessage literal_engine idle_consumer nda a' = (Inr (), a'') \<and>
       \<not> c_lockers a'' (c_next_locker a) \<and> map_of (messagePool a'') (c_nextMessageId a) = None)"
proof (rule publish_end_to_end)
  show "connected_by (async_connection a)" by (simp add: a_def connected_by_def)
  show "short (mk_pub ''q'' []) [7]" by (simp add: short_def)
  show "queueIsExists busy (pub_queueName (mk_pub ''q'' []))"
    using busy_present(2) by (simp add: mk_pub_def)
  show "spec_receives literal_engine (broker_of busy) (mk_pub ''q'' []) 1" using busy_targets(2) by blast
  show "c_id b = Some 1" by (simp add: b_def)
qed (rule busy_run(1) busy_present(1,3) busy_targets(1))+

lemma subscribed_receives:
  assumes "b_members b i"
  shows "spec_receives eng (snd (spec_change Subscribe p i b)) pub i \<longleftrightarrow>
    (if pub_queueName pub = sub_queueName p then tag_matches eng p (pub_tag pub) = Inr True
     else spec_receives eng b pub i)"
  using assms by (cases "b_listeners b (sub_queueName p) i") (auto simp: spec_receives_def spec_change_def target_test_def)

text \<open>C9: a subscription gets from the client into the broker, through every layer. A connected client
  subscribes; the bytes it hands to its socket reach the server, cut anywhere, as one message; the
  server answers it without an error, and from then on the client receives exactly the messages of
  that queue whose tag matches the expression it gave, and of other queues what it received
  before; the one buffer sent in reply, cut anywhere, unlocks the locker the subscriber waits for.\<close>

theorem subscribe_end_to_end:
  assumes "connected_by (async_connection a)" and "addHandler p h a = (Inr (), a0)"
    and "length (sub_queueName p) + length (sub_tag p) + 22 < 2 ^ 31"
    and "server_ok eng s" and "find_connection i s \<noteq> None"
  shows "\<exists>a' bs nd s' okb.
    Client_subscribe p h ot a = (Inr (wait_for ot \<lparr>ar_locker = c_next_locker a\<rparr>), a') \<and> c_outbox a' = c_outbox a @ [bs] \<and>
    arrives_as bs nd \<and>
    onNewMessage eng consume i nd s = (Inr (), s') \<and> server_ok eng s' \<and> outbox s' = outbox s @ [(i, okb)] \<and>
    (\<forall>pub. spec_receives eng (broker_of s') pub i \<longleftrightarrow>
       (if pub_queueName pub = sub_queueName p then tag_matches eng p (pub_tag pub) = Inr True
        else spec_receives eng (broker_of s) pub i)) \<and>
    (\<exists>nda a''. arrives_as okb nda \<and> Client_onNewMessage eng_a consume_a nda a' = (Inr (), a'') \<and>
       \<not> c_lockers a'' (c_next_locker a))"
proof -
  let ?m = "c_nextMessageId a"
  obtain a' nd where a': "Client_subscribe p h ot a = (Inr (wait_for ot \<lparr>ar_locker = c_next_locker a\<rparr>), a')"
    "ChangeSubscribe_toNetworkMessage (mk_ChangeSubscribe p ?m) = Inr nd" "packed nd" "c_outbox a' = c_outbox a @ [wire_bytes nd]"
    "map_of (c_queries a') ?m = Some \<lparr>ar_locker = c_next_locker a\<rparr>"
    using Client_subscribe_live [OF assms(1-3)] .
  have member: "b_members (broker_of s) i"
    using assms(4,5) by (auto simp: server_ok_def conns_ok_def broker_of_def find_connection_None)
  then have "fst (spec_exec (DoChange Subscribe p i) (broker_of s)) = Inr ()" by (simp add: spec_change_def)
  from node_request_succeeds [OF assms(4,5) this, of ?m] obtain s' where s':
    "bind (node_exec (DoChange Subscribe p i)) (\<lambda>_. sendOk i ?m) s = (Inr (), s')" "server_ok eng s'"
    "broker_of s' = snd (spec_change Subscribe p i (broker_of s))" "outbox s' = outbox s @ [(i, frame (kind_code OK) [u64V ?m])]"
    by auto
  have run: "onNewMessage eng consume i nd s = (Inr (), s')"
    using s'(1) subscribe_request [OF a'(2), of eng consume i] by simp
  have released: "\<exists>nda a''. arrives_as (frame (kind_code OK) [u64V ?m]) nda \<and> Client_onNewMessage eng_a consume_a nda a' = (Inr (), a'') \<and>
       \<not> c_lockers a'' (c_next_locker a)"
    using publisher_released [OF a'(5), of eng_a consume_a] by auto
  show ?thesis
    by (rule exI [of _ a'], rule exI [of _ "wire_bytes nd"], rule exI [of _ nd], rule exI [of _ s'],
        rule exI [of _ "frame (kind_code OK) [u64V ?m]"])
       (intro conjI allI a'(1,4) packed_arrives a'(3) run s'(2,4) released, unfold s'(3), rule subscribed_receives [OF member])
qed

theorem subscribe_end_to_end_witness:
  "\<exists>a' nd s'. snd (Client_subscribe (mk_sub ''q'' ''t'') None Sync
      ((Client ''a'' True :: string client)\<lparr>async_connection := Some (io_start AsyncIO)\<rparr>)) = a' \<and>
    onNewMessage literal_engine silent 0 nd busy = (Inr (), s') \<and>
    spec_receives literal_engine (broker_of s') (mk_pub ''q'' ''t'') 0"
proof -
  let ?a = "(Client ''a'' True :: string client)\<lparr>async_connection := Some (io_start AsyncIO)\<rparr>"
  let ?p = "mk_sub ''q'' ''t''" and ?pub = "mk_pub ''q'' ''t''"
  have hyps: "connected_by (async_connection ?a)" "addHandler ?p None ?a = (Inr (), ?a)"
    "length (sub_queueName ?p) + length (sub_tag ?p) + 22 < 2 ^ 31"
    by (simp_all add: connected_by_def addHandler_def)
  obtain nd s' where run: "onNewMessage literal_engine silent 0 nd busy = (Inr (), s')"
    and all: "\<forall>pub. spec_receives literal_engine (broker_of s') pub 0 \<longleftrightarrow>
       (if pub_queueName pub = sub_queueName ?p then tag_matches literal_engine ?p (pub_tag pub) = Inr True
        else spec_receives literal_engine (broker_of busy) pub 0)"
    using subscribe_end_to_end [OF hyps busy_run(1) busy_present(1), of Sync silent literal_engine idle_consumer] by blast
  have "spec_receives literal_engine (broker_of s') ?pub 0"
    using all [rule_format, of ?pub] by (simp add: tag_matches_def literal_engine_def del: broker_of_sel)
  with run show ?thesis by blast
qed

section \<open>The echo benchmark\<close>

text \<open>One exchange between the benchmark's server and one of its clients: the client handles a message and answers it,
  the server handles the answer, and something it sends back to the client is the next message, all of it
  as bytes that are cut anywhere.\<close>

inductive rally_round ::
  "'re engine \<Rightarrow> 'rc engine \<Rightarrow> nat \<Rightarrow> Id \<Rightarrow> 're bench_server \<times> 'rc bench_client \<times> network_message \<Rightarrow>
   're bench_server \<times> 'rc bench_client \<times> network_message \<Rightarrow> bool"
  for eng engc depth i where
  "Client_onNewMessage engc BenchmarkClient_consume nd a = (Inr (), a') \<Longrightarrow> c_outbox a' = c_outbox a @ [bs] \<Longrightarrow> arrives_as bs answer \<Longrightarrow>
   onNewMessage eng (BenchmarkServer_consume depth eng) i answer s = (Inr (), s') \<Longrightarrow>
   (i, buf) \<in> set (drop (length (outbox s)) (outbox s')) \<Longrightarrow> arrives_as buf nd' \<Longrightarrow>
   rally_round eng engc depth i (s, a, nd) (s', a', nd')"

definition served_ball :: "string \<Rightarrow> byte list \<Rightarrow> network_message \<Rightarrow> bool" where
  "served_ball q d nd \<longleftrightarrow> header_kind nd = Inr (kind_code PUBLISH) \<and>
     (\<exists>pb. Publish_read nd = Inr pb \<and> toPublishParams pb = mk_pub q ''server'' \<and> p_data pb = d)"

definition rally_ready :: "'re engine \<Rightarrow> 'rc engine \<Rightarrow> Id \<Rightarrow> string \<Rightarrow> byte list \<Rightarrow>
    're bench_server \<times> 'rc bench_client \<times> network_message \<Rightarrow> bool" where
  "rally_ready eng engc i q d = (\<lambda>(s, a, nd).
     server_ok eng s \<and> echoing q s \<and> find_connection i s \<noteq> None \<and>
     (\<forall>t \<in> {''client'', ''server''}. \<forall>j e. \<not> spec_rejected eng (broker_of s) (mk_pub q t) j e) \<and>
     spec_receives eng (broker_of s) (mk_pub q ''server'') i \<and> rallying engc q a \<and> served_ball q d nd)"

lemma sent_among:
  assumes "map sent_view sent = map sent_view old @ vs" and "v \<in> set vs" and "out = sent @ rest"
  shows "\<exists>buf. (fst v, buf) \<in> set (drop (length old) out) \<and> sent_view (fst v, buf) = v"
proof -
  have "map sent_view (drop (length old) sent) = vs" unfolding drop_map [symmetric] assms(1) by simp
  with assms(2) obtain e where e: "e \<in> set (drop (length old) sent)" "sent_view e = v" by auto
  then have "fst e = fst v" by (auto simp: sent_view_def)
  moreover have "length old \<le> length sent" using arg_cong [OF assms(1), of length] by simp
  then have "e \<in> set (drop (length old) out)" using e(1) unfolding assms(3) by simp
  ultimately show ?thesis using e(2) by (metis prod.collapse)
qed

lemma rally_once:
  assumes "tells_apart eng" and "0 < depth" and "short (mk_pub q ''client'') d" and "rally_ready eng engc i q d (s, a, nd)"
  shows "\<exists>s' a' nd'. rally_round eng engc depth i (s, a, nd) (s', a', nd') \<and> rally_ready eng engc i q d (s', a', nd') \<and>
    server_received s' = server_received s + 1 \<and> client_sended a' = client_sended a + 1"
proof -
  have s: "server_ok eng s" "echoing q s" "find_connection i s \<noteq> None" "spec_receives eng (broker_of s) (mk_pub q ''server'') i"
    and rejects: "\<And>t j e. t \<in> {''client'', ''server''} \<Longrightarrow> \<not> spec_rejected eng (broker_of s) (mk_pub q t) j e"
    and a: "rallying engc q a" and ball: "served_ball q d nd" using assms(4) by (auto simp: rally_ready_def simp del: broker_of_sel)
  obtain pb where "header_kind nd = Inr (kind_code PUBLISH)" "Publish_read nd = Inr pb" "toPublishParams pb = mk_pub q ''server''" "p_data pb = d"
    using ball by (auto simp: served_ball_def)
  from client_answers [OF a assms(3) this] obtain a' nd1 where a': "Client_onNewMessage engc BenchmarkClient_consume nd a = (Inr (), a')"
    "rallying engc q a'" "client_sended a' = client_sended a + 1" "c_outbox a' = c_outbox a @ [wire_bytes nd1]"
    and nd1: "Publish_toNetworkMessage (mk_Publish (mk_pub q ''client'') d (c_nextMessageId a)) = Inr nd1" "packed nd1" by blast
  from echo_answer [OF s(1) assms(1) s(2) assms(3) s(3) rejects nd1(1) assms(2)] obtain s' ids ids' sent where
    s': "onNewMessage eng (BenchmarkServer_consume depth eng) i nd1 s = (Inr (), s')" "server_ok eng s'" "echoing q s'"
    "broker_of s' = broker_of s" "find_connection i s' \<noteq> None" "server_received s' = server_received s + 1"
    and ids': "set ids' = {j. spec_receives eng (broker_of s) (mk_pub q ''server'') j}"
    and out: "outbox s' = sent @ [(i, frame (kind_code OK) [u64V (c_nextMessageId a)])]"
    "map sent_view sent = map sent_view (outbox s) @ map (\<lambda>j. (j, Some (mk_pub q ''client'', d))) ids @
      map (\<lambda>j. (j, Some (mk_pub q ''server'', d))) ids'" by blast
  have "i \<in> set ids'" using ids' s(4) by simp
  from sent_among [OF out(2) _ out(1), of "(i, Some (mk_pub q ''server'', d))"] this obtain buf where
    buf: "(i, buf) \<in> set (drop (length (outbox s)) (outbox s'))" "sent_view (i, buf) = (i, Some (mk_pub q ''server'', d))" by auto
  note buf(1)
  moreover have "arrives_as buf (framed buf)" using buf(2) by (intro frame_arrives) (auto simp: sent_view_def split: if_splits)
  ultimately have "rally_round eng engc depth i (s, a, nd) (s', a', framed buf)"
    using rally_round.intros [OF a'(1,4) packed_arrives [OF nd1(2)] s'(1)] by blast
  moreover have "rally_ready eng engc i q d (s', a', framed buf)"
    using s'(2-5) s(4) rejects a'(2) sent_view_reads [OF buf(2)] by (auto simp: rally_ready_def served_ball_def simp del: broker_of_sel)
  ultimately show ?thesis using s'(6) a'(3) by blast
qed

text \<open>C10: The echo benchmark never gets stuck. A client that listens to one of the benchmark's queues for the tag \<open>server\<close> and has
  received a message with that tag answers it; the server receives the answer and sends the data back to the client;
  and so on, for any number of rounds, through serialisation, framing, the broker and the consumers of both sides. Each
  round adds one to both counters. This holds whatever other clients did before, as long as the connection
  stays and no tag expression on the queue is rejected.\<close>

theorem rally_goes_on:
  assumes "tells_apart eng" and "0 < depth" and "n < 2 ^ 31" and "k < n" and "list_all from_network es" and "length (filter is_accept es) < 2 ^ 31"
    and s: "s = bench_run eng depth this n es" and "find_connection i s \<noteq> None" and "short (mk_pub (serverQ k) ''client'') d"
    and "\<And>t j e. t \<in> {''client'', ''server''} \<Longrightarrow> \<not> spec_rejected eng (broker_of s) (mk_pub (serverQ k) t) j e"
    and "spec_receives eng (broker_of s) (mk_pub (serverQ k) ''server'') i"
    and "rallying engc (serverQ k) a" and "served_ball (serverQ k) d nd"
  shows "\<exists>s' a' nd'. (rally_round eng engc depth i ^^ r) (s, a, nd) (s', a', nd') \<and> served_ball (serverQ k) d nd' \<and>
    server_received s' = server_received s + of_nat r \<and> client_sended a' = client_sended a + of_nat r"
proof -
  have "rally_ready eng engc i (serverQ k) d (s, a, nd)"
    using assms(8,10-13) bench_run_ok(1) [OF assms(3,5,6)] bench_run_ok(2) [OF assms(3,5,6,4)] unfolding s
    by (auto simp: rally_ready_def simp del: broker_of_sel)
  then have "\<exists>s' a' nd'. (rally_round eng engc depth i ^^ r) (s, a, nd) (s', a', nd') \<and> rally_ready eng engc i (serverQ k) d (s', a', nd') \<and>
      server_received s' = server_received s + of_nat r \<and> client_sended a' = client_sended a + of_nat r"
  proof (induction r)
    case 0
    then show ?case by auto
  next
    case (Suc r)
    then obtain s1 a1 nd1 where 1: "(rally_round eng engc depth i ^^ r) (s, a, nd) (s1, a1, nd1)" "rally_ready eng engc i (serverQ k) d (s1, a1, nd1)"
      "server_received s1 = server_received s + of_nat r" "client_sended a1 = client_sended a + of_nat r" by blast
    from rally_once [OF assms(1,2,9) 1(2)] obtain s2 a2 nd2 where 2: "rally_round eng engc depth i (s1, a1, nd1) (s2, a2, nd2)"
      "rally_ready eng engc i (serverQ k) d (s2, a2, nd2)" "server_received s2 = server_received s1 + 1" "client_sended a2 = client_sended a1 + 1" by blast
    have "(rally_round eng engc depth i ^^ Suc r) (s, a, nd) (s2, a2, nd2)" using 1(1) 2(1) by auto
    with 1(3,4) 2(2-4) show ?case by (intro exI [of _ s2] exI [of _ a2] exI [of _ nd2]) (simp add: algebra_simps)
  qed
  then show ?thesis by (auto simp: rally_ready_def)
qed

text \<open>A client that listens to the first queue of the benchmark.\<close>

definition rally_client :: "string bench_client" where
  "rally_client = (client.extend (Client ''c'' True) (bench_client.fields 0))
     \<lparr>queue2handler := [(serverQ 0, [0])], eventHandlers := [(0, Some 5, mk_sub (serverQ 0) ''server'')],
      async_connection := Some (io_start AsyncIO), c_id := Some 0\<rparr>"

lemma rally_client_ready: "rallying literal_engine (serverQ 0) rally_client" "client_sended rally_client = 0"
  by (simp_all add: rally_client_def client.extend_def bench_client.fields_def Client_def rallying_def cache_ok_def connected_by_def
      tag_matches_def literal_engine_def)

theorem rally_goes_on_witness:
  "\<exists>sub nd s s' a' nd'. s = bench_run literal_engine 1 7 1 [Accept Accepted, Message 0 sub] \<and>
     (rally_round literal_engine literal_engine 1 0 ^^ 3) (s, rally_client, nd) (s', a', nd') \<and>
     server_received s' = server_received s + 3 \<and> client_sended a' = 3"
proof -
  let ?q = "serverQ 0"
  obtain sub s where s: "s = bench_run literal_engine 1 7 1 [Accept Accepted, Message 0 sub]" "find_connection 0 s \<noteq> None"
    "\<forall>t j e. \<not> spec_rejected literal_engine (broker_of s) (mk_pub ?q t) j e"
    and receives: "{j. j \<noteq> ServerID \<and> spec_receives literal_engine (broker_of s) (mk_pub ?q ''client'') j} = {}"
    "{j. spec_receives literal_engine (broker_of s) (mk_pub ?q ''server'') j} = {0}" using bench_demo_targets .
  have short: "short (mk_pub ?q t) [7]" if "length t = 6" for t
    using that by (simp add: short_def mk_pub_def serverQ_def decimal.simps)
  obtain nd where nd: "Publish_toNetworkMessage (mk_Publish (mk_pub ?q ''server'') [7] 3) = Inr nd"
    using Publish_packs [OF short [of "''server''"]] by auto
  then have ball: "served_ball ?q [7] nd" using Publish_sent [OF nd] by (simp add: served_ball_def)
  have fits: "(0 :: nat) < 1" "(1 :: nat) < 2 ^ 31" "(0 :: nat) < 1" "list_all from_network [Accept Accepted, Message 0 sub]"
    "length (filter is_accept [Accept Accepted, Message 0 sub]) < 2 ^ 31" "short (mk_pub ?q ''client'') [7]" by (simp_all add: short)
  have "spec_receives literal_engine (broker_of s) (mk_pub ?q ''server'') 0" using receives(2) by blast
  from rally_goes_on [OF literal_tells_apart fits(1-5) s(1,2) fits(6) s(3) [rule_format] this rally_client_ready(1) ball, of 3]
  obtain s' a' nd' where "(rally_round literal_engine literal_engine 1 0 ^^ 3) (s, rally_client, nd) (s', a', nd')"
    "server_received s' = server_received s + 3" "client_sended a' = 3" by (auto simp: rally_client_ready(2))
  with s(1) show ?thesis by blast
qed

end
